(* ===== verification/Prelude.thy ===== *)
theory Prelude
  imports Main "HOL-Library.Word" "HOL-Library.Sublist"
begin

text \<open>
  Shared vocabulary of the development: machine types, the faults a C program can run into,
  the result type of fallible operations, and the list and word lemmas that several components use.

  A C function that can dereference a null pointer, read freed memory, write outside a buffer or
  call \<open>panic\<close> is modelled as a function into \<open>fault + 'a\<close>: \<open>Inl\<close> names the fault, \<open>Inr\<close> carries the
  result.  Allocation failure is not a fault: it is an ordinary branch of the code.
\<close>

unbundle bit_operations_syntax

type_synonym byte = "8 word"
type_synonym u32 = "32 word"

datatype fault = Null_deref | Use_after_free | Out_of_bounds | Panic | Stack_escape | Negative_len
  | Diverges | Div_by_zero | Bad_shift | Int_overflow | Linked_twice

type_synonym 'a res = "fault + 'a"

definition ok :: "'a res \<Rightarrow> bool" where
  "ok r = (case r of Inl _ \<Rightarrow> False | Inr _ \<Rightarrow> True)"

fun res_bind :: "'a res \<Rightarrow> ('a \<Rightarrow> 'b res) \<Rightarrow> 'b res" where
  "res_bind (Inl f) g = Inl f"
| "res_bind (Inr x) g = g x"

lemma ok_simps [simp]: "ok (Inr x)" "\<not> ok (Inl f)"
  by (simp_all add: ok_def)

lemma res_bind_Inr: "res_bind r g = Inr y \<longleftrightarrow> (\<exists>x. r = Inr x \<and> g x = Inr y)"
  by (cases r) auto

text \<open>\<open>poke off bs buf\<close> is the buffer after \<open>bcopy(bs, buf + off, length bs)\<close>.\<close>

definition poke :: "nat \<Rightarrow> 'a list \<Rightarrow> 'a list \<Rightarrow> 'a list" where
  "poke off bs buf = take off buf @ bs @ drop (off + length bs) buf"

lemma length_poke [simp]:
  "off + length bs \<le> length buf \<Longrightarrow> length (poke off bs buf) = length buf"
  by (simp add: poke_def)

lemma take_drop_poke_same:
  "off + length bs \<le> length buf \<Longrightarrow> take (length bs) (drop off (poke off bs buf)) = bs"
  by (simp add: poke_def)

lemma take_poke_before: "n \<le> off \<Longrightarrow> off \<le> length buf \<Longrightarrow> take n (poke off bs buf) = take n buf"
  by (simp add: poke_def min_absorb1)

text \<open>Writing right after a window of the buffer extends the window.\<close>

lemma window_extend:
  assumes "off + len + length bs \<le> length buf"
  shows "take (len + length bs) (drop off (poke (off + len) bs buf)) = take len (drop off buf) @ bs"
proof -
  from assms have "off + len \<le> length buf" by simp
  then show ?thesis by (simp add: poke_def drop_take min_absorb1 add.assoc)
qed

text \<open>Numbers in network byte order.\<close>

definition be_num :: "byte list \<Rightarrow> 'a::len word" where
  "be_num bs = foldl (\<lambda>w b. push_bit 8 w OR ucast b) 0 bs"

definition be16 :: "16 word \<Rightarrow> byte list" where
  "be16 w = [ucast (drop_bit 8 w), ucast w]"

definition be32 :: "u32 \<Rightarrow> byte list" where
  "be32 w = [ucast (drop_bit 24 w), ucast (drop_bit 16 w), ucast (drop_bit 8 w), ucast w]"

lemma be_num_be16: "be_num (be16 w) = w"
  by (rule bit_word_eqI) (auto simp: be_num_def be16_def bit_simps)

lemma be_num_be32: "be_num (be32 w) = w"
proof (rule bit_word_eqI)
  fix n :: nat
  assume "n < LENGTH(32)"
  then show "bit (be_num (be32 w) :: u32) n = bit w n"
    by (cases "8 \<le> n"; cases "16 \<le> n"; cases "24 \<le> n") (auto simp: be_num_def be32_def bit_simps)
qed

lemma length_be [simp]: "length (be16 w) = 2" "length (be32 w') = 4"
  by (simp_all add: be16_def be32_def)

end
