(* ===== verification/Mbuf.thy ===== *)
theory Mbuf
  imports Prelude
begin

text \<open>
  Network buffers: \<open>sys/sys/mbuf.h\<close> and \<open>sys/kern/uipc_mbuf.c\<close>.

  An mbuf is a \<open>record\<close> whose fields are those of \<open>struct mbuf\<close>: the storage the buffer owns
  (\<open>m_dat\<close>, \<open>m_pktdat\<close> or the external buffer, all \<open>m_buf\<close> here), the offset of \<open>m_data\<close> in it, the
  number of valid bytes, flags and type, and the packet header.  A chain linked through \<open>m_next\<close> is a
  list, the null pointer the empty list; the address of an mbuf is its \<open>m_id\<close>.  The stack marks a
  stretch of a stream that was never captured with an mbuf whose \<open>M_HOLE\<close> flag is set: it has a length
  and no bytes, and reads as zeros.

  Allocation (\<open>uma_zalloc_arg\<close> on the mbuf zones) is nondeterministic, so every function that allocates
  takes the list of outcomes it will see: \<open>None\<close> is an exhausted zone, \<open>Some\<close> gives the address and the
  stale contents of the new storage.  \<open>KASSERT\<close> compiles to nothing in this build; running off the end
  of a chain is therefore a null dereference, the result \<open>Inl Null_deref\<close>.
\<close>

subsection \<open>Data\<close>

datatype mflag =
    M_EXT | M_PKTHDR | M_EOR | M_RDONLY | M_PROTO1 | M_PROTO2 | M_PROTO3 | M_PROTO4 | M_PROTO5
  | M_BCAST | M_MCAST | M_FRAG | M_FIRSTFRAG | M_LASTFRAG | M_SKIP_FIREWALL | M_FREELIST
  | M_VLANTAG | M_PROMISC | M_NOFREE | M_PROTO6 | M_PROTO7 | M_PROTO8 | M_FLOWID | M_HOLE

datatype mtype = MT_DATA | MT_SONAME | MT_CONTROL | MT_OOBDATA

record pkthdr =
  rcvif :: nat
  header :: nat
  ph_len :: int
  flowid :: u32
  csum_flags :: int
  csum_data :: int
  tso_segsz :: "16 word"
  ether_vtag :: "16 word"
  tags :: "nat list"

record mbuf =
  m_id :: nat
  m_flags :: "mflag set"
  m_type :: mtype
  m_buf :: "byte list"
  m_off :: nat
  m_len :: nat
  m_pkthdr :: pkthdr
  ext_ref :: nat

type_synonym chain = "mbuf list"
type_synonym alloc = "(nat \<times> (nat \<Rightarrow> byte)) option list"

definition MSIZE :: nat where "MSIZE = 256"
definition MLEN :: nat where "MLEN = 216"
definition MHLEN :: nat where "MHLEN = 168"
definition MCLBYTES :: nat where "MCLBYTES = 2048"
definition MINCLSIZE :: nat where "MINCLSIZE = MHLEN + 1"
definition M_COPYALL :: nat where "M_COPYALL = 1000000000"
definition INT_MAX :: nat where "INT_MAX = 2147483647"

lemmas mbuf_consts = MSIZE_def MLEN_def MHLEN_def MCLBYTES_def MINCLSIZE_def M_COPYALL_def INT_MAX_def

definition M_PROTOFLAGS :: "mflag set" where
  "M_PROTOFLAGS = {M_PROTO1, M_PROTO2, M_PROTO3, M_PROTO4, M_PROTO5, M_PROTO6, M_PROTO7, M_PROTO8}"

definition M_COPYFLAGS :: "mflag set" where
  "M_COPYFLAGS = {M_PKTHDR, M_EOR, M_RDONLY} \<union> M_PROTOFLAGS \<union>
     {M_SKIP_FIREWALL, M_BCAST, M_MCAST, M_FRAG, M_FIRSTFRAG, M_LASTFRAG, M_VLANTAG, M_PROMISC}"

abbreviation is_hole :: "mbuf \<Rightarrow> bool" where "is_hole m \<equiv> M_HOLE \<in> m_flags m"
abbreviation is_ext :: "mbuf \<Rightarrow> bool" where "is_ext m \<equiv> M_EXT \<in> m_flags m"
abbreviation has_pkthdr :: "mbuf \<Rightarrow> bool" where "has_pkthdr m \<equiv> M_PKTHDR \<in> m_flags m"

text \<open>Bytes at \<open>mtod(m) + off\<close>, and the stream contribution of one mbuf.\<close>

definition m_bytes :: "mbuf \<Rightarrow> nat \<Rightarrow> nat \<Rightarrow> byte list" where
  "m_bytes m off n = take n (drop (m_off m + off) (m_buf m))"

definition mbuf_data :: "mbuf \<Rightarrow> byte list" where
  "mbuf_data m = (if is_hole m then replicate (m_len m) 0 else m_bytes m 0 (m_len m))"

definition chain_data :: "chain \<Rightarrow> byte list" where
  "chain_data ms = concat (map mbuf_data ms)"

definition wf_mbuf :: "mbuf \<Rightarrow> bool" where
  "wf_mbuf m = (if is_hole m then \<not> is_ext m \<and> m_len m \<le> INT_MAX
                else m_off m + m_len m \<le> length (m_buf m) \<and>
                     (\<not> is_ext m \<longrightarrow> length (m_buf m) \<le> (if has_pkthdr m then MHLEN else MLEN)))"

abbreviation wf_chain :: "chain \<Rightarrow> bool" where "wf_chain ms \<equiv> (\<forall>m \<in> set ms. wf_mbuf m)"

subsection \<open>Allocation and the inline helpers of \<open>mbuf.h\<close>\<close>

definition null_pkthdr :: pkthdr where
  "null_pkthdr = \<lparr>rcvif = 0, header = 0, ph_len = 0, flowid = 0, csum_flags = 0, csum_data = 0,
     tso_segsz = 0, ether_vtag = 0, tags = []\<rparr>"

definition m_init :: "nat \<Rightarrow> (nat \<Rightarrow> byte) \<Rightarrow> nat \<Rightarrow> mtype \<Rightarrow> mflag set \<Rightarrow> mbuf" where
  "m_init a junk sz ty fl = \<lparr>m_id = a, m_flags = fl, m_type = ty, m_buf = map junk [0..<sz],
     m_off = 0, m_len = 0, m_pkthdr = null_pkthdr, ext_ref = 1\<rparr>"

fun m_get :: "alloc \<Rightarrow> mtype \<Rightarrow> mbuf option \<times> alloc" where
  "m_get [] ty = (None, [])"
| "m_get (None # as) ty = (None, as)"
| "m_get (Some (a, junk) # as) ty = (Some (m_init a junk MLEN ty {}), as)"

fun m_gethdr :: "alloc \<Rightarrow> mtype \<Rightarrow> mbuf option \<times> alloc" where
  "m_gethdr [] ty = (None, [])"
| "m_gethdr (None # as) ty = (None, as)"
| "m_gethdr (Some (a, junk) # as) ty = (Some (m_init a junk MHLEN ty {M_PKTHDR}), as)"

fun m_gethole :: "alloc \<Rightarrow> mtype \<Rightarrow> mbuf option \<times> alloc" where
  "m_gethole [] ty = (None, [])"
| "m_gethole (None # as) ty = (None, as)"
| "m_gethole (Some (a, junk) # as) ty = (Some (m_init a junk MLEN ty {M_HOLE}), as)"

fun m_getcl :: "alloc \<Rightarrow> mtype \<Rightarrow> mflag set \<Rightarrow> mbuf option \<times> alloc" where
  "m_getcl [] ty fl = (None, [])"
| "m_getcl (None # as) ty fl = (None, as)"
| "m_getcl (Some (a, junk) # as) ty fl = (Some (m_init a junk MCLBYTES ty (insert M_EXT fl)), as)"

definition M_WRITABLE :: "mbuf \<Rightarrow> bool" where
  "M_WRITABLE m = (M_RDONLY \<notin> m_flags m \<and> (\<not> is_ext m \<or> ext_ref m = 1))"

definition M_LEADINGSPACE :: "mbuf \<Rightarrow> int" where
  "M_LEADINGSPACE m =
     (if is_ext m then (if M_WRITABLE m then int (m_off m) else 0)
      else if has_pkthdr m then int (m_off m)
      else if is_hole m then int INT_MAX - int (m_len m)
      else int (m_off m))"

definition M_TRAILINGSPACE :: "mbuf \<Rightarrow> int" where
  "M_TRAILINGSPACE m =
     (if is_ext m then (if M_WRITABLE m then int (length (m_buf m)) - int (m_off m + m_len m) else 0)
      else if is_hole m then int INT_MAX - int (m_len m)
      else int (length (m_buf m)) - int (m_off m + m_len m))"

text \<open>\<open>m_dup_pkthdr\<close>: \<open>tagok\<close> is whether \<open>m_tag_copy_chain\<close> could copy the packet tags.\<close>

definition m_dup_pkthdr :: "mbuf \<Rightarrow> mbuf \<Rightarrow> bool \<Rightarrow> mbuf option" where
  "m_dup_pkthdr to from tagok =
     (let fl = (m_flags from \<inter> M_COPYFLAGS) \<union> (m_flags to \<inter> {M_EXT});
          to1 = to\<lparr>m_flags := fl, m_pkthdr := m_pkthdr from\<rparr>;
          to2 = (if M_EXT \<in> fl then to1
                 else to1\<lparr>m_buf := drop (length (m_buf to) - MHLEN) (m_buf to), m_off := 0\<rparr>)
      in if tagok then Some to2 else None)"

definition mb_dupcl :: "mbuf \<Rightarrow> mbuf \<Rightarrow> mbuf \<times> mbuf" where
  "mb_dupcl n m =
     (n\<lparr>m_buf := m_buf m, ext_ref := Suc (ext_ref m),
        m_flags := m_flags n \<union> {M_EXT} \<union> (m_flags m \<inter> {M_RDONLY})\<rparr>,
      m\<lparr>ext_ref := Suc (ext_ref m)\<rparr>)"

subsection \<open>Lengths\<close>

fun m_length :: "chain \<Rightarrow> u32 \<times> mbuf option" where
  "m_length [] = (0, None)"
| "m_length [m] = (of_nat (m_len m), Some m)"
| "m_length (m # ms) = (let (l, x) = m_length ms in (of_nat (m_len m) + l, x))"

definition chain_len :: "chain \<Rightarrow> nat" where
  "chain_len ms = sum_list (map m_len ms)"

definition m_fixhdr :: "chain \<Rightarrow> (u32 \<times> chain) res" where
  "m_fixhdr ms = (case ms of [] \<Rightarrow> Inl Null_deref
     | m # ms' \<Rightarrow> (let l = fst (m_length ms)
                  in Inr (l, m\<lparr>m_pkthdr := (m_pkthdr m)\<lparr>ph_len := sint l\<rparr>\<rparr> # ms')))"

subsection \<open>Reading\<close>

text \<open>The seek loop shared by \<open>m_copydata\<close>, \<open>m_copym2\<close> and \<open>m_apply\<close>.\<close>

fun m_seek :: "chain \<Rightarrow> nat \<Rightarrow> (chain \<times> nat) res" where
  "m_seek [] off = (if 0 < off then Inl Null_deref else Inr ([], 0))"
| "m_seek (m # ms) off =
     (if 0 < off then (if off < m_len m then Inr (m # ms, off) else m_seek ms (off - m_len m))
      else Inr (m # ms, 0))"

fun m_copydata_loop :: "chain \<Rightarrow> nat \<Rightarrow> nat \<Rightarrow> byte list res" where
  "m_copydata_loop [] off len = (if 0 < len then Inl Null_deref else Inr [])"
| "m_copydata_loop (m # ms) off len =
     (if 0 < len
      then (let count = min (m_len m - off) len;
                cp = (if is_hole m then replicate count 0 else m_bytes m off count)
            in res_bind (m_copydata_loop ms 0 (len - count)) (\<lambda>r. Inr (cp @ r)))
      else Inr [])"

definition m_copydata :: "chain \<Rightarrow> nat \<Rightarrow> nat \<Rightarrow> byte list res" where
  "m_copydata ms off len = res_bind (m_seek ms off) (\<lambda>(ms', off'). m_copydata_loop ms' off' len)"

fun m_apply_loop ::
  "chain \<Rightarrow> nat \<Rightarrow> nat \<Rightarrow> ('s \<Rightarrow> byte list \<Rightarrow> int \<times> 's) \<Rightarrow> 's \<Rightarrow> (int \<times> 's) res" where
  "m_apply_loop [] off len f arg = (if 0 < len then Inl Null_deref else Inr (0, arg))"
| "m_apply_loop (m # ms) off len f arg =
     (if 0 < len
      then (let count = min (m_len m - off) len; (rval, arg') = f arg (m_bytes m off count)
            in if rval \<noteq> 0 then Inr (rval, arg') else m_apply_loop ms 0 (len - count) f arg')
      else Inr (0, arg))"

definition m_apply ::
  "chain \<Rightarrow> nat \<Rightarrow> nat \<Rightarrow> ('s \<Rightarrow> byte list \<Rightarrow> int \<times> 's) \<Rightarrow> 's \<Rightarrow> (int \<times> 's) res" where
  "m_apply ms off len f arg = res_bind (m_seek ms off) (\<lambda>(ms', off'). m_apply_loop ms' off' len f arg)"

text \<open>\<open>m_getptr\<close> returns the position of the mbuf in the chain and the offset inside it.\<close>

fun m_getptr :: "chain \<Rightarrow> int \<Rightarrow> (nat \<times> nat) option res" where
  "m_getptr ms loc =
     (if 0 \<le> loc
      then (case ms of [] \<Rightarrow> Inl Null_deref
        | m # ms' \<Rightarrow>
            if int (m_len m) > loc then Inr (Some (0, nat loc))
            else if ms' = [] then (if loc - int (m_len m) = 0 then Inr (Some (0, m_len m)) else Inr None)
            else res_bind (m_getptr ms' (loc - int (m_len m)))
                   (\<lambda>r. Inr (map_option (\<lambda>(i, o'). (Suc i, o')) r)))
      else Inr None)"

declare m_getptr.simps [simp del]

subsection \<open>Lemmas\<close>

lemma chain_data_simps [simp]:
  "chain_data [] = []" "chain_data (m # ms) = mbuf_data m @ chain_data ms"
  "chain_data (xs @ ys) = chain_data xs @ chain_data ys"
  by (simp_all add: chain_data_def)

lemma chain_len_simps [simp]:
  "chain_len [] = 0" "chain_len (m # ms) = m_len m + chain_len ms"
  "chain_len (xs @ ys) = chain_len xs + chain_len ys"
  by (simp_all add: chain_len_def)

lemma length_m_bytes: "m_off m + off + n \<le> length (m_buf m) \<Longrightarrow> length (m_bytes m off n) = n"
  by (simp add: m_bytes_def)

lemma length_mbuf_data [simp]: "wf_mbuf m \<Longrightarrow> length (mbuf_data m) = m_len m"
  by (auto simp: mbuf_data_def wf_mbuf_def m_bytes_def split: if_splits)

lemma length_chain_data [simp]: "wf_chain ms \<Longrightarrow> length (chain_data ms) = chain_len ms"
  by (induction ms) auto

lemma mbuf_data_empty: "m_len m = 0 \<Longrightarrow> mbuf_data m = []"
  by (simp add: mbuf_data_def m_bytes_def)

lemma take_drop_mbuf_data:
  "off + count \<le> m_len m \<Longrightarrow>
   take count (drop off (mbuf_data m)) =
   (if is_hole m then replicate count 0 else m_bytes m off count)"
  by (auto simp: mbuf_data_def m_bytes_def drop_take min_def add.commute)

lemma wf_m_init [simp]:
  "sz \<le> (if M_PKTHDR \<in> fl then MHLEN else MLEN) \<Longrightarrow> \<not> (M_HOLE \<in> fl \<and> M_EXT \<in> fl) \<Longrightarrow> wf_mbuf (m_init a junk sz ty fl)"
  "M_EXT \<in> fl \<Longrightarrow> M_HOLE \<notin> fl \<Longrightarrow> wf_mbuf (m_init a junk sz ty fl)"
  "mbuf_data (m_init a junk sz ty fl) = []"
  by (auto simp: wf_mbuf_def m_init_def mbuf_data_def m_bytes_def INT_MAX_def)

lemma m_length_eq: "fst (m_length ms) = of_nat (chain_len ms)"
  by (induction ms rule: m_length.induct) (auto simp: case_prod_beta)

lemma m_length_last: "snd (m_length ms) = (if ms = [] then None else Some (last ms))"
  by (induction ms rule: m_length.induct) (auto simp: case_prod_beta)

lemma m_seek_0 [simp]: "m_seek ms 0 = Inr (ms, 0)"
  by (cases ms) auto

lemma m_copydata_loop_0 [simp]: "m_copydata_loop ms off 0 = Inr []"
  by (cases ms) auto

lemma m_copydata_loop_eq:
  assumes "wf_chain ms" and "off \<le> (if ms = [] then 0 else m_len (hd ms))"
  shows "m_copydata_loop ms off len =
    (if off + len \<le> chain_len ms then Inr (take len (drop off (chain_data ms))) else Inl Null_deref)"
  using assms
proof (induction ms arbitrary: off len)
  case Nil
  then show ?case by simp
next
  case (Cons m ms)
  define count where "count = min (m_len m - off) len"
  have wf: "wf_mbuf m" "wf_chain ms" and off: "off \<le> m_len m"
    using Cons.prems by auto
  have IH: "m_copydata_loop ms 0 (len - count) =
      (if len - count \<le> chain_len ms then Inr (take (len - count) (chain_data ms)) else Inl Null_deref)"
    using Cons.IH[of 0 "len - count"] wf(2) by simp
  have cp: "(if is_hole m then replicate count 0 else m_bytes m off count) =
      take count (drop off (mbuf_data m))"
    using off by (subst take_drop_mbuf_data) (auto simp: count_def)
  have pre: "take len (drop off (mbuf_data m)) = take count (drop off (mbuf_data m))"
    using wf(1) off by (simp add: count_def min_def)
  have rest: "len - (length (mbuf_data m) - off) = len - count"
    using wf(1) by (simp add: count_def min_def)
  have all: "take len (drop off (chain_data (m # ms))) =
      take count (drop off (mbuf_data m)) @ take (len - count) (chain_data ms)"
    using off wf(1) pre rest by simp
  have bound: "(off + len \<le> chain_len (m # ms)) = (len - count \<le> chain_len ms)"
    using off by (auto simp: count_def min_def)
  have step: "0 < len \<Longrightarrow> m_copydata_loop (m # ms) off len =
      res_bind (m_copydata_loop ms 0 (len - count)) (\<lambda>r. Inr (take count (drop off (mbuf_data m)) @ r))"
    unfolding cp[symmetric] by (simp add: Let_def count_def)
  show ?case
  proof (cases "0 < len")
    case True
    show ?thesis
      unfolding step[OF True] IH all bound by simp
  next
    case False
    with off show ?thesis by simp
  qed
qed

lemma m_copydata_Nil: "m_copydata [] off len = (if 0 < off \<or> 0 < len then Inl Null_deref else Inr [])"
  by (auto simp: m_copydata_def)

lemma m_copydata_Cons:
  "m_copydata (m # ms) off len =
   (if off < m_len m \<or> off = 0 then m_copydata_loop (m # ms) off len else m_copydata ms (off - m_len m) len)"
  by (auto simp: m_copydata_def simp del: m_copydata_loop.simps)

lemma m_copydata_eq:
  "wf_chain ms \<Longrightarrow> m_copydata ms off len =
   (if off + len \<le> chain_len ms then Inr (take len (drop off (chain_data ms))) else Inl Null_deref)"
proof (induction ms arbitrary: off)
  case Nil
  then show ?case by (simp add: m_copydata_Nil)
next
  case (Cons m ms)
  show ?case
  proof (cases "off < m_len m \<or> off = 0")
    case True
    then have "off \<le> m_len m" by auto
    with True Cons.prems show ?thesis
      using m_copydata_loop_eq[of "m # ms" off len] by (simp only: m_copydata_Cons if_True) simp
  next
    case False
    then show ?thesis
      using Cons by (auto simp: m_copydata_Cons)
  qed
qed

end
