(* ===== verification/Mbuf_Edit.thy ===== *)
theory Mbuf_Edit
  imports Mbuf
begin

text \<open>
  The editing operations of \<open>sys/kern/uipc_mbuf.c\<close>: trimming (\<open>m_adj\<close>), concatenation (\<open>m_cat\<close>), splitting (\<open>m_split\<close>), copying
  (\<open>m_copym2\<close>, \<open>m_dup\<close>) and appending (\<open>m_append\<close>), with the lemmas that say what each does to the byte stream \<open>chain_data\<close> of the
  chain.  The properties of reading and editing are at the end.
\<close>

subsection \<open>Trimming\<close>

definition upd_hdr_len :: "(int \<Rightarrow> int) \<Rightarrow> chain \<Rightarrow> chain" where
  "upd_hdr_len f ms = (case ms of [] \<Rightarrow> []
     | m # ms' \<Rightarrow> (if has_pkthdr m then m\<lparr>m_pkthdr := (m_pkthdr m)\<lparr>ph_len := f (ph_len (m_pkthdr m))\<rparr>\<rparr>
                   else m) # ms')"

text \<open>The loop that trims from the head returns the chain and the part of the request left over.\<close>

fun m_adj_head :: "chain \<Rightarrow> nat \<Rightarrow> chain \<times> nat" where
  "m_adj_head [] len = ([], len)"
| "m_adj_head (m # ms) len =
     (if 0 < len
      then (if m_len m \<le> len
            then (let (ms', l) = m_adj_head ms (len - m_len m) in (m\<lparr>m_len := 0\<rparr> # ms', l))
            else (m\<lparr>m_len := m_len m - len, m_off := (if is_hole m then m_off m else m_off m + len)\<rparr> # ms, 0))
      else (m # ms, 0))"

text \<open>The loop that keeps the first \<open>count\<close> bytes and frees the mbufs after them.\<close>

fun m_adj_keep :: "chain \<Rightarrow> nat \<Rightarrow> chain" where
  "m_adj_keep [] count = []"
| "m_adj_keep (m # ms) count =
     (if count \<le> m_len m then [m\<lparr>m_len := count\<rparr>] else m # m_adj_keep ms (count - m_len m))"

definition m_adj_front :: "chain \<Rightarrow> int \<Rightarrow> chain" where
  "m_adj_front mp req_len =
     (let (ms, len) = m_adj_head mp (nat req_len) in upd_hdr_len (\<lambda>l. l - (req_len - int len)) ms)"

definition m_adj_rear :: "chain \<Rightarrow> nat \<Rightarrow> chain" where
  "m_adj_rear mp len =
     (if len \<le> m_len (last mp)
      then upd_hdr_len (\<lambda>l. l - int len) (butlast mp @ [(last mp)\<lparr>m_len := m_len (last mp) - len\<rparr>])
      else m_adj_keep (upd_hdr_len (\<lambda>_. int (chain_len mp - len)) mp) (chain_len mp - len))"

text \<open>The part that trims from the tail negates the request and sums the lengths in an \<open>int\<close>; leaving the range of \<open>int\<close> is a fault.\<close>

definition m_adj :: "chain \<Rightarrow> int \<Rightarrow> chain res" where
  "m_adj mp req_len =
     (if mp = [] then Inr []
      else if 0 \<le> req_len then Inr (m_adj_front mp req_len)
      else if int INT_MAX < - req_len \<or> INT_MAX < chain_len mp then Inl Int_overflow
      else Inr (m_adj_rear mp (nat (- req_len))))"

subsection \<open>Concatenation\<close>

fun m_cat_last :: "mbuf \<Rightarrow> chain \<Rightarrow> chain" where
  "m_cat_last m [] = [m]"
| "m_cat_last m (n # ns) =
     (if is_ext m \<or> is_hole m \<or> is_hole n \<or> length (m_buf m) \<le> m_off m + m_len m + m_len n
      then m # n # ns
      else m_cat_last (m\<lparr>m_buf := poke (m_off m + m_len m) (m_bytes n 0 (m_len n)) (m_buf m),
                         m_len := m_len m + m_len n\<rparr>) ns)"

definition m_cat :: "chain \<Rightarrow> chain \<Rightarrow> chain res" where
  "m_cat ms ns = (if ms = [] then Inl Null_deref else Inr (butlast ms @ m_cat_last (last ms) ns))"

subsection \<open>Splitting\<close>

fun m_split_walk :: "chain \<Rightarrow> nat \<Rightarrow> (chain \<times> mbuf \<times> chain \<times> nat) option" where
  "m_split_walk [] len = None"
| "m_split_walk (m # ms) len =
     (if m_len m < len
      then map_option (\<lambda>(pre, x, post, l). (m # pre, x, post, l)) (m_split_walk ms (len - m_len m))
      else Some ([], m, ms, len))"

text \<open>
  From the label \<open>extpacket\<close> on: the tail \<open>n\<close> takes the \<open>remain\<close> bytes of \<open>m\<close> after \<open>len\<close>, sharing the
  cluster or copying the bytes.
\<close>

definition m_split_tail :: "mbuf \<Rightarrow> mbuf \<Rightarrow> chain \<Rightarrow> nat \<Rightarrow> (mbuf \<times> chain) res" where
  "m_split_tail m n post len =
     (let remain = m_len m - len
      in if is_ext m
         then (let (n', m') = mb_dupcl n m
               in Inr (m'\<lparr>m_len := len\<rparr>, n'\<lparr>m_off := m_off m + len, m_len := remain\<rparr> # post))
         else if 0 < remain \<and> (length (m_buf m) < m_off m + len + remain \<or> length (m_buf n) < m_off n + remain)
         then Inl Out_of_bounds
         else Inr (m\<lparr>m_len := len\<rparr>,
                   n\<lparr>m_buf := poke (m_off n) (m_bytes m len remain) (m_buf n), m_len := remain\<rparr> # post))"

definition align8 :: "nat \<Rightarrow> nat" where "align8 n = n div 8 * 8"

text \<open>
  The result is the first part, the second part (\<open>[]\<close> for a null pointer) and the allocator.  The
  recursive call splits the sub-chain that starts at the mbuf holding the cut; it happens only after one
  allocation succeeded.
\<close>

function m_split :: "alloc \<Rightarrow> chain \<Rightarrow> nat \<Rightarrow> (chain \<times> chain \<times> alloc) res" where
  "m_split as m0 len0 =
     (case m_split_walk m0 len0 of
        None \<Rightarrow> Inr (m0, [], as)
      | Some (pre, m, post, len) \<Rightarrow>
          let remain = m_len m - len; h = hd m0
          in if has_pkthdr h
             then (case as of
                 [] \<Rightarrow> Inr (m0, [], [])
               | None # as' \<Rightarrow> Inr (m0, [], as')
               | Some (a, junk) # as' \<Rightarrow>
                   let n = (m_init a junk MHLEN (m_type h) {M_PKTHDR})\<lparr>m_pkthdr :=
                             null_pkthdr\<lparr>rcvif := rcvif (m_pkthdr h),
                                          ph_len := ph_len (m_pkthdr h) - int len0\<rparr>\<rparr>;
                       c = upd_hdr_len (\<lambda>_. int len0) (pre @ [m]);
                       pre' = butlast c; m' = last c
                   in if is_ext m'
                      then res_bind (m_split_tail m' n post len) (\<lambda>(x, t). Inr (pre' @ [x], t, as'))
                      else if MHLEN < remain
                      then res_bind (m_split as' (m' # post) len)
                             (\<lambda>(c', t, as''). if t = [] then Inr (pre' @ c', [], as'')
                                else Inr (pre' @ c', n\<lparr>m_off := align8 MHLEN, m_len := 0\<rparr> # t, as''))
                      else res_bind (m_split_tail m' (n\<lparr>m_off := align8 (MHLEN - remain)\<rparr>) post len)
                             (\<lambda>(x, t). Inr (pre' @ [x], t, as')))
             else if remain = 0 then Inr (pre @ [m], post, as)
             else (case as of
                 [] \<Rightarrow> Inr (m0, [], [])
               | None # as' \<Rightarrow> Inr (m0, [], as')
               | Some (a, junk) # as' \<Rightarrow>
                   if \<not> is_ext m \<and> MLEN < remain then Inl Out_of_bounds
                   else res_bind (m_split_tail m
                            ((m_init a junk MLEN (m_type m) {})\<lparr>m_off := align8 (MLEN - remain)\<rparr>) post len)
                          (\<lambda>(x, t). Inr (pre @ [x], t, as'))))"
  by pat_completeness auto
termination
  by (relation "measure (\<lambda>(as, _, _). length as)") auto

declare m_split.simps [simp del]

text \<open>The cut does not fall strictly inside a hole.\<close>

definition cut_ok :: "chain \<Rightarrow> nat \<Rightarrow> bool" where
  "cut_ok m0 len0 = (case m_split_walk m0 len0 of None \<Rightarrow> True
     | Some (_, m, _, l) \<Rightarrow> is_hole m \<longrightarrow> l = m_len m)"

text \<open>What a split, successful or not, leaves behind.\<close>

definition split_ok :: "chain \<Rightarrow> nat \<Rightarrow> (chain \<times> chain \<times> alloc) res \<Rightarrow> bool" where
  "split_ok m0 len0 r = (case r of Inl _ \<Rightarrow> False
     | Inr (c, t, as) \<Rightarrow> chain_data c @ chain_data t = chain_data m0 \<and> wf_chain c \<and> wf_chain t \<and>
         (t \<noteq> [] \<longrightarrow> chain_data c = take len0 (chain_data m0)))"

subsection \<open>Copying\<close>

text \<open>
  One round of the copy loop of \<open>m_copym2\<close>: allocate the copy of \<open>m\<close>, give it the packet header if it is
  the first, and share the cluster, mark the hole or copy the bytes.  The result is the copy and the
  source mbuf (whose reference count goes up when the cluster is shared); \<open>None\<close> is the jump to
  \<open>nospace\<close>.
\<close>

definition m_copym_mbuf :: "mbuf \<Rightarrow> nat \<Rightarrow> nat \<Rightarrow> nat \<Rightarrow> bool \<Rightarrow> bool \<Rightarrow> alloc \<Rightarrow>
    ((mbuf \<times> mbuf) option \<times> alloc) res" where
  "m_copym_mbuf m off len off0 copyhdr tagok as =
     (case (if copyhdr then m_gethdr as (m_type m) else m_get as (m_type m)) of
        (None, as') \<Rightarrow> Inr (None, as')
      | (Some n0, as') \<Rightarrow>
          (case (if copyhdr then m_dup_pkthdr n0 m tagok else Some n0) of
             None \<Rightarrow> Inr (None, as')
           | Some n1 \<Rightarrow>
               let n2 = (if copyhdr
                         then n1\<lparr>m_pkthdr := (m_pkthdr n1)\<lparr>ph_len :=
                                (if len = M_COPYALL then ph_len (m_pkthdr n1) - int off0 else int len)\<rparr>\<rparr>
                         else n1);
                   count = min len (m_len m - off);
                   n3 = n2\<lparr>m_len := count\<rparr>
               in if is_ext m
                  then (let (n4, m') = mb_dupcl n3 m in Inr (Some (n4\<lparr>m_off := m_off m + off\<rparr>, m'), as'))
                  else if is_hole m then Inr (Some (n3\<lparr>m_flags := insert M_HOLE (m_flags n3)\<rparr>, m), as')
                  else if length (m_buf m) < m_off m + off + count \<or> length (m_buf n3) < m_off n3 + count
                  then Inl Out_of_bounds
                  else Inr (Some (n3\<lparr>m_buf := poke (m_off n3) (m_bytes m off count) (m_buf n3)\<rparr>, m), as')))"

text \<open>
  The copy loop returns the source chain and the copy; \<open>lh\<close> is the hole bit of \<open>last_m_flags\<close>.
\<close>

fun m_copym_loop :: "chain \<Rightarrow> nat \<Rightarrow> nat \<Rightarrow> nat \<Rightarrow> bool \<Rightarrow> bool \<Rightarrow> bool \<Rightarrow> bool \<Rightarrow> alloc \<Rightarrow>
    (chain \<times> chain option \<times> alloc) res" where
  "m_copym_loop [] off len off0 copyhdr hole_break lh tagok as = Inr ([], Some [], as)"
| "m_copym_loop (m # ms) off len off0 copyhdr hole_break lh tagok as =
     (if len = 0 \<or> hole_break \<and> is_hole m \<noteq> lh then Inr (m # ms, Some [], as)
      else res_bind (m_copym_mbuf m off len off0 copyhdr tagok as)
        (\<lambda>(r, as'). case r of None \<Rightarrow> Inr (m # ms, None, as')
          | Some (n, m') \<Rightarrow> res_bind
              (m_copym_loop ms 0 (if len = M_COPYALL then len else len - m_len n) off0 False
                 hole_break (is_hole m) tagok as')
              (\<lambda>(src, cp, as''). Inr (m' # src, map_option (\<lambda>c. n # c) cp, as''))))"

definition m_at :: "chain \<Rightarrow> chain \<Rightarrow> chain" where
  "m_at ms rest = take (length ms - length rest) ms"

definition m_copym2 :: "alloc \<Rightarrow> chain \<Rightarrow> nat \<Rightarrow> nat \<Rightarrow> bool \<Rightarrow> bool \<Rightarrow> (chain \<times> chain \<times> alloc) res" where
  "m_copym2 as m off0 len hole_break tagok =
     (if m = [] \<and> off0 = 0 then Inl Null_deref
      else res_bind (m_seek m off0)
        (\<lambda>(rest, off). res_bind
           (m_copym_loop rest off len off0 (off0 = 0 \<and> has_pkthdr (hd m)) hole_break
              (rest \<noteq> [] \<and> is_hole (hd rest)) tagok as)
           (\<lambda>(src, cp, as'). case cp of
                None \<Rightarrow> Inr (m, [], as')
              | Some t \<Rightarrow> Inr (m_at m rest @ src, t, as'))))"

subsection \<open>Appending\<close>

fun m_append_loop :: "alloc \<Rightarrow> mtype \<Rightarrow> byte list \<Rightarrow> chain \<times> byte list \<times> alloc" where
  "m_append_loop as ty [] = ([], [], as)"
| "m_append_loop [] ty cp = ([], cp, [])"
| "m_append_loop (None # as) ty cp = ([], cp, as)"
| "m_append_loop (Some (a, junk) # as) ty cp =
     (let n0 = m_init a junk MLEN ty {}; l = min MLEN (length cp);
          n = n0\<lparr>m_len := l, m_buf := poke 0 (take l cp) (m_buf n0)\<rparr>;
          (ns, rest, as') = m_append_loop as ty (drop l cp)
      in (n # ns, rest, as'))"

text \<open>\<open>m_append(m0, len, cp)\<close>, where \<open>cp\<close> holds the \<open>len\<close> bytes; the boolean is the return value.\<close>

definition m_append :: "alloc \<Rightarrow> chain \<Rightarrow> byte list \<Rightarrow> (chain \<times> bool \<times> alloc) res" where
  "m_append as m0 cp =
     (if m0 = [] then Inl Null_deref
      else (let m = last m0;
                avail = (if is_hole m then 0 else M_TRAILINGSPACE m);
                s = (if 0 < avail then min (nat avail) (length cp) else 0);
                m' = m\<lparr>m_buf := poke (m_off m + m_len m) (take s cp) (m_buf m), m_len := m_len m + s\<rparr>;
                (ns, rest, as') = m_append_loop as (m_type m) (drop s cp)
            in Inr (upd_hdr_len (\<lambda>l. l + int (length cp) - int (length rest)) (butlast m0 @ m' # ns),
                    rest = [], as')))"

subsection \<open>Deep copy\<close>

text \<open>The inner loop of \<open>m_dup\<close>: fill \<open>n\<close> (with room for \<open>nsize\<close> bytes) from the source position.\<close>

fun m_dup_fill :: "chain \<Rightarrow> nat \<Rightarrow> int \<Rightarrow> mbuf \<Rightarrow> nat \<Rightarrow> mbuf \<times> chain \<times> nat \<times> int" where
  "m_dup_fill [] moff remain n nsize = (n, [], moff, remain)"
| "m_dup_fill (m # ms) moff remain n nsize =
     (if m_len n < nsize
      then (let chunk = min (nsize - m_len n) (m_len m - moff);
                n' = n\<lparr>m_buf := poke (m_off n + m_len n) (m_bytes m moff chunk) (m_buf n), m_len := m_len n + chunk\<rparr>
            in if moff + chunk = m_len m then m_dup_fill ms 0 (remain - int chunk) n' nsize
               else (n', m # ms, moff + chunk, remain - int chunk))
      else (n, m # ms, moff, remain))"

text \<open>
  The outer loop.  \<open>first\<close> is \<open>top == NULL\<close>; the first mbuf takes the packet header.  \<open>None\<close> is the
  jump to \<open>nospace\<close>.  A hole is copied by its length alone.
\<close>

fun m_dup_loop :: "alloc \<Rightarrow> chain \<Rightarrow> nat \<Rightarrow> int \<Rightarrow> bool \<Rightarrow> bool \<Rightarrow> chain option res" where
  "m_dup_loop as m moff remain first tagok =
     (if 0 < remain \<or> first
      then (case m of [] \<Rightarrow> Inl Null_deref
        | mh # ms \<Rightarrow>
          (case as of [] \<Rightarrow> Inr None
           | None # as' \<Rightarrow> Inr None
           | Some (a, junk) # as' \<Rightarrow>
             let cl = \<not> is_hole mh \<and> int MINCLSIZE \<le> remain;
                 n0 = (if cl then m_init a junk MCLBYTES (m_type mh) {M_EXT} else m_init a junk MLEN (m_type mh) {});
                 nsize = (if cl then MCLBYTES else if first then MHLEN else MLEN)
             in (case (if first then m_dup_pkthdr n0 mh tagok else Some n0) of
                   None \<Rightarrow> Inr None
                 | Some n \<Rightarrow>
                     if is_hole mh
                     then res_bind (m_dup_loop as' m moff remain False tagok)
                            (\<lambda>r. Inr (map_option (\<lambda>c. n\<lparr>m_flags := insert M_HOLE (m_flags n), m_len := m_len mh\<rparr> # c) r))
                     else (let (n', m', moff', remain') = m_dup_fill m moff remain n nsize
                           in res_bind (m_dup_loop as' m' moff' remain' False tagok)
                                (\<lambda>r. Inr (map_option (\<lambda>c. n' # c) r))))))
      else Inr (Some []))"

declare m_dup_loop.simps [simp del]

definition m_dup :: "alloc \<Rightarrow> chain \<Rightarrow> bool \<Rightarrow> chain option res" where
  "m_dup as m tagok = (if m = [] then Inr None
     else m_dup_loop as m 0 (ph_len (m_pkthdr (hd m))) True tagok)"

subsection \<open>Lemmas\<close>

lemma mbuf_hdr_upd [simp]:
  "mbuf_data (m\<lparr>m_pkthdr := h\<rparr>) = mbuf_data m"
  "wf_mbuf (m\<lparr>m_pkthdr := h\<rparr>) = wf_mbuf m"
  by (simp_all add: mbuf_data_def m_bytes_def wf_mbuf_def)

lemma upd_hdr_len_simps [simp]:
  "chain_data (upd_hdr_len f ms) = chain_data ms"
  "wf_chain (upd_hdr_len f ms) = wf_chain ms"
  "chain_len (upd_hdr_len f ms) = chain_len ms"
  "upd_hdr_len f ms = [] \<longleftrightarrow> ms = []"
  by (cases ms; simp add: upd_hdr_len_def)+

lemma mbuf_trim_head:
  assumes "wf_mbuf m" and "len < m_len m"
  defines "m' \<equiv> m\<lparr>m_len := m_len m - len, m_off := (if is_hole m then m_off m else m_off m + len)\<rparr>"
  shows "mbuf_data m' = drop len (mbuf_data m)" and "wf_mbuf m'"
  using assms by (auto simp: mbuf_data_def m_bytes_def wf_mbuf_def drop_take add.commute split: if_splits)

lemma mbuf_trim_tail:
  assumes "wf_mbuf m" and "n \<le> m_len m"
  shows "mbuf_data (m\<lparr>m_len := n\<rparr>) = take n (mbuf_data m)" and "wf_mbuf (m\<lparr>m_len := n\<rparr>)"
  using assms by (auto simp: mbuf_data_def m_bytes_def wf_mbuf_def min_def split: if_splits)

lemma m_adj_head_spec:
  "wf_chain ms \<Longrightarrow> m_adj_head ms len = (ms', l) \<Longrightarrow>
   chain_data ms' = drop len (chain_data ms) \<and> wf_chain ms' \<and> l = len - chain_len ms \<and>
   map m_flags ms' = map m_flags ms \<and> map m_pkthdr ms' = map m_pkthdr ms"
proof (induction ms arbitrary: len ms' l)
  case Nil
  then show ?case by auto
next
  case (Cons m ms)
  consider "len = 0" | "0 < len" "m_len m \<le> len" | "0 < len" "len < m_len m" by linarith
  then show ?case
  proof cases
    case 1
    with Cons.prems show ?thesis by auto
  next
    case 2
    obtain r l' where r: "m_adj_head ms (len - m_len m) = (r, l')" by fastforce
    from Cons.IH[OF _ r] Cons.prems(1) have
      "chain_data r = drop (len - m_len m) (chain_data ms) \<and> wf_chain r \<and> l' = len - m_len m - chain_len ms \<and>
       map m_flags r = map m_flags ms \<and> map m_pkthdr r = map m_pkthdr ms" by simp
    with 2 r Cons.prems show ?thesis by (auto simp: mbuf_trim_tail)
  next
    case 3
    with Cons.prems show ?thesis by (auto simp: mbuf_trim_head)
  qed
qed

lemma m_adj_keep_spec:
  "wf_chain ms \<Longrightarrow> count \<le> chain_len ms \<Longrightarrow>
   chain_data (m_adj_keep ms count) = take count (chain_data ms) \<and> wf_chain (m_adj_keep ms count)"
proof (induction ms arbitrary: count)
  case Nil
  then show ?case by simp
next
  case (Cons m ms)
  show ?case
  proof (cases "count \<le> m_len m")
    case True
    with Cons.prems show ?thesis by (simp add: mbuf_trim_tail)
  next
    case False
    with Cons.IH[of "count - m_len m"] Cons.prems show ?thesis by simp
  qed
qed

lemma butlast_last_split: "ms \<noteq> [] \<Longrightarrow> chain_data ms = chain_data (butlast ms) @ mbuf_data (last ms)"
  by (induction ms) auto

lemma butlast_last_len: "ms \<noteq> [] \<Longrightarrow> chain_len ms = chain_len (butlast ms) + m_len (last ms)"
  by (induction ms) auto

lemma wf_butlast_last: "ms \<noteq> [] \<Longrightarrow> wf_chain ms \<longleftrightarrow> wf_chain (butlast ms) \<and> wf_mbuf (last ms)"
  by (induction ms) auto

lemma m_adj_front_spec:
  assumes "wf_chain mp" "0 \<le> req"
  shows "chain_data (m_adj_front mp req) = drop (nat req) (chain_data mp) \<and> wf_chain (m_adj_front mp req)"
proof -
  obtain r l where r: "m_adj_head mp (nat req) = (r, l)" by fastforce
  then have "m_adj_front mp req = upd_hdr_len (\<lambda>x. x - (req - int l)) r" by (simp add: m_adj_front_def)
  with m_adj_head_spec[OF assms(1) r] show ?thesis by simp
qed

lemma m_adj_positive: "0 \<le> req \<Longrightarrow> m_adj mp req = Inr (m_adj_front mp req)"
  by (simp add: m_adj_def m_adj_front_def upd_hdr_len_def)

lemma m_adj_rear_spec:
  assumes "wf_chain mp" and ne: "mp \<noteq> []"
  shows "chain_data (m_adj_rear mp len) = take (chain_len mp - len) (chain_data mp) \<and> wf_chain (m_adj_rear mp len)"
proof -
  let ?m = "last mp"
  have wf: "wf_chain (butlast mp)" "wf_mbuf ?m" using assms wf_butlast_last[OF ne] by auto
  show ?thesis
  proof (cases "len \<le> m_len ?m")
    case True
    have l: "chain_len mp - len = chain_len (butlast mp) + (m_len ?m - len)"
      using butlast_last_len[OF ne] True by simp
    have "take (chain_len mp - len) (chain_data mp) = chain_data (butlast mp) @ take (m_len ?m - len) (mbuf_data ?m)"
      unfolding l butlast_last_split[OF ne] using wf(1) by simp
    then show ?thesis
      unfolding m_adj_rear_def if_P[OF True] using wf mbuf_trim_tail[OF wf(2), of "m_len ?m - len"] by auto
  next
    case False
    define c where "c = chain_len mp - len"
    define u where "u = upd_hdr_len (\<lambda>_. int c) mp"
    have u: "wf_chain u" "c \<le> chain_len u" "chain_data u = chain_data mp"
      unfolding u_def upd_hdr_len_simps using assms by (auto simp: c_def)
    from m_adj_keep_spec[OF u(1,2)] show ?thesis
      unfolding m_adj_rear_def if_not_P[OF False] c_def[symmetric] u_def[symmetric] u(3) .
  qed
qed

lemma m_cat_last_spec:
  "wf_mbuf m \<Longrightarrow> wf_chain ns \<Longrightarrow>
   chain_data (m_cat_last m ns) = mbuf_data m @ chain_data ns \<and> wf_chain (m_cat_last m ns) \<and>
   m_cat_last m ns \<noteq> []"
proof (induction m ns rule: m_cat_last.induct)
  case (1 m)
  then show ?case by simp
next
  case (2 m n ns)
  show ?case
  proof (cases "is_ext m \<or> is_hole m \<or> is_hole n \<or> length (m_buf m) \<le> m_off m + m_len m + m_len n")
    case True
    with 2 show ?thesis by auto
  next
    case False
    let ?bs = "m_bytes n 0 (m_len n)"
    let ?m = "m\<lparr>m_buf := poke (m_off m + m_len m) ?bs (m_buf m), m_len := m_len m + m_len n\<rparr>"
    have bs: "length ?bs = m_len n" "mbuf_data n = ?bs"
      using 2(3) False by (auto simp: wf_mbuf_def mbuf_data_def length_m_bytes)
    have room: "m_off m + m_len m + length ?bs \<le> length (m_buf m)" using False bs by simp
    have "wf_mbuf ?m"
      using 2(2) False room bs by (simp add: wf_mbuf_def)
    moreover have "mbuf_data ?m = mbuf_data m @ mbuf_data n"
      using window_extend[OF room] False bs by (simp add: mbuf_data_def m_bytes_def[of m] m_bytes_def[of ?m])
    ultimately show ?thesis using 2 False by simp
  qed
qed

lemma m_cat_data:
  assumes "wf_chain ms" "wf_chain ns" "m_cat ms ns = Inr c"
  shows "chain_data c = chain_data ms @ chain_data ns" and "wf_chain c"
proof -
  have "ms \<noteq> []" and c: "c = butlast ms @ m_cat_last (last ms) ns"
    using assms(3) by (auto simp: m_cat_def split: if_splits)
  then show "chain_data c = chain_data ms @ chain_data ns" "wf_chain c"
    using assms(1,2) m_cat_last_spec[of "last ms" ns] wf_butlast_last[of ms] butlast_last_split[of ms] by auto
qed

lemma m_split_walk_spec:
  "m_split_walk ms len = Some (pre, m, post, l) \<Longrightarrow>
   ms = pre @ m # post \<and> len = chain_len pre + l \<and> l \<le> m_len m"
proof (induction ms arbitrary: len pre)
  case Nil
  then show ?case by simp
next
  case (Cons a ms)
  show ?case
  proof (cases "m_len a < len")
    case True
    with Cons.prems obtain pre' where w: "m_split_walk ms (len - m_len a) = Some (pre', m, post, l)"
      and "pre = a # pre'" by auto
    moreover from Cons.IH[OF w] True have "len = m_len a + chain_len pre' + l" by linarith
    ultimately show ?thesis using Cons.IH[OF w] by simp
  next
    case False
    with Cons.prems show ?thesis by auto
  qed
qed

lemma m_split_walk_None: "m_split_walk ms len = None \<longleftrightarrow> chain_len ms < len \<or> ms = []"
proof (induction ms arbitrary: len)
  case Nil
  then show ?case by simp
next
  case (Cons a ms)
  show ?case
  proof (cases "m_len a < len")
    case True
    with Cons.IH[of "len - m_len a"] show ?thesis by (cases ms) auto
  next
    case False
    then show ?thesis by simp
  qed
qed

lemma m_split_tail_spec:
  assumes "wf_mbuf m" "wf_chain post" "is_hole m \<longrightarrow> len = m_len m" "len \<le> m_len m"
    and n: "M_HOLE \<notin> m_flags n" "M_EXT \<notin> m_flags n" "length (m_buf n) \<le> (if has_pkthdr n then MHLEN else MLEN)"
    and room2: "is_ext m \<or> m_off n + (m_len m - len) \<le> length (m_buf n)"
  shows "\<exists>x t. m_split_tail m n post len = Inr (x, t) \<and> mbuf_data x = take len (mbuf_data m) \<and>
    chain_data t = drop len (mbuf_data m) @ chain_data post \<and> wf_mbuf x \<and> wf_chain t \<and> t \<noteq> []"
proof -
  let ?r = "m_len m - len"
  have dr: "drop len (mbuf_data m) = take ?r (drop (m_off m + len) (m_buf m))" if "\<not> is_hole m"
    using that by (simp add: mbuf_data_def m_bytes_def drop_take add.commute)
  have room: "m_off m + m_len m \<le> length (m_buf m)" if "\<not> is_hole m" using that assms(1) by (simp add: wf_mbuf_def)
  show ?thesis
  proof (cases "is_ext m")
    case True
    let ?x = "m\<lparr>ext_ref := Suc (ext_ref m), m_len := len\<rparr>"
    let ?t = "(fst (mb_dupcl n m))\<lparr>m_off := m_off m + len, m_len := ?r\<rparr>"
    have nh: "\<not> is_hole m" using True assms(1) by (auto simp: wf_mbuf_def)
    have "mbuf_data ?x = take len (mbuf_data m) \<and> wf_mbuf ?x"
      using room nh assms(4) True by (simp add: mbuf_data_def m_bytes_def wf_mbuf_def min_def)
    moreover have "wf_mbuf ?t"
      using room nh assms(4) n by (simp add: wf_mbuf_def mb_dupcl_def)
    moreover have "mbuf_data ?t = drop len (mbuf_data m)"
      unfolding dr[OF nh] using n by (simp add: mbuf_data_def m_bytes_def mb_dupcl_def)
    moreover have "m_split_tail m n post len = Inr (?x, ?t # post)"
      using True by (simp add: m_split_tail_def mb_dupcl_def Let_def)
    ultimately show ?thesis using assms(2) by auto
  next
    case False
    let ?bs = "m_bytes m len ?r"
    let ?t = "n\<lparr>m_buf := poke (m_off n) ?bs (m_buf n), m_len := ?r\<rparr>"
    have tail: "m_split_tail m n post len = Inr (m\<lparr>m_len := len\<rparr>, ?t # post)"
      using False room room2 assms(3,4) by (auto simp: m_split_tail_def Let_def)
    have x: "mbuf_data (m\<lparr>m_len := len\<rparr>) = take len (mbuf_data m)" "wf_mbuf (m\<lparr>m_len := len\<rparr>)"
      using assms(1,4) by (simp_all add: mbuf_trim_tail)
    have lb: "length ?bs = ?r"
      using room assms(3,4) by (cases "is_hole m") (simp_all add: length_m_bytes m_bytes_def)
    have pk: "take ?r (drop (m_off n) (poke (m_off n) ?bs (m_buf n))) = ?bs"
      using take_drop_poke_same[of "m_off n" ?bs "m_buf n"] room2 lb False by simp
    have "mbuf_data ?t = ?bs" using pk n by (simp add: mbuf_data_def m_bytes_def[of ?t])
    also have "\<dots> = drop len (mbuf_data m)"
      using assms(1,3) by (cases "is_hole m") (simp_all add: dr m_bytes_def)
    finally have "mbuf_data ?t = drop len (mbuf_data m)" .
    moreover have "wf_mbuf ?t" using n room2 lb False by (simp add: wf_mbuf_def)
    ultimately show ?thesis using tail x assms(2) by auto
  qed
qed

lemma align8_le: "align8 n \<le> n"
  by (simp add: align8_def)

lemma upd_hdr_len_snoc:
  fixes f pre m
  defines "c \<equiv> upd_hdr_len f (pre @ [m])"
  shows "chain_data (butlast c) = chain_data pre" "wf_chain (butlast c) = wf_chain pre"
    "mbuf_data (last c) = mbuf_data m" "wf_mbuf (last c) = wf_mbuf m"
    "m_len (last c) = m_len m" "m_flags (last c) = m_flags m"
  unfolding c_def by (cases pre; simp add: upd_hdr_len_def)+

lemma split_ok_tail:
  assumes "m_split_walk m0 len0 = Some (pre, m, post, len)" and "wf_chain m0"
    and "chain_data pre' = chain_data pre" "wf_chain pre'" "mbuf_data m' = mbuf_data m" "wf_mbuf m'"
    and "m_len m' = m_len m" "m_flags m' = m_flags m" "is_hole m \<longrightarrow> len = m_len m"
    and "M_HOLE \<notin> m_flags n" "M_EXT \<notin> m_flags n" "length (m_buf n) \<le> (if has_pkthdr n then MHLEN else MLEN)"
    and "is_ext m \<or> m_off n + (m_len m - len) \<le> length (m_buf n)"
  shows "split_ok m0 len0 (res_bind (m_split_tail m' n post len) (\<lambda>(x, t). Inr (pre' @ [x], t, as')))"
proof -
  note sp = m_split_walk_spec[OF assms(1)]
  have "wf_chain post" "wf_chain pre" "wf_mbuf m" using sp assms(2) by auto
  moreover obtain x t where xt: "m_split_tail m' n post len = Inr (x, t)"
    "mbuf_data x = take len (mbuf_data m)" "chain_data t = drop len (mbuf_data m) @ chain_data post"
    "wf_mbuf x" "wf_chain t"
    using m_split_tail_spec[of m' post len n] assms sp \<open>wf_chain post\<close> by auto
  moreover have "take len (mbuf_data m) @ drop len (mbuf_data m) @ chain_data post = mbuf_data m @ chain_data post"
    by simp
  ultimately show ?thesis using assms(3,4) sp by (auto simp: split_ok_def)
qed

text \<open>The mbuf that heads the second half of a packet.\<close>

definition split_hdr :: "nat \<Rightarrow> (nat \<Rightarrow> byte) \<Rightarrow> mbuf \<Rightarrow> nat \<Rightarrow> mbuf" where
  "split_hdr a junk h len0 = (m_init a junk MHLEN (m_type h) {M_PKTHDR})\<lparr>m_pkthdr :=
     null_pkthdr\<lparr>rcvif := rcvif (m_pkthdr h), ph_len := ph_len (m_pkthdr h) - int len0\<rparr>\<rparr>"

lemma split_hdr_simps [simp]:
  "m_flags (split_hdr a junk h l) = {M_PKTHDR}" "length (m_buf (split_hdr a junk h l)) = MHLEN"
  by (simp_all add: split_hdr_def m_init_def)

lemma m_split_hdr_eq:
  fixes a :: nat and junk :: "nat \<Rightarrow> byte"
  assumes "has_pkthdr (hd m0)" "m_split_walk m0 len0 = Some (pre, m, post, len)"
  defines "c \<equiv> upd_hdr_len (\<lambda>_. int len0) (pre @ [m])" and "n \<equiv> split_hdr a junk (hd m0) len0"
  shows "m_split (Some (a, junk) # as) m0 len0 =
    (if is_ext m then res_bind (m_split_tail (last c) n post len) (\<lambda>(x, t). Inr (butlast c @ [x], t, as))
     else if MHLEN < m_len m - len
     then res_bind (m_split as (last c # post) len) (\<lambda>(c', t, as'). if t = [] then Inr (butlast c @ c', [], as')
       else Inr (butlast c @ c', n\<lparr>m_off := align8 MHLEN, m_len := 0\<rparr> # t, as'))
     else res_bind (m_split_tail (last c) (n\<lparr>m_off := align8 (MHLEN - (m_len m - len))\<rparr>) post len)
       (\<lambda>(x, t). Inr (butlast c @ [x], t, as)))"
  unfolding n_def c_def split_hdr_def using assms(1,2) upd_hdr_len_snoc(5,6)
  by (subst m_split.simps) (simp add: Let_def)

lemma m_split_hdr_ok:
  assumes w: "m_split_walk m0 len0 = Some (pre, m, post, len)" and m0: "wf_chain m0"
    and hole: "is_hole m \<longrightarrow> len = m_len m" and hdr: "has_pkthdr (hd m0)"
    and rec: "\<And>c. c = upd_hdr_len (\<lambda>_. int len0) (pre @ [m]) \<Longrightarrow>
      split_ok (last c # post) len (m_split as (last c # post) len)"
  shows "split_ok m0 len0 (m_split (Some (a, junk) # as) m0 len0)"
proof -
  define c n where "c = upd_hdr_len (\<lambda>_. int len0) (pre @ [m])" and "n = split_hdr a junk (hd m0) len0"
  note cs = upd_hdr_len_snoc[of "\<lambda>_. int len0" pre m, folded c_def] and sp = m_split_walk_spec[OF w]
    and eq = m_split_hdr_eq[OF hdr w, of a junk as, folded c_def n_def]
  have wf: "wf_chain pre" "wf_mbuf m" "wf_chain post" using m0 sp by auto
  have n: "m_flags n = {M_PKTHDR}" "length (m_buf n) = MHLEN" by (simp_all add: n_def)
  have tail: "split_ok m0 len0 (res_bind (m_split_tail (last c) (n\<lparr>m_off := k\<rparr>) post len)
      (\<lambda>(x, t). Inr (butlast c @ [x], t, as)))" if "is_ext m \<or> k + (m_len m - len) \<le> MHLEN" for k
    using that n by (intro split_ok_tail[OF w m0]) (use cs wf hole in \<open>auto simp: mbuf_consts\<close>)
  consider (ext) "is_ext m" | (big) "\<not> is_ext m" "MHLEN < m_len m - len"
    | (fits) "\<not> is_ext m" "\<not> MHLEN < m_len m - len" by blast
  then show ?thesis
  proof cases
    case ext
    have "n\<lparr>m_off := m_off n\<rparr> = n" by simp
    with tail[of "m_off n"] eq ext show ?thesis by simp
  next
    case big
    obtain c' t as'' where r: "m_split as (last c # post) len = Inr (c', t, as'')"
      using rec[OF c_def] by (cases "m_split as (last c # post) len") (auto simp: split_ok_def)
    have "mbuf_data (n\<lparr>m_off := align8 MHLEN, m_len := 0\<rparr>) = []" "wf_mbuf (n\<lparr>m_off := align8 MHLEN, m_len := 0\<rparr>)"
      using n by (auto simp: mbuf_data_empty wf_mbuf_def align8_def mbuf_consts)
    with big eq r rec[OF c_def] cs sp wf show ?thesis by (auto simp: split_ok_def)
  next
    case fits
    with tail[of "align8 (MHLEN - (m_len m - len))"] eq align8_le[of "MHLEN - (m_len m - len)"]
    show ?thesis by simp
  qed
qed

lemma m_split_plain_ok:
  assumes w: "m_split_walk m0 len0 = Some (pre, m, post, len)" and m0: "wf_chain m0"
    and hole: "is_hole m \<longrightarrow> len = m_len m" and hdr: "\<not> has_pkthdr (hd m0)"
  shows "split_ok m0 len0 (m_split (Some (a, junk) # as) m0 len0)"
proof -
  let ?n = "(m_init a junk MLEN (m_type m) {})\<lparr>m_off := align8 (MLEN - (m_len m - len))\<rparr>"
  note sp = m_split_walk_spec[OF w]
  have wf: "wf_chain pre" "wf_mbuf m" "wf_chain post" using m0 sp by auto
  show ?thesis
  proof (cases "m_len m - len = 0")
    case True
    then have "m_len m = len" using sp by simp
    with hdr w sp wf show ?thesis by (subst m_split.simps) (simp add: split_ok_def Let_def)
  next
    case rem: False
    with wf(2) hole have fit: "is_ext m \<or> m_len m - len \<le> MLEN"
      by (auto simp: wf_mbuf_def mbuf_consts split: if_splits)
    have "split_ok m0 len0 (res_bind (m_split_tail m ?n post len) (\<lambda>(x, t). Inr (pre @ [x], t, as)))"
      using fit align8_le[of "MLEN - (m_len m - len)"]
      by (intro split_ok_tail[OF w m0]) (use wf hole in \<open>auto simp: m_init_def\<close>)
    moreover have "m_split (Some (a, junk) # as) m0 len0 =
        res_bind (m_split_tail m ?n post len) (\<lambda>(x, t). Inr (pre @ [x], t, as))"
      using hdr rem w fit by (subst m_split.simps) (auto simp: Let_def)
    ultimately show ?thesis by simp
  qed
qed

lemma m_split_ok:
  assumes "wf_chain m0" and "cut_ok m0 len0"
  shows "split_ok m0 len0 (m_split as m0 len0)"
  using assms
proof (induction "length as" arbitrary: as m0 len0 rule: less_induct)
  case less
  have stay: "split_ok m0 len0 (Inr (m0, [], as'))" for as'
    using less.prems by (simp add: split_ok_def)
  show ?case
  proof (cases "m_split_walk m0 len0")
    case None
    then show ?thesis by (subst m_split.simps) (simp add: stay)
  next
    case (Some w)
    then obtain pre m post len where w: "m_split_walk m0 len0 = Some (pre, m, post, len)"
      by (cases w) auto
    note sp = m_split_walk_spec[OF w]
    have hole: "is_hole m \<longrightarrow> len = m_len m" using less.prems(2) w by (simp add: cut_ok_def)
    have wf: "wf_chain pre" "wf_mbuf m" "wf_chain post" using less.prems(1) sp by auto
    consider (fail) "as = []" | (none) as' where "as = None # as'" | (some) a junk as' where "as = Some (a, junk) # as'"
      by (metis neq_Nil_conv option.exhaust surj_pair)
    then show ?thesis
    proof cases
      case (some a junk as')
      have rec: "split_ok (last c # post) len (m_split as' (last c # post) len)"
        if c: "c = upd_hdr_len (\<lambda>_. int len0) (pre @ [m])" for c
      proof (rule less.hyps)
        show "cut_ok (last c # post) len" using sp upd_hdr_len_snoc(5,6) hole unfolding c by (simp add: cut_ok_def)
      qed (use some wf upd_hdr_len_snoc c in auto)
      show ?thesis unfolding some
        using m_split_hdr_ok[OF w less.prems(1) hole _ rec] m_split_plain_ok[OF w less.prems(1) hole] by blast
    qed (use w stay sp wf in \<open>subst m_split.simps; auto simp: split_ok_def Let_def\<close>)+
  qed
qed

text \<open>The fresh copy, before its bytes are filled in.\<close>

lemma m_copym_mbuf_cases:
  assumes "copyhdr \<longrightarrow> has_pkthdr m"
  obtains as' where "m_copym_mbuf m off len off0 copyhdr tagok as = Inr (None, as')"
  | n as' where "m_off n = 0" "m_len n = min len (m_len m - off)" "M_HOLE \<notin> m_flags n" "M_EXT \<notin> m_flags n"
      "has_pkthdr n = copyhdr" "length (m_buf n) = (if copyhdr then MHLEN else MLEN)"
      "m_copym_mbuf m off len off0 copyhdr tagok as =
        (if is_ext m then Inr (Some ((fst (mb_dupcl n m))\<lparr>m_off := m_off m + off\<rparr>, snd (mb_dupcl n m)), as')
         else if is_hole m then Inr (Some (n\<lparr>m_flags := insert M_HOLE (m_flags n)\<rparr>, m), as')
         else if length (m_buf m) < m_off m + off + m_len n \<or> length (m_buf n) < m_len n then Inl Out_of_bounds
         else Inr (Some (n\<lparr>m_buf := poke 0 (m_bytes m off (m_len n)) (m_buf n)\<rparr>, m), as'))"
proof (cases "\<exists>a junk as'. as = Some (a, junk) # as' \<and> (copyhdr \<longrightarrow> tagok)")
  case False
  then have "\<exists>as'. m_copym_mbuf m off len off0 copyhdr tagok as = Inr (None, as')"
    by (cases as; cases "hd as"; cases copyhdr) (auto simp: m_copym_mbuf_def m_dup_pkthdr_def Let_def)
  then show ?thesis using that(1) by blast
next
  case True
  then obtain a junk as' where as: "as = Some (a, junk) # as'" "copyhdr \<longrightarrow> tagok" by blast
  define n where "n = (if copyhdr
    then (the (m_dup_pkthdr (m_init a junk MHLEN (m_type m) {M_PKTHDR}) m True))
      \<lparr>m_pkthdr := (m_pkthdr m)\<lparr>ph_len := (if len = M_COPYALL then ph_len (m_pkthdr m) - int off0 else int len)\<rparr>,
       m_len := min len (m_len m - off)\<rparr>
    else (m_init a junk MLEN (m_type m) {})\<lparr>m_len := min len (m_len m - off)\<rparr>)"
  have n: "m_off n = 0" "m_len n = min len (m_len m - off)" "M_HOLE \<notin> m_flags n" "M_EXT \<notin> m_flags n"
    "has_pkthdr n = copyhdr" "length (m_buf n) = (if copyhdr then MHLEN else MLEN)"
    using assms by (auto simp: n_def m_dup_pkthdr_def m_init_def M_COPYFLAGS_def M_PROTOFLAGS_def Let_def)
  show ?thesis
  proof (rule that(2)[OF n, of as'])
    show "m_copym_mbuf m off len off0 copyhdr tagok as =
        (if is_ext m then Inr (Some ((fst (mb_dupcl n m))\<lparr>m_off := m_off m + off\<rparr>, snd (mb_dupcl n m)), as')
         else if is_hole m then Inr (Some (n\<lparr>m_flags := insert M_HOLE (m_flags n)\<rparr>, m), as')
         else if length (m_buf m) < m_off m + off + m_len n \<or> length (m_buf n) < m_len n then Inl Out_of_bounds
         else Inr (Some (n\<lparr>m_buf := poke 0 (m_bytes m off (m_len n)) (m_buf n)\<rparr>, m), as'))"
      using as by (cases copyhdr)
        (simp_all add: m_copym_mbuf_def n_def m_dup_pkthdr_def m_init_def Let_def case_prod_beta
          M_COPYFLAGS_def M_PROTOFLAGS_def mbuf_consts)
  qed
qed

lemma m_copym_mbuf_spec:
  assumes "wf_mbuf m" "off \<le> m_len m" "copyhdr \<longrightarrow> has_pkthdr m"
    and r: "m_copym_mbuf m off len off0 copyhdr tagok as = Inr (Some (n, m'), as')"
  shows "m_len n = min len (m_len m - off) \<and> wf_mbuf n \<and> is_hole n = is_hole m \<and>
    mbuf_data n = take len (drop off (mbuf_data m)) \<and> mbuf_data m' = mbuf_data m \<and> wf_mbuf m'"
  using assms(3)
proof (cases rule: m_copym_mbuf_cases[of copyhdr m off len off0 tagok as])
  case (1 as')
  with r show ?thesis by simp
next
  case (2 n0 as')
  let ?c = "min len (m_len m - off)"
  have tk: "take len (drop off (mbuf_data m)) = take ?c (drop off (mbuf_data m))"
    using assms(1,2) by (simp add: min_def)
  have dm: "take ?c (drop off (mbuf_data m)) = (if is_hole m then replicate ?c 0 else m_bytes m off ?c)"
    using assms(2) by (intro take_drop_mbuf_data) auto
  have room: "m_off m + off + ?c \<le> length (m_buf m)" if "\<not> is_hole m"
    using that assms(1,2) by (auto simp: wf_mbuf_def)
  consider (ext) "is_ext m" | (hole) "\<not> is_ext m" "is_hole m" | (plain) "\<not> is_ext m" "\<not> is_hole m" by blast
  then show ?thesis
  proof cases
    case ext
    then have nh: "\<not> is_hole m" using assms(1) by (auto simp: wf_mbuf_def)
    from ext r 2 have "n = (fst (mb_dupcl n0 m))\<lparr>m_off := m_off m + off\<rparr>" "m' = snd (mb_dupcl n0 m)" by auto
    then have "m_len n = ?c" "\<not> is_hole n" "wf_mbuf n" "mbuf_data n = m_bytes m off ?c"
      "mbuf_data m' = mbuf_data m" "wf_mbuf m'"
      using 2 room[OF nh] nh assms(1) ext
      by (auto simp: mb_dupcl_def wf_mbuf_def mbuf_data_def m_bytes_def)
    with nh tk dm show ?thesis by simp
  next
    case hole
    with r 2 have "n = n0\<lparr>m_flags := insert M_HOLE (m_flags n0)\<rparr>" "m' = m" by auto
    with hole 2 tk dm assms(1) show ?thesis
      by (auto simp: wf_mbuf_def mbuf_data_def min_def split: if_splits)
  next
    case plain
    with r 2 have n: "n = n0\<lparr>m_buf := poke 0 (m_bytes m off ?c) (m_buf n0)\<rparr>" "m' = m" "?c \<le> length (m_buf n0)"
      by (auto split: if_splits)
    have lb: "length (m_bytes m off ?c) = ?c" using room plain by (simp add: length_m_bytes)
    have "take ?c (poke 0 (m_bytes m off ?c) (m_buf n0)) = m_bytes m off ?c"
      using take_drop_poke_same[of 0 "m_bytes m off ?c" "m_buf n0"] n(3) lb by simp
    then have "m_bytes n 0 ?c = m_bytes m off ?c"
      unfolding m_bytes_def[of n] using n(1) 2(1) by simp
    moreover have "m_len n = ?c" "\<not> is_hole n" "wf_mbuf n"
      using n plain 2(1-6) lb by (simp_all add: wf_mbuf_def)
    ultimately show ?thesis
      unfolding tk dm using n(2) plain assms(1) by (simp add: mbuf_data_def)
  qed
qed

lemma m_copym_mbuf_ok:
  assumes "wf_mbuf m" "off \<le> m_len m" "copyhdr \<longrightarrow> has_pkthdr m"
  shows "\<exists>x. m_copym_mbuf m off len off0 copyhdr tagok as = Inr x"
  using assms(3)
proof (cases rule: m_copym_mbuf_cases[of copyhdr m off len off0 tagok as])
  case (2 n as')
  have "is_ext m \<or> is_hole m \<or> \<not> (length (m_buf m) < m_off m + off + m_len n \<or> length (m_buf n) < m_len n)"
    using assms 2 by (auto simp: wf_mbuf_def mbuf_consts split: if_splits)
  then show ?thesis unfolding 2(7) by auto
qed blast

lemma chain_len_takeWhile: "chain_len (takeWhile P ms) \<le> chain_len ms"
  by (induction ms) auto

lemma m_copym_loop_spec:
  assumes "wf_chain ms" "off \<le> (if ms = [] then 0 else m_len (hd ms))" "copyhdr \<and> ms \<noteq> [] \<longrightarrow> has_pkthdr (hd ms)"
    "len \<le> M_COPYALL" "chain_len ms \<le> M_COPYALL"
  shows "\<exists>src cpo as'. m_copym_loop ms off len off0 copyhdr hb lh tagok as = Inr (src, cpo, as') \<and>
    chain_data src = chain_data ms \<and> wf_chain src \<and>
    (\<forall>cp. cpo = Some cp \<longrightarrow> wf_chain cp \<and>
       (hb \<longrightarrow> (\<forall>n \<in> set cp. is_hole n = lh)) \<and>
       chain_data cp = take (min len (chain_len (takeWhile (\<lambda>x. hb \<longrightarrow> is_hole x = lh) ms) - off)) (drop off (chain_data ms)))"
  using assms
proof (induction ms arbitrary: off len copyhdr lh as)
  case Nil
  then show ?case by simp
next
  case (Cons m ms)
  have wf: "wf_mbuf m" "wf_chain ms" and off: "off \<le> m_len m" and hdr: "copyhdr \<longrightarrow> has_pkthdr m"
    using Cons.prems by auto
  show ?case
  proof (cases "len = 0 \<or> hb \<and> is_hole m \<noteq> lh")
    case True
    then show ?thesis using Cons.prems by auto
  next
    case go: False
    obtain r as' where r: "m_copym_mbuf m off len off0 copyhdr tagok as = Inr (r, as')"
      using m_copym_mbuf_ok[OF wf(1) off hdr] by fastforce
    show ?thesis
    proof (cases r)
      case None
      with go r Cons.prems show ?thesis by auto
    next
      case (Some nm)
      obtain n m' where nm: "nm = (n, m')" by (cases nm)
      have one: "m_len n = min len (m_len m - off)" "wf_mbuf n" "is_hole n = is_hole m"
          "mbuf_data n = take len (drop off (mbuf_data m))" "mbuf_data m' = mbuf_data m" "wf_mbuf m'"
        using m_copym_mbuf_spec[OF wf(1) off hdr r[unfolded Some nm]] by auto
      define len' where "len' = (if len = M_COPYALL then len else len - m_len n)"
      have pre: "len' \<le> M_COPYALL" "chain_len ms \<le> M_COPYALL" using Cons.prems by (auto simp: len'_def)
      obtain src cpo as'' where rec: "m_copym_loop ms 0 len' off0 False hb (is_hole m) tagok as' = Inr (src, cpo, as'')"
        and src: "chain_data src = chain_data ms" "wf_chain src"
        and cp: "\<And>c. cpo = Some c \<Longrightarrow> wf_chain c \<and> (hb \<longrightarrow> (\<forall>n \<in> set c. is_hole n = is_hole m)) \<and>
           chain_data c = take (min len' (chain_len (takeWhile (\<lambda>x. hb \<longrightarrow> is_hole x = is_hole m) ms))) (chain_data ms)"
        using Cons.IH[of 0 False len' "is_hole m" as'] wf(2) pre by auto
      define R where "R = chain_len (takeWhile (\<lambda>x. hb \<longrightarrow> is_hole x = lh) ms)"
      have same: "(\<lambda>x. hb \<longrightarrow> is_hole x = is_hole m) = (\<lambda>x. hb \<longrightarrow> is_hole x = lh)" using go by auto
      have run: "chain_len (takeWhile (\<lambda>x. hb \<longrightarrow> is_hole x = lh) (m # ms)) = m_len m + R" using go by (auto simp: R_def)
      have split: "mbuf_data n @ take (min len' R) (chain_data ms) = take (min len (m_len m + R - off)) (drop off (chain_data (m # ms)))"
      proof -
        have "R \<le> chain_len ms" unfolding R_def by (rule chain_len_takeWhile)
        then have "min len (m_len m + R - off) - (m_len m - off) = min len' R"
          using Cons.prems(5) off by (auto simp: len'_def one(1))
        then show ?thesis using one off wf by (simp add: min_def)
      qed
      have loop: "m_copym_loop (m # ms) off len off0 copyhdr hb lh tagok as =
          Inr (m' # src, map_option (\<lambda>c. n # c) cpo, as'')"
        using go r rec unfolding Some nm len'_def by auto
      have src': "chain_data (m' # src) = chain_data (m # ms)" "wf_chain (m' # src)" using src one by auto
      show ?thesis
      proof (cases cpo)
        case None
        with loop src' show ?thesis by auto
      next
        case (Some c)
        have "\<forall>x \<in> set (n # c). is_hole x = lh" if hb
          using cp[OF Some] that go one(3) by auto
        moreover have "chain_data (n # c) = mbuf_data n @ take (min len' R) (chain_data ms)"
          using cp[OF Some] unfolding same R_def by simp
        moreover have "wf_chain (n # c)" using cp[OF Some] one(2) by simp
        ultimately show ?thesis
          unfolding run split[symmetric] using loop src' Some by (intro exI[of _ "m' # src"] exI[of _ "Some (n # c)"] exI[of _ as'']) simp
      qed
    qed
  qed
qed

lemma m_seek_spec:
  "wf_chain ms \<Longrightarrow> off \<le> chain_len ms \<Longrightarrow> \<exists>pre rest k. m_seek ms off = Inr (rest, k) \<and> ms = pre @ rest \<and>
     k \<le> (if rest = [] then 0 else m_len (hd rest)) \<and>
     drop off (chain_data ms) = drop k (chain_data rest)"
proof (induction ms arbitrary: off)
  case Nil
  then show ?case by simp
next
  case (Cons m ms)
  consider (z) "off = 0" | (here) "0 < off" "off < m_len m" | (later) "0 < off" "m_len m \<le> off" by linarith
  then show ?case
  proof cases
    case z
    then show ?thesis by (intro exI[of _ "[]"] exI[of _ "m # ms"] exI[of _ 0]) simp
  next
    case here
    then show ?thesis by (intro exI[of _ "[]"] exI[of _ "m # ms"] exI[of _ off]) simp
  next
    case later
    with Cons.prems have "off - m_len m \<le> chain_len ms" "wf_chain ms" by auto
    with Cons.IH[of "off - m_len m"] obtain pre rest k where
      "m_seek ms (off - m_len m) = Inr (rest, k)" "ms = pre @ rest" "k \<le> (if rest = [] then 0 else m_len (hd rest))"
      "drop (off - m_len m) (chain_data ms) = drop k (chain_data rest)" by blast
    with later Cons.prems show ?thesis
      by (intro exI[of _ "m # pre"] exI[of _ rest] exI[of _ k]) simp
  qed
qed

text \<open>The bytes from offset \<open>off\<close> to the first mbuf that differs in its hole bit.\<close>

fun hole_run :: "chain \<Rightarrow> nat \<Rightarrow> nat" where
  "hole_run [] off = 0"
| "hole_run (m # ms) off =
     (if 0 < off \<and> m_len m \<le> off then hole_run ms (off - m_len m)
      else chain_len (takeWhile (\<lambda>x. is_hole x = is_hole m) (m # ms)) - off)"

lemma hole_run_seek: "m_seek ms off = Inr (rest, k) \<Longrightarrow> hole_run ms off = chain_len (takeWhile (\<lambda>x. is_hole x = is_hole (hd rest)) rest) - k"
  by (induction ms off rule: hole_run.induct) (auto split: if_splits)

lemma m_copym2_spec:
  assumes "wf_chain m" "m \<noteq> []" "off0 \<le> chain_len m" "len \<le> M_COPYALL" "chain_len m \<le> M_COPYALL"
  shows "\<exists>src t as'. m_copym2 as m off0 len hb tagok = Inr (src, t, as') \<and>
    chain_data src = chain_data m \<and> wf_chain src \<and> wf_chain t \<and>
    (t \<noteq> [] \<longrightarrow> (if hb then chain_data t = take (min len (hole_run m off0)) (drop off0 (chain_data m)) \<and>
                            (\<forall>x \<in> set t. is_hole x = is_hole (hd t))
                 else chain_data t = take len (drop off0 (chain_data m))))"
proof -
  obtain pre rest k where sk: "m_seek m off0 = Inr (rest, k)" "m = pre @ rest"
    "k \<le> (if rest = [] then 0 else m_len (hd rest))"
    "drop off0 (chain_data m) = drop k (chain_data rest)"
    using m_seek_spec[OF assms(1,3)] by blast
  let ?ch = "off0 = 0 \<and> has_pkthdr (hd m)" and ?lh = "rest \<noteq> [] \<and> is_hole (hd rest)"
  let ?run = "\<lambda>rest. takeWhile (\<lambda>x. hb \<longrightarrow> is_hole x = ?lh) rest"
  have hdr: "?ch \<and> rest \<noteq> [] \<longrightarrow> has_pkthdr (hd rest)"
    using sk(1) by auto
  have wfr: "wf_chain rest" "chain_len rest \<le> M_COPYALL" using assms sk(2) by auto
  obtain src cpo as' where lp: "m_copym_loop rest k len off0 ?ch hb ?lh tagok as = Inr (src, cpo, as')"
    "chain_data src = chain_data rest" "wf_chain src"
    and cp: "\<And>cp. cpo = Some cp \<Longrightarrow> wf_chain cp \<and> (hb \<longrightarrow> (\<forall>n \<in> set cp. is_hole n = ?lh)) \<and>
       chain_data cp = take (min len (chain_len (?run rest) - k)) (drop k (chain_data rest))"
    using m_copym_loop_spec[OF wfr(1) sk(3) hdr assms(4) wfr(2), of off0 hb ?lh tagok as] by (elim exE conjE) (rule that, assumption+, blast)
  have run: "m_copym2 as m off0 len hb tagok =
      (case cpo of None \<Rightarrow> Inr (m, [], as') | Some t \<Rightarrow> Inr (m_at m rest @ src, t, as'))"
    using assms(2) sk(1) lp(1) by (simp add: m_copym2_def)
  have at: "m_at m rest = pre" using sk(2) by (simp add: m_at_def)
  show ?thesis
  proof (cases cpo)
    case None
    with run assms(1) show ?thesis by simp
  next
    case (Some t)
    note c = cp[OF Some]
    have "chain_data (pre @ src) = chain_data m" "wf_chain (pre @ src)" using lp sk(2) assms(1) by auto
    moreover have "\<forall>x \<in> set t. is_hole x = is_hole (hd t)" if "t \<noteq> []" hb
      using c that by simp
    moreover have "chain_data t = take (min len (hole_run m off0)) (drop off0 (chain_data m))" if hb
    proof -
      have "takeWhile (\<lambda>x. is_hole x = is_hole (hd rest)) rest = ?run rest" using that by (cases rest) simp_all
      then show ?thesis using c unfolding sk(4) hole_run_seek[OF sk(1)] by simp
    qed
    moreover have "chain_data t = take len (drop off0 (chain_data m))" if "\<not> hb"
    proof -
      have run: "?run rest = rest" using that by simp
      have "length (drop k (chain_data rest)) = chain_len rest - k" using wfr(1) by simp
      then have "take (min len (chain_len rest - k)) (drop k (chain_data rest)) = take len (drop k (chain_data rest))"
        by (metis min.commute take_all_iff order_refl take_take)
      then show ?thesis using c unfolding sk(4) run by simp
    qed
    ultimately show ?thesis using c run Some at by simp
  qed
qed

lemma m_append_loop_spec:
  assumes "m_append_loop as ty cp = (ns, rest, as')"
  shows "chain_data ns @ rest = cp \<and> wf_chain ns"
  using assms
proof (induction as ty cp arbitrary: ns rest as' rule: m_append_loop.induct)
  case (4 a junk as ty c cs)
  let ?cp = "c # cs" and ?n0 = "m_init a junk MLEN ty {}"
  let ?l = "min MLEN (length ?cp)"
  let ?n = "?n0\<lparr>m_len := ?l, m_buf := poke 0 (take ?l ?cp) (m_buf ?n0)\<rparr>"
  obtain ms where rec: "m_append_loop as ty (drop ?l ?cp) = (ms, rest, as')" and ns: "ns = ?n # ms"
    using "4.prems" by (auto simp: Let_def split: prod.splits)
  have IH: "chain_data ms @ rest = drop ?l ?cp \<and> wf_chain ms"
    by (rule "4.IH"[OF refl refl refl rec])
  have "mbuf_data ?n = take ?l ?cp" "wf_mbuf ?n"
    by (simp_all add: mbuf_data_def m_bytes_def wf_mbuf_def m_init_def poke_def)
  with IH ns show ?case by (simp only: chain_data_simps append_assoc append_take_drop_id) simp
qed auto

lemma mbuf_extend:
  assumes "wf_mbuf m" "\<not> is_hole m" "m_off m + m_len m + length bs \<le> length (m_buf m)"
  defines "m' \<equiv> m\<lparr>m_buf := poke (m_off m + m_len m) bs (m_buf m), m_len := m_len m + length bs\<rparr>"
  shows "mbuf_data m' = mbuf_data m @ bs" "wf_mbuf m'"
proof -
  show "mbuf_data m' = mbuf_data m @ bs"
    using window_extend[OF assms(3)] assms(2) by (simp add: m'_def mbuf_data_def m_bytes_def)
  show "wf_mbuf m'" using assms by (simp add: m'_def wf_mbuf_def)
qed

lemma trailing_room: "wf_mbuf m \<Longrightarrow> \<not> is_hole m \<Longrightarrow> int k \<le> M_TRAILINGSPACE m \<Longrightarrow>
    m_off m + m_len m + k \<le> length (m_buf m)"
  by (auto simp: M_TRAILINGSPACE_def wf_mbuf_def split: if_splits)

lemma m_append_spec:
  assumes "wf_chain m0" "m0 \<noteq> []"
  shows "\<exists>ms r as' rest. m_append as m0 cp = Inr (ms, r, as') \<and> chain_data ms @ rest = chain_data m0 @ cp \<and>
    wf_chain ms \<and> (r \<longleftrightarrow> rest = [])"
proof -
  let ?m = "last m0"
  define s where "s = (if 0 < (if is_hole ?m then 0 else M_TRAILINGSPACE ?m)
     then min (nat (if is_hole ?m then 0 else M_TRAILINGSPACE ?m)) (length cp) else 0)"
  define m' where "m' = ?m\<lparr>m_buf := poke (m_off ?m + m_len ?m) (take s cp) (m_buf ?m), m_len := m_len ?m + s\<rparr>"
  obtain ns rest as' where lp: "m_append_loop as (m_type ?m) (drop s cp) = (ns, rest, as')"
    by (metis prod_cases3)
  have wf: "wf_chain (butlast m0)" "wf_mbuf ?m" using assms wf_butlast_last by blast+
  have ls: "length (take s cp) = s" by (simp add: s_def)
  have "mbuf_data m' = mbuf_data ?m @ take s cp \<and> wf_mbuf m'"
  proof (cases "s = 0")
    case True
    then show ?thesis using wf(2) by (simp add: m'_def poke_def)
  next
    case False
    then have nh: "\<not> is_hole ?m" and "int s \<le> M_TRAILINGSPACE ?m"
      by (auto simp: s_def split: if_splits)
    then have "m_off ?m + m_len ?m + length (take s cp) \<le> length (m_buf ?m)"
      unfolding ls using trailing_room[OF wf(2)] by blast
    from mbuf_extend[OF wf(2) nh this] show ?thesis unfolding m'_def ls by blast
  qed
  moreover have "m_append as m0 cp =
      Inr (upd_hdr_len (\<lambda>l. l + int (length cp) - int (length rest)) (butlast m0 @ m' # ns), rest = [], as')"
    using assms(2) lp unfolding m'_def s_def by (simp add: m_append_def Let_def)
  moreover have "take s cp @ chain_data ns @ rest = cp" "wf_chain ns"
    using m_append_loop_spec[OF lp] by simp_all
  ultimately show ?thesis using wf butlast_last_split[OF assms(2)] by (simp add: ball_Un exI[of _ rest])
qed

text \<open>
  \<open>m_dup\<close> copies the length of a hole but never advances past it: it allocates until the zone is empty
  and then fails.
\<close>

lemma m_dup_loop_hole:
  "is_hole mh \<Longrightarrow> 0 < remain \<Longrightarrow> m_dup_loop as (mh # ms) moff remain first tagok = Inr None"
proof (induction as arbitrary: first)
  case Nil
  then show ?case by (subst m_dup_loop.simps) simp
next
  case (Cons x as)
  show ?case
  proof (cases x)
    case None
    with Cons.prems show ?thesis by (subst m_dup_loop.simps) simp
  next
    case (Some aj)
    have "m_dup_loop as (mh # ms) moff remain False tagok = Inr None" using Cons by blast
    with Some Cons.prems show ?thesis
      by (cases aj; subst m_dup_loop.simps) (auto simp: Let_def split: option.splits)
  qed
qed

subsection \<open>Enough memory\<close>

text \<open>The next \<open>n\<close> allocations succeed.\<close>

definition enough :: "nat \<Rightarrow> alloc \<Rightarrow> bool" where
  "enough n as = (n \<le> length as \<and> None \<notin> set (take n as))"

lemma enough_Suc: "enough (Suc n) as \<longleftrightarrow> (\<exists>a junk as'. as = Some (a, junk) # as' \<and> enough n as')"
  by (cases as; cases "hd as") (auto simp: enough_def)

lemma m_copym_mbuf_enough:
  assumes "enough (Suc n) as" "tagok" "m_copym_mbuf m off len off0 copyhdr tagok as = Inr (r, as')"
  shows "r \<noteq> None \<and> enough n as'"
  using assms
  by (auto simp: enough_Suc m_copym_mbuf_def Let_def m_dup_pkthdr_def split: if_splits prod.splits)

lemma m_copym_loop_enough:
  assumes "enough (length ms) as" "tagok"
    "m_copym_loop ms off len off0 copyhdr hb lh tagok as = Inr (src, cpo, as')"
  shows "cpo \<noteq> None \<and> (ms \<noteq> [] \<and> 0 < len \<and> (hb \<longrightarrow> is_hole (hd ms) = lh) \<longrightarrow> cpo \<noteq> Some [])"
  using assms
proof (induction ms arbitrary: off len copyhdr lh as src cpo)
  case Nil
  then show ?case by auto
next
  case (Cons m ms)
  show ?case
  proof (cases "len = 0 \<or> hb \<and> is_hole m \<noteq> lh")
    case True
    with Cons.prems show ?thesis by auto
  next
    case False
    then obtain r as1 where r: "m_copym_mbuf m off len off0 copyhdr tagok as = Inr (r, as1)"
      using Cons.prems(3) by (cases "m_copym_mbuf m off len off0 copyhdr tagok as") auto
    have "r \<noteq> None \<and> enough (length ms) as1"
      using m_copym_mbuf_enough[OF _ Cons.prems(2) r, of "length ms"] Cons.prems(1) by simp
    then obtain n m' where rs: "r = Some (n, m')" "enough (length ms) as1" by auto
    define r2 where "r2 = m_copym_loop ms 0 (if len = M_COPYALL then len else len - m_len n) off0 False hb
        (is_hole m) tagok as1"
    have "res_bind r2 (\<lambda>(src, cp, as''). Inr (m' # src, map_option (\<lambda>c. n # c) cp, as'')) = Inr (src, cpo, as')"
      using Cons.prems(3) unfolding m_copym_loop.simps if_not_P[OF False] r rs(1) r2_def[symmetric]
      by (simp only: res_bind.simps option.case prod.case r2_def)
    then obtain src' cpo' where r2: "r2 = Inr (src', cpo', as')" and c: "cpo = map_option (\<lambda>c. n # c) cpo'"
      by (cases r2) auto
    from Cons.IH[OF rs(2) Cons.prems(2) r2[unfolded r2_def]] have "cpo' \<noteq> None" by blast
    then show ?thesis unfolding c by auto
  qed
qed

lemma m_append_loop_enough:
  "enough k as \<Longrightarrow> length cp \<le> k * MLEN \<Longrightarrow> m_append_loop as ty cp = (ns, rest, as') \<Longrightarrow> rest = []"
proof (induction k arbitrary: as cp ns rest as')
  case 0
  then show ?case by simp
next
  case (Suc k)
  then obtain a junk as1 where as: "as = Some (a, junk) # as1" "enough k as1" by (auto simp: enough_Suc)
  show ?case
  proof (cases cp)
    case Nil
    with Suc.prems show ?thesis by simp
  next
    case (Cons x xs)
    obtain ns1 rest1 as2 where r: "m_append_loop as1 ty (drop (min MLEN (length cp)) cp) = (ns1, rest1, as2)"
      by (metis prod_cases3)
    have "length (drop (min MLEN (length cp)) cp) \<le> k * MLEN" using Suc.prems(2) by auto
    from Suc.IH[OF as(2) this r] have "rest1 = []" .
    moreover have "rest = rest1"
      using Suc.prems(3) r unfolding as(1) Cons m_append_loop.simps Let_def by (simp split: prod.splits)
    ultimately show ?thesis by simp
  qed
qed

lemma m_split_tail_nonempty: "m_split_tail m n post len = Inr (x, t) \<Longrightarrow> t \<noteq> []"
  by (auto simp: m_split_tail_def Let_def split: if_splits prod.splits)

text \<open>Two allocations are enough for a split that leaves something on the right.\<close>

lemma m_split_plain_nonempty:
  assumes "enough (Suc n) as" "\<not> has_pkthdr (hd m0)" "len0 < chain_len m0"
    "m_split as m0 len0 = Inr (c, t, as')"
  shows "t \<noteq> []"
proof -
  obtain pre m post l where w: "m_split_walk m0 len0 = Some (pre, m, post, l)"
    using assms(3) m_split_walk_None[of m0 len0] by (cases "m_split_walk m0 len0") auto
  have sp: "len0 = chain_len pre + l" "chain_len m0 = chain_len pre + m_len m + chain_len post" "l \<le> m_len m"
    using m_split_walk_spec[OF w] by auto
  have ne: "m_len m - l = 0 \<Longrightarrow> post \<noteq> []" using sp assms(3) by auto
  obtain a junk as1 where as: "as = Some (a, junk) # as1" using assms(1) enough_Suc by blast
  show ?thesis
    using assms(4,2) ne unfolding as m_split.simps[of "Some (a, junk) # as1" m0 len0] w
    by (auto simp: Let_def res_bind_Inr dest: m_split_tail_nonempty split: if_splits)
qed

lemma m_split_nonempty:
  assumes "enough 2 as" "len0 < chain_len m0" "wf_chain m0" "cut_ok m0 len0"
    and run: "m_split as m0 len0 = Inr (c, t, as')"
  shows "t \<noteq> []"
proof (cases "has_pkthdr (hd m0)")
  case False
  with m_split_plain_nonempty[of 1 as] assms show ?thesis by (simp add: numeral_2_eq_2)
next
  case True
  obtain pre m post l where w: "m_split_walk m0 len0 = Some (pre, m, post, l)"
    using assms(2) m_split_walk_None[of m0 len0] by (cases "m_split_walk m0 len0") auto
  have wf: "wf_mbuf m" using m_split_walk_spec[OF w] assms(3) by simp
  have h: "is_hole m \<longrightarrow> l = m_len m" using assms(4) w by (simp add: cut_ok_def)
  obtain a junk as1 where as: "as = Some (a, junk) # as1" "enough 1 as1"
    using assms(1) enough_Suc[of 1 as] by (simp only: Suc_1) blast
  define c where "c = upd_hdr_len (\<lambda>_. int len0) (pre @ [m])"
  note cs = upd_hdr_len_snoc(5,6)[of "\<lambda>_. int len0" pre m, folded c_def]
    and eq = m_split_hdr_eq[OF True w, of a junk as1, folded c_def as(1)]
  consider (ext) "is_ext m" | (rec) "\<not> is_ext m" "MHLEN < m_len m - l" | (fits) "\<not> is_ext m" "\<not> MHLEN < m_len m - l"
    by (cases "is_ext m"; cases "MHLEN < m_len m - l") simp_all
  then show ?thesis
  proof cases
    case rec
    have "\<not> is_hole m" using h rec(2) by (cases "is_hole m") simp_all
    then have "m_len m \<le> (if has_pkthdr m then MHLEN else MLEN)" using wf rec(1) by (simp add: wf_mbuf_def)
    then have "\<not> has_pkthdr (hd (last c # post))" using rec(2) cs(2) by (cases "has_pkthdr m") simp_all
    moreover have "l < chain_len (last c # post)" using rec(2) cs(1) by simp
    ultimately have ne: "m_split as1 (last c # post) l = Inr (c', t', as2) \<Longrightarrow> t' \<noteq> []" for c' t' as2
      using m_split_plain_nonempty[of 0 as1 "last c # post" l] as(2) by simp
    show ?thesis using run rec unfolding eq by (auto simp: res_bind_Inr dest: ne split: if_splits)
  next
    case ext
    then show ?thesis using run unfolding eq by (auto simp: res_bind_Inr dest!: m_split_tail_nonempty)
  next
    case fits
    then show ?thesis using run unfolding eq by (auto simp: res_bind_Inr dest!: m_split_tail_nonempty)
  qed
qed

lemma m_copym2_nonempty:
  assumes "enough (length m) as" "tagok" "off0 < chain_len m" "wf_chain m" "0 < len"
    "m_copym2 as m off0 len hb tagok = Inr (src, t, as')"
  shows "t \<noteq> []"
proof -
  have m: "m \<noteq> []" using assms(3) by auto
  obtain pre rest k where sk: "m_seek m off0 = Inr (rest, k)" "m = pre @ rest"
    "drop off0 (chain_data m) = drop k (chain_data rest)"
    using m_seek_spec[of m off0] assms(3,4) by (metis less_imp_le)
  have "drop off0 (chain_data m) \<noteq> []" using assms(3,4) by simp
  then have rest: "rest \<noteq> []" using sk(3) by auto
  have en: "enough (length rest) as" using assms(1) sk(2) by (auto simp: enough_def dest: in_set_takeD)
      (metis le_add2 set_take_subset_set_take subsetD)
  define lp where "lp = m_copym_loop rest k len off0 (off0 = 0 \<and> has_pkthdr (hd m)) hb (is_hole (hd rest)) tagok as"
  have run: "res_bind lp (\<lambda>(src, cp, as'). case cp of None \<Rightarrow> Inr (m, [], as') | Some t \<Rightarrow> Inr (m_at m rest @ src, t, as'))
      = Inr (src, t, as')"
    using assms(6) m rest sk(1) by (simp add: m_copym2_def lp_def)
  then obtain s cpo as2 where lp: "lp = Inr (s, cpo, as2)" by (cases lp) auto
  from m_copym_loop_enough[OF en assms(2) lp[unfolded lp_def]] rest assms(5)
  obtain t' where "cpo = Some t'" "t' \<noteq> []" by (cases cpo) auto
  with run lp show ?thesis by simp
qed

lemma m_append_enough:
  assumes "m_append as m0 cp = Inr (ms, r, as')" "enough k as" "length cp \<le> k * MLEN"
  shows r
proof -
  define s where "s = (if 0 < (if is_hole (last m0) then 0 else M_TRAILINGSPACE (last m0))
     then min (nat (if is_hole (last m0) then 0 else M_TRAILINGSPACE (last m0))) (length cp) else 0)"
  obtain ns rest as2 where lp: "m_append_loop as (m_type (last m0)) (drop s cp) = (ns, rest, as2)"
    by (metis prod_cases3)
  then have "r = (rest = [])"
    using assms(1) unfolding m_append_def Let_def s_def[symmetric] by (simp split: if_splits)
  moreover have "length (drop s cp) \<le> k * MLEN" using assms(3) by simp
  ultimately show ?thesis using m_append_loop_enough[OF assms(2) _ lp] by blast
qed

subsection \<open>Properties\<close>

text \<open>Sample buffers: an mbuf with room after its bytes, and a hole.\<close>

definition data_mb :: "nat \<Rightarrow> mflag set \<Rightarrow> byte list \<Rightarrow> nat \<Rightarrow> mbuf" where
  "data_mb a fl bs room = \<lparr>m_id = a, m_flags = fl, m_type = MT_DATA, m_buf = bs @ replicate room 0, m_off = 0,
     m_len = length bs, m_pkthdr = null_pkthdr\<lparr>ph_len := int (length bs)\<rparr>, ext_ref = 1\<rparr>"

definition hole_mb :: "nat \<Rightarrow> nat \<Rightarrow> mbuf" where
  "hole_mb a n = \<lparr>m_id = a, m_flags = {M_HOLE}, m_type = MT_DATA, m_buf = [], m_off = 0, m_len = n,
     m_pkthdr = null_pkthdr, ext_ref = 1\<rparr>"

definition sample_chain :: chain where "sample_chain = [data_mb 1 {} [1, 2, 3] 0, hole_mb 2 4, data_mb 3 {} [5, 6] 2]"

lemmas sample_simps = sample_chain_def data_mb_def hole_mb_def wf_mbuf_def mbuf_data_def m_bytes_def

text \<open>C18: \<open>m_copydata\<close> on a well-formed chain reads exactly the requested window of the byte stream, holes
  as zeros; a window that reaches past the end of the chain dereferences the null pointer.\<close>

theorem m_copydata_window:
  assumes "wf_chain ms"
  shows "m_copydata ms off len =
    (if off + len \<le> chain_len ms then Inr (take len (drop off (chain_data ms))) else Inl Null_deref)"
  using m_copydata_eq[OF assms] .

theorem m_copydata_window_witness: "m_copydata sample_chain 2 6 = Inr [3, 0, 0, 0, 0, 5]"
proof -
  have "wf_chain sample_chain" by (simp add: sample_simps mbuf_consts)
  from m_copydata_window[OF this, of 2 6] show ?thesis by (simp add: sample_simps numeral_eq_Suc)
qed

text \<open>C11: \<open>m_adj\<close> drops \<open>req\<close> bytes from the head of the stream, or \<open>- req\<close> bytes from its tail when
  \<open>req\<close> is negative (everything if the request exceeds the length), and keeps the chain well formed.  Trimming from the tail
  needs a request and a chain whose lengths fit an \<open>int\<close>; outside that range the code overflows.\<close>

theorem m_adj_trims:
  assumes "wf_chain mp"
  shows "if req < 0 \<and> mp \<noteq> [] \<and> (int INT_MAX < - req \<or> INT_MAX < chain_len mp) then m_adj mp req = Inl Int_overflow
    else \<exists>mp'. m_adj mp req = Inr mp' \<and> wf_chain mp' \<and>
      chain_data mp' = (if 0 \<le> req then drop (nat req) (chain_data mp) else take (chain_len mp - nat (- req)) (chain_data mp))"
proof (cases "mp = []")
  case True
  then show ?thesis by (simp add: m_adj_def)
next
  case False
  with m_adj_front_spec[OF assms, of req] m_adj_rear_spec[OF assms False, of "nat (- req)"] show ?thesis
    by (simp add: m_adj_def not_less)
qed

theorem m_adj_trims_witness:
  "(\<exists>mp'. m_adj sample_chain (- 5) = Inr mp' \<and> chain_data mp' = [1, 2, 3, 0]) \<and>
   m_adj [hole_mb 1 INT_MAX, data_mb 2 {} [1] 0] (- 2) = Inl Int_overflow"
proof
  have s: "wf_chain sample_chain" "\<not> INT_MAX < chain_len sample_chain" "chain_len sample_chain = 9"
    by (simp_all add: sample_simps mbuf_consts)
  have d: "take (9 - nat (- (- 5))) (chain_data sample_chain) = [1, 2, 3, 0]" by (simp add: sample_simps numeral_eq_Suc)
  from m_adj_trims[OF s(1), of "- 5"] s d show "\<exists>mp'. m_adj sample_chain (- 5) = Inr mp' \<and> chain_data mp' = [1, 2, 3, 0]"
    by (simp add: mbuf_consts) blast
  have h: "wf_chain [hole_mb 1 INT_MAX, data_mb 2 {} [1] 0]" "INT_MAX < chain_len [hole_mb 1 INT_MAX, data_mb 2 {} [1] 0]"
    by (simp_all add: hole_mb_def data_mb_def wf_mbuf_def mbuf_consts)
  from m_adj_trims[OF h(1), of "- 2"] h(2) show "m_adj [hole_mb 1 INT_MAX, data_mb 2 {} [1] 0] (- 2) = Inl Int_overflow" by simp
qed

text \<open>C13: \<open>m_split\<close> at a point that is not strictly inside a hole never faults, loses no byte whether the
  allocations succeed or fail, and when it returns a second chain the first holds exactly the first
  \<open>len0\<close> bytes.  If two allocations succeed and the cut is before the end, it does return one.\<close>

theorem m_split_partitions:
  assumes "wf_chain m0" "cut_ok m0 len0"
  shows "\<exists>c t as'. m_split as m0 len0 = Inr (c, t, as') \<and> chain_data c @ chain_data t = chain_data m0 \<and>
    wf_chain c \<and> wf_chain t \<and> (t \<noteq> [] \<longrightarrow> chain_data c = take len0 (chain_data m0)) \<and>
    (enough 2 as \<and> len0 < chain_len m0 \<longrightarrow> t \<noteq> [])"
proof -
  obtain c t as' where r: "m_split as m0 len0 = Inr (c, t, as')"
    using m_split_ok[OF assms, of as] by (cases "m_split as m0 len0") (auto simp: split_ok_def)
  with m_split_ok[OF assms, of as] have "split_ok m0 len0 (Inr (c, t, as'))" by simp
  with r m_split_nonempty[OF _ _ assms r] show ?thesis by (auto simp: split_ok_def)
qed

theorem m_split_partitions_witness:
  "\<exists>c t as'. m_split [Some (7, \<lambda>_. 0), Some (8, \<lambda>_. 0)] sample_chain 8 = Inr (c, t, as') \<and>
     chain_data c = [1, 2, 3, 0, 0, 0, 0, 5] \<and> chain_data t = [6]"
proof -
  have "wf_chain sample_chain" "cut_ok sample_chain 8" "enough 2 [Some (7, \<lambda>_. 0), Some (8, \<lambda>_. 0)]" "8 < chain_len sample_chain"
    by (simp_all add: sample_simps mbuf_consts cut_ok_def enough_def)
  from m_split_partitions[OF this(1,2), of "[Some (7, \<lambda>_. 0), Some (8, \<lambda>_. 0)]"] this(3,4)
  show ?thesis by (auto simp: sample_simps numeral_eq_Suc)
qed

text \<open>C14: \<open>m_copym2\<close> of a window inside the chain, or to its end with \<open>M_COPYALL\<close>, leaves the bytes of the source alone, and a copy it
  returns holds exactly the window; with \<open>hole_break\<close> it holds exactly the part of the window before the first mbuf that differs in its
  hole bit, all of it hole or all of it data.  It returns a copy when every allocation succeeds.\<close>

theorem m_copym2_window:
  assumes "wf_chain m" "off0 < chain_len m" "0 < len" "chain_len m \<le> M_COPYALL" "len = M_COPYALL \<or> off0 + len \<le> chain_len m"
  shows "\<exists>src t as'. m_copym2 as m off0 len hb tagok = Inr (src, t, as') \<and>
    chain_data src = chain_data m \<and> wf_chain src \<and> wf_chain t \<and>
    (t \<noteq> [] \<longrightarrow> (if hb then chain_data t = take (min len (hole_run m off0)) (drop off0 (chain_data m)) \<and>
                            (\<forall>x \<in> set t. is_hole x = is_hole (hd t))
                 else chain_data t = take len (drop off0 (chain_data m)))) \<and>
    (enough (length m) as \<and> tagok \<longrightarrow> t \<noteq> [])"
proof -
  have b: "m \<noteq> []" "off0 \<le> chain_len m" "len \<le> M_COPYALL" using assms by auto
  obtain src t as' where r: "m_copym2 as m off0 len hb tagok = Inr (src, t, as')" and
    c: "chain_data src = chain_data m" "wf_chain src" "wf_chain t"
    "t \<noteq> [] \<longrightarrow> (if hb then chain_data t = take (min len (hole_run m off0)) (drop off0 (chain_data m)) \<and>
                            (\<forall>x \<in> set t. is_hole x = is_hole (hd t))
                 else chain_data t = take len (drop off0 (chain_data m)))"
    using m_copym2_spec[of m off0 len as hb tagok, OF assms(1) b assms(4)] by (elim exE conjE) (rule that; assumption)
  from r c m_copym2_nonempty[OF _ _ assms(2,1,3) r] show ?thesis by blast
qed

theorem m_copym2_window_witness:
  "(\<exists>src t as'. m_copym2 (replicate 3 (Some (7, \<lambda>_. 0))) sample_chain 1 7 False True = Inr (src, t, as') \<and>
     chain_data t = [2, 3, 0, 0, 0, 0, 5]) \<and>
   (\<exists>src t as'. m_copym2 (replicate 3 (Some (7, \<lambda>_. 0))) sample_chain 1 7 True True = Inr (src, t, as') \<and>
     chain_data t = [2, 3])"
proof -
  have s: "wf_chain sample_chain" "1 < chain_len sample_chain" "(0 :: nat) < 7" "chain_len sample_chain \<le> M_COPYALL"
    "7 = M_COPYALL \<or> 1 + 7 \<le> chain_len sample_chain" "enough (length sample_chain) (replicate 3 (Some (7, \<lambda>_. 0)))"
    by (simp_all add: sample_simps mbuf_consts enough_def)
  have d: "take 7 (drop 1 (chain_data sample_chain)) = [2, 3, 0, 0, 0, 0, 5]" "hole_run sample_chain 1 = 2"
    "take (min 7 2) (drop 1 (chain_data sample_chain)) = [2, 3]"
    by (simp_all add: sample_simps numeral_eq_Suc)
  from m_copym2_window[OF s(1-5), of "replicate 3 (Some (7, \<lambda>_. 0))" False True]
    m_copym2_window[OF s(1-5), of "replicate 3 (Some (7, \<lambda>_. 0))" True True] s(6) show ?thesis
    unfolding d if_True if_False by blast
qed

text \<open>C27: \<open>m_append\<close> never faults on a chain; it appends a prefix of the bytes given, all of them exactly
  when it returns true, which it does when the zone has room for them.\<close>

theorem m_append_appends:
  assumes "wf_chain m0" "m0 \<noteq> []"
  shows "\<exists>ms r as' rest. m_append as m0 cp = Inr (ms, r, as') \<and> chain_data ms @ rest = chain_data m0 @ cp \<and>
    wf_chain ms \<and> (r \<longleftrightarrow> rest = []) \<and> (enough k as \<and> length cp \<le> k * MLEN \<longrightarrow> r)"
proof -
  obtain ms r as' rest where r: "m_append as m0 cp = Inr (ms, r, as')" "chain_data ms @ rest = chain_data m0 @ cp"
    "wf_chain ms" "r \<longleftrightarrow> rest = []" using m_append_spec[OF assms] by blast
  then show ?thesis by (intro exI conjI impI) (rule r, rule r, rule r, rule r, rule m_append_enough[OF r(1)], blast+)
qed

theorem m_append_appends_witness:
  "\<exists>ms as'. m_append [Some (7, \<lambda>_. 0)] sample_chain [7, 8, 9] = Inr (ms, True, as') \<and>
     chain_data ms = [1, 2, 3, 0, 0, 0, 0, 5, 6, 7, 8, 9]"
proof -
  have s: "wf_chain sample_chain" "sample_chain \<noteq> []" "enough 1 [Some (7, \<lambda>_. 0)]" "length [7, 8, 9 :: byte] \<le> 1 * MLEN"
    by (simp_all add: sample_simps mbuf_consts enough_def)
  have d: "chain_data sample_chain = [1, 2, 3, 0, 0, 0, 0, 5, 6]" by (simp add: sample_simps numeral_eq_Suc)
  obtain ms r as' rest where r: "m_append [Some (7, \<lambda>_. 0)] sample_chain [7, 8, 9] = Inr (ms, r, as')"
    "chain_data ms @ rest = chain_data sample_chain @ [7, 8, 9]" "r = (rest = [])" r
    using m_append_appends[OF s(1,2), of "[Some (7, \<lambda>_. 0)]" "[7, 8, 9]" 1] s(3,4) by metis
  then have "rest = []" by blast
  with r(2) d have "chain_data ms = [1, 2, 3, 0, 0, 0, 0, 5, 6, 7, 8, 9]" by simp
  with r(1) \<open>r\<close> show ?thesis by (intro exI[of _ ms] exI[of _ as']) simp
qed

text \<open>C32: \<open>m_dup\<close> of a packet whose first mbuf is a hole never succeeds, whatever the allocator does: the
  loop copies the length of the hole but does not advance past it, and allocates until the zone is empty.\<close>

theorem m_dup_hole_fails:
  assumes "is_hole mh" "0 < ph_len (m_pkthdr mh)"
  shows "m_dup as (mh # ms) tagok = Inr None"
  using m_dup_loop_hole[OF assms] by (simp add: m_dup_def)

theorem m_dup_hole_fails_witness:
  "m_dup (replicate 9 (Some (7, \<lambda>_. 0))) [hole_mb 1 4\<lparr>m_pkthdr := null_pkthdr\<lparr>ph_len := 4\<rparr>\<rparr>] True = Inr None"
  by (rule m_dup_hole_fails) (simp_all add: hole_mb_def null_pkthdr_def)

end
