(* ===== verification/Mbuf_Pullup.thy ===== *)
theory Mbuf_Pullup
  imports Mbuf_Edit
begin

text \<open>
  Operations of \<open>sys/kern/uipc_mbuf.c\<close> that rearrange the front of a chain: moving a packet header, demoting a packet to data, prepending an
  mbuf, and making the first \<open>len\<close> bytes contiguous (\<open>m_pullup\<close>, \<open>m_copyup\<close>).  A chain that is freed is \<open>None\<close>.
\<close>

subsection \<open>Headers\<close>

definition m_move_pkthdr :: "mbuf \<Rightarrow> mbuf \<Rightarrow> mbuf \<times> mbuf" where
  "m_move_pkthdr to from =
     (let fl = (m_flags from \<inter> M_COPYFLAGS) \<union> (m_flags to \<inter> {M_EXT});
          to1 = to\<lparr>m_flags := fl, m_pkthdr := m_pkthdr from\<rparr>;
          to2 = (if M_EXT \<in> fl then to1 else to1\<lparr>m_buf := drop (length (m_buf to) - MHLEN) (m_buf to), m_off := 0\<rparr>)
      in (to2, from\<lparr>m_pkthdr := (m_pkthdr from)\<lparr>tags := []\<rparr>, m_flags := m_flags from - {M_PKTHDR}\<rparr>))"

definition demote1 :: "mbuf \<Rightarrow> mbuf" where
  "demote1 m =
     (let m = (if has_pkthdr m then m\<lparr>m_flags := m_flags m - {M_PKTHDR}, m_pkthdr := null_pkthdr\<rparr> else m)
      in m\<lparr>m_flags := m_flags m \<inter> {M_EXT, M_RDONLY, M_FREELIST, M_NOFREE, M_HOLE}\<rparr>)"

definition m_demote :: "chain \<Rightarrow> bool \<Rightarrow> chain res" where
  "m_demote ms all =
     (if all then Inr (map demote1 ms) else case ms of [] \<Rightarrow> Inl Null_deref | m # ms' \<Rightarrow> Inr (m # map demote1 ms'))"

definition m_prepend :: "alloc \<Rightarrow> chain \<Rightarrow> nat \<Rightarrow> (chain option \<times> alloc) res" where
  "m_prepend as ms len =
     (case ms of [] \<Rightarrow> Inl Null_deref
      | m # ms' \<Rightarrow>
          (case (if has_pkthdr m then m_gethdr as (m_type m) else m_get as (m_type m)) of
             (None, as') \<Rightarrow> Inr (None, as')
           | (Some mn, as') \<Rightarrow>
               let (mn, m) = (if has_pkthdr m then m_move_pkthdr mn m else (mn, m));
                   mn = (if has_pkthdr mn then (if len < MHLEN then mn\<lparr>m_off := m_off mn + align8 (MHLEN - len)\<rparr> else mn)
                         else (if len < MLEN then mn\<lparr>m_off := m_off mn + align8 (MLEN - len)\<rparr> else mn))
               in Inr (Some (mn\<lparr>m_len := len\<rparr> # m # ms'), as')))"

subsection \<open>Pulling up\<close>

text \<open>One round of the \<open>do\<close> loop shared by \<open>m_pullup\<close> and \<open>m_copyup\<close>, with the test of the loop first.  \<open>space\<close> is the room behind the data of
  \<open>m\<close>; a round that copies nothing and keeps \<open>n\<close> changes nothing, so the loop does not end.\<close>

definition pullup_step :: "nat \<Rightarrow> mbuf \<Rightarrow> int \<Rightarrow> nat \<Rightarrow> mbuf \<Rightarrow> chain \<Rightarrow> (bool \<times> mbuf \<times> int \<times> nat \<times> chain) res" where
  "pullup_step max_protohdr m len space n ns =
     (let count = min (min (nat (max len (int max_protohdr))) space) (m_len n);
          m' = m\<lparr>m_buf := poke (m_off m + m_len m) (m_bytes n 0 count) (m_buf m), m_len := m_len m + count\<rparr>;
          len' = len - int count
      in if length (m_buf n) < m_off n + count then Inl Out_of_bounds
         else if count < m_len n then
           if 0 < len' \<and> count = 0 then Inl Diverges
           else Inr (0 < len', m', len', space - count, n\<lparr>m_len := m_len n - count, m_off := m_off n + count\<rparr> # ns)
         else Inr (0 < len' \<and> ns \<noteq> [], m', len', space - count, ns))"

lemma pullup_step_less:
  "pullup_step mp m len space n ns = Inr (True, m', len', space', ns') \<Longrightarrow> chain_len ns' + length ns' < chain_len (n # ns) + length (n # ns)"
proof -
  assume A: "pullup_step mp m len space n ns = Inr (True, m', len', space', ns')"
  define count where "count = min (min (nat (max len (int mp))) space) (m_len n)"
  have le: "count \<le> m_len n" by (simp add: count_def)
  from A show ?thesis unfolding pullup_step_def Let_def count_def[symmetric] using le by (auto split: if_splits)
qed

function pullup_loop :: "nat \<Rightarrow> mbuf \<Rightarrow> int \<Rightarrow> nat \<Rightarrow> chain \<Rightarrow> (mbuf \<times> int \<times> chain) res" where
  "pullup_loop mp m len space ns =
     (case ns of [] \<Rightarrow> Inl Null_deref
      | n # ns0 \<Rightarrow>
          (case pullup_step mp m len space n ns0 of
             Inl f \<Rightarrow> Inl f
           | Inr (again, m', len', space', ns') \<Rightarrow> if again then pullup_loop mp m' len' space' ns' else Inr (m', len', ns')))"
  by pat_completeness auto
termination
  by (relation "measure (\<lambda>(_, _, _, _, ns). chain_len ns + length ns)") (auto dest: pullup_step_less)

declare pullup_loop.simps [simp del]

definition pullup_end :: "(mbuf \<times> int \<times> chain) res \<Rightarrow> alloc \<Rightarrow> (chain option \<times> alloc) res" where
  "pullup_end r as = res_bind r (\<lambda>(m, len, ns). Inr (if 0 < len then None else Some (m # ns), as))"

definition room_behind :: "mbuf \<Rightarrow> nat" where "room_behind m = length (m_buf m) - (m_off m + m_len m)"

definition m_pullup :: "nat \<Rightarrow> alloc \<Rightarrow> chain \<Rightarrow> nat \<Rightarrow> (chain option \<times> alloc) res" where
  "m_pullup max_protohdr as ms len =
     (case ms of [] \<Rightarrow> Inl Null_deref
      | n # ns \<Rightarrow>
          if \<not> is_ext n \<and> m_off n + len < length (m_buf n) \<and> ns \<noteq> [] then
            (if len \<le> m_len n then Inr (Some ms, as)
             else pullup_end (pullup_loop max_protohdr n (int len - int (m_len n)) (room_behind n) ns) as)
          else if MHLEN < len then Inr (None, as)
          else (case m_get as (m_type n) of
              (None, as') \<Rightarrow> Inr (None, as')
            | (Some m, as') \<Rightarrow>
                let (m, n) = (if has_pkthdr n then m_move_pkthdr m n else (m, n))
                in pullup_end (pullup_loop max_protohdr m (int len) (room_behind m) (n # ns)) as'))"

text \<open>\<open>MHLEN\<close> is a \<open>size_t\<close>, so the test of \<open>m_copyup\<close> is made modulo \<open>2 ^ 64\<close>.\<close>

definition m_copyup :: "nat \<Rightarrow> alloc \<Rightarrow> chain \<Rightarrow> nat \<Rightarrow> nat \<Rightarrow> (chain option \<times> alloc) res" where
  "m_copyup max_protohdr as ms len dstoff =
     (case ms of [] \<Rightarrow> Inl Null_deref
      | n # ns \<Rightarrow>
          if int len > (int MHLEN - int dstoff) mod 2 ^ 64 then Inr (None, as)
          else (case m_get as (m_type n) of
              (None, as') \<Rightarrow> Inr (None, as')
            | (Some m, as') \<Rightarrow>
                let (m, n) = (if has_pkthdr n then m_move_pkthdr m n else (m, n));
                    m = m\<lparr>m_off := m_off m + dstoff\<rparr>
                in if length (m_buf m) < m_off m then Inl Out_of_bounds
                   else pullup_end (pullup_loop max_protohdr m (int len) (room_behind m) (n # ns)) as'))"

end
