(* ===== verification/Mbuf_Pullup_Props.thy ===== *)
theory Mbuf_Pullup_Props
  imports Mbuf_Pullup
begin

text \<open>
  What the operations at the front of a chain do.  A \<open>plain\<close> mbuf is well formed and not a hole.  The loop that pulls up moves bytes from the
  chain behind into the first mbuf: it keeps the concatenation of the two, ends, and leaves a request only when the chain is used up.
\<close>

subsection \<open>One round and the loop\<close>

abbreviation plain :: "mbuf \<Rightarrow> bool" where "plain m \<equiv> wf_mbuf m \<and> \<not> is_hole m"

lemma plain_room: "plain m \<Longrightarrow> m_off m + m_len m \<le> length (m_buf m)" by (simp add: wf_mbuf_def)

lemma plain_move:
  assumes m: "plain m" "m_off m + m_len m + count \<le> length (m_buf m)" and n: "plain n" "count \<le> m_len n"
  defines "m' \<equiv> m\<lparr>m_buf := poke (m_off m + m_len m) (m_bytes n 0 count) (m_buf m), m_len := m_len m + count\<rparr>"
  shows "mbuf_data m' = mbuf_data m @ take count (mbuf_data n)" "plain m'" "length (m_buf m') = length (m_buf m)"
proof -
  have b: "m_bytes n 0 count = take count (mbuf_data n)" using n by (simp add: mbuf_data_def m_bytes_def min_def)
  have l: "length (m_bytes n 0 count) = count" using n plain_room[OF n(1)] by (simp add: length_m_bytes)
  have "m_off m + m_len m + length (m_bytes n 0 count) \<le> length (m_buf m)" using m(2) l by simp
  from mbuf_extend[OF _ _ this] have "mbuf_data m' = mbuf_data m @ m_bytes n 0 count" "wf_mbuf m'"
    unfolding m'_def l using m(1) by simp_all
  then show "mbuf_data m' = mbuf_data m @ take count (mbuf_data n)" "plain m'" using b m(1) by (simp_all add: m'_def)
  show "length (m_buf m') = length (m_buf m)" unfolding m'_def using m(2) l by simp
qed

lemma pullup_step_spec:
  assumes m: "plain m" "m_off m + m_len m + space \<le> length (m_buf m)" "len \<le> int space" and n: "plain n"
  shows "\<exists>again m' len' space' ns'. pullup_step mp m len space n ns = Inr (again, m', len', space', ns') \<and>
    mbuf_data m' @ chain_data ns' = mbuf_data m @ chain_data (n # ns) \<and> plain m' \<and> (\<forall>x \<in> set ns'. plain x \<or> x \<in> set ns) \<and>
    m_off m' + m_len m' + space' \<le> length (m_buf m') \<and> len' \<le> int space' \<and> int (m_len m') + len' = int (m_len m) + len \<and>
    (again \<longrightarrow> ns' \<noteq> []) \<and> (\<not> again \<longrightarrow> 0 < len' \<longrightarrow> ns' = [])"
proof -
  define count where "count = min (min (nat (max len (int mp))) space) (m_len n)"
  have le: "count \<le> space" "count \<le> m_len n" by (simp_all add: count_def)
  have c0: "len - int count \<le> 0" if "count = 0" "count < m_len n" using that m(3) unfolding count_def by linarith
  have r: "\<not> length (m_buf n) < m_off n + count" using plain_room[OF n] le(2) by simp
  define m' where "m' = m\<lparr>m_buf := poke (m_off m + m_len m) (m_bytes n 0 count) (m_buf m), m_len := m_len m + count\<rparr>"
  have room: "m_off m + m_len m + count \<le> length (m_buf m)" using m(2) le(1) by simp
  have M: "mbuf_data m' = mbuf_data m @ take count (mbuf_data n)" "plain m'" "length (m_buf m') = length (m_buf m)"
    using plain_move[OF m(1) room n le(2)] unfolding m'_def by simp_all
  have s: "m_off m' = m_off m" "m_len m' = m_len m + count" by (simp_all add: m'_def)
  have sp: "m_off m' + m_len m' + (space - count) \<le> length (m_buf m')" "len - int count \<le> int (space - count)"
      "int (m_len m') + (len - int count) = int (m_len m) + len"
    using m(2,3) M(3) s le(1) by linarith+
  note unf = pullup_step_def Let_def count_def[symmetric] m'_def[symmetric] if_not_P[OF r]
  show ?thesis
  proof (cases "count < m_len n")
    case True
    let ?n = "n\<lparr>m_len := m_len n - count, m_off := m_off n + count\<rparr>"
    have "mbuf_data ?n = drop count (mbuf_data n)" "plain ?n" using mbuf_trim_head[of n count] n True by simp_all
    moreover have "\<not> (0 < len - int count \<and> count = 0)" using c0 True by (cases "count = 0") auto
    ultimately show ?thesis unfolding unf if_P[OF True] using M sp by (simp only: if_False) auto
  next
    case False
    then have "count = m_len n" using le(2) by simp
    then have "take count (mbuf_data n) = mbuf_data n" using n by simp
    then show ?thesis unfolding unf if_not_P[OF False] using M sp by auto
  qed
qed

lemma pullup_loop_spec:
  assumes "plain m" "m_off m + m_len m + space \<le> length (m_buf m)" "len \<le> int space" "\<forall>x \<in> set ns. plain x" "ns \<noteq> []"
  shows "\<exists>m' len' ns'. pullup_loop mp m len space ns = Inr (m', len', ns') \<and> mbuf_data m' @ chain_data ns' = mbuf_data m @ chain_data ns \<and>
    plain m' \<and> (\<forall>x \<in> set ns'. plain x) \<and> int (m_len m') + len' = int (m_len m) + len \<and> (0 < len' \<longrightarrow> ns' = [])"
  using assms
proof (induction mp m len space ns rule: pullup_loop.induct)
  case (1 mp m len space ns)
  obtain n ns0 where ns: "ns = n # ns0" using 1(6) by (cases ns) auto
  obtain again m' len' space' ns' where st: "pullup_step mp m len space n ns0 = Inr (again, m', len', space', ns')"
      "mbuf_data m' @ chain_data ns' = mbuf_data m @ chain_data (n # ns0)" "plain m'" "\<forall>x \<in> set ns'. plain x \<or> x \<in> set ns0"
      "m_off m' + m_len m' + space' \<le> length (m_buf m')" "len' \<le> int space'" "int (m_len m') + len' = int (m_len m) + len"
      "again \<longrightarrow> ns' \<noteq> []" "\<not> again \<longrightarrow> 0 < len' \<longrightarrow> ns' = []"
    using pullup_step_spec[OF 1(2,3,4), of n mp ns0] 1(5) ns by auto
  have p: "\<forall>x \<in> set ns'. plain x" using st(4) 1(5) ns by auto
  have run: "pullup_loop mp m len space ns = (if again then pullup_loop mp m' len' space' ns' else Inr (m', len', ns'))"
    unfolding ns using st(1) by (subst pullup_loop.simps) simp
  show ?case
  proof (cases again)
    case True
    have "\<exists>m'' len'' ns''. pullup_loop mp m' len' space' ns' = Inr (m'', len'', ns'') \<and> mbuf_data m'' @ chain_data ns'' = mbuf_data m' @ chain_data ns' \<and>
        plain m'' \<and> (\<forall>x \<in> set ns''. plain x) \<and> int (m_len m'') + len'' = int (m_len m') + len' \<and> (0 < len'' \<longrightarrow> ns'' = [])"
      using st p True by (intro 1(1)[OF ns st(1)]) auto
    then show ?thesis using st(2)[unfolded ns[symmetric]] st(7) unfolding run if_P[OF True] by (simp only:)
  next
    case False
    then show ?thesis using st(2)[unfolded ns[symmetric]] st(3,7,9) p unfolding run if_not_P[OF False] by blast
  qed
qed

subsection \<open>The operations\<close>

lemma plain_data_len: "plain m \<Longrightarrow> length (mbuf_data m) = m_len m" by simp

lemma pullup_end_spec:
  assumes "plain m" "len \<le> int (room_behind m)" "\<forall>x \<in> set ns. plain x" "ns \<noteq> []"
  shows "\<exists>r. pullup_end (pullup_loop mp m len (room_behind m) ns) as = Inr (r, as) \<and>
    (case r of Some ms' \<Rightarrow> chain_data ms' = mbuf_data m @ chain_data ns \<and> (\<forall>x \<in> set ms'. plain x) \<and> ms' \<noteq> [] \<and>
        int (m_len m) + len \<le> int (m_len (hd ms'))
     | None \<Rightarrow> int (m_len m + chain_len ns) < int (m_len m) + len)"
proof -
  have room: "m_off m + m_len m + room_behind m \<le> length (m_buf m)" using plain_room[OF assms(1)] by (simp add: room_behind_def)
  obtain m' len' ns' where L: "pullup_loop mp m len (room_behind m) ns = Inr (m', len', ns')"
      "mbuf_data m' @ chain_data ns' = mbuf_data m @ chain_data ns" "plain m'" "\<forall>x \<in> set ns'. plain x"
      "int (m_len m') + len' = int (m_len m) + len" "0 < len' \<longrightarrow> ns' = []"
    using pullup_loop_spec[OF assms(1) room assms(2-4)] by blast
  show ?thesis
  proof (cases "0 < len'")
    case True
    have "length (mbuf_data m' @ chain_data ns') = m_len m'" using L(3,6) True by simp
    moreover have "length (mbuf_data m @ chain_data ns) = m_len m + chain_len ns" using assms(1,3) by simp
    ultimately have "m_len m' = m_len m + chain_len ns" using L(2) by simp
    then show ?thesis using True L(1,5) by (simp add: pullup_end_def)
  next
    case False
    then show ?thesis using L by (simp add: pullup_end_def)
  qed
qed

lemma fresh_move:
  assumes "plain n" "(m, n') = (if has_pkthdr n then m_move_pkthdr (m_init a junk MLEN ty {}) n else (m_init a junk MLEN ty {}, n))"
  shows "plain m" "m_len m = 0" "m_off m = 0" "MHLEN \<le> length (m_buf m)" "mbuf_data m = []" "plain n'" "mbuf_data n' = mbuf_data n"
    "m_len n' = m_len n"
  using assms by (auto simp: m_move_pkthdr_def Let_def m_init_def wf_mbuf_def mbuf_data_def m_bytes_def mbuf_consts M_COPYFLAGS_def
      M_PROTOFLAGS_def split: if_splits)

text \<open>Both functions that allocate do the same with the new mbuf: give it the packet header, leave \<open>dstoff\<close> bytes in front, and pull up.\<close>

lemma pullup_fresh:
  assumes ms: "ms = n # ns" "\<forall>x \<in> set ms. plain x" "m_get as (m_type n) = (Some mi, as')" "len + dstoff \<le> MHLEN"
    and mn: "(m, n') = (if has_pkthdr n then m_move_pkthdr mi n else (mi, n))"
  defines "m1 \<equiv> m\<lparr>m_off := m_off m + dstoff\<rparr>"
  shows "\<exists>r. pullup_end (pullup_loop mp m1 (int len) (room_behind m1) (n' # ns)) as' = Inr (r, as') \<and>
    (case r of Some ms' \<Rightarrow> chain_data ms' = chain_data ms \<and> (\<forall>x \<in> set ms'. plain x) \<and> ms' \<noteq> [] \<and> len \<le> m_len (hd ms')
     | None \<Rightarrow> chain_len ms < len)"
proof -
  have p: "plain n" "\<forall>x \<in> set ns. plain x" using ms(1,2) by auto
  obtain a junk where mi: "mi = m_init a junk MLEN (m_type n) {}" using ms(3) by (cases "(as, m_type n)" rule: m_get.cases) auto
  note F = fresh_move[OF p(1) mn[unfolded mi]]
  have m1: "plain m1" "m_len m1 = 0" "mbuf_data m1 = []" "m_off m1 = dstoff" "length (m_buf m1) = length (m_buf m)"
    using F(1-5) ms(4) by (auto simp: m1_def wf_mbuf_def mbuf_data_def m_bytes_def)
  have "int len \<le> int (room_behind m1)" using F(4) m1(2,4,5) ms(4) by (simp add: room_behind_def)
  moreover have "\<forall>x \<in> set (n' # ns). plain x" using F(6) p(2) by simp
  ultimately obtain r where r: "pullup_end (pullup_loop mp m1 (int len) (room_behind m1) (n' # ns)) as' = Inr (r, as')"
      "case r of Some ms' \<Rightarrow> chain_data ms' = mbuf_data m1 @ chain_data (n' # ns) \<and> (\<forall>x \<in> set ms'. plain x) \<and> ms' \<noteq> [] \<and>
         int (m_len m1) + int len \<le> int (m_len (hd ms'))
       | None \<Rightarrow> int (m_len m1 + chain_len (n' # ns)) < int (m_len m1) + int len"
    using pullup_end_spec[OF m1(1)] by blast
  then show ?thesis using m1(2,3) F(7,8) ms(1) by (cases r) auto
qed

lemma m_copyup_spec:
  assumes ms: "ms \<noteq> []" "\<forall>x \<in> set ms. plain x" and off: "dstoff \<le> MHLEN"
  shows "\<exists>r as'. m_copyup mp as ms len dstoff = Inr (r, as') \<and>
    (case r of Some ms' \<Rightarrow> chain_data ms' = chain_data ms \<and> (\<forall>x \<in> set ms'. plain x) \<and> ms' \<noteq> [] \<and> len \<le> m_len (hd ms')
     | None \<Rightarrow> chain_len ms < len \<or> MHLEN < len + dstoff \<or> fst (m_get as (m_type (hd ms))) = None)"
proof -
  obtain n ns where n: "ms = n # ns" using ms(1) by (cases ms) auto
  obtain mo as' where g: "m_get as (m_type n) = (mo, as')" by (cases "m_get as (m_type n)")
  have w: "(int MHLEN - int dstoff) mod 2 ^ 64 = int MHLEN - int dstoff" using off by (simp add: mbuf_consts)
  show ?thesis
  proof (cases "MHLEN < len + dstoff \<or> mo = None")
    case True
    then show ?thesis using g unfolding m_copyup_def n list.case w by auto
  next
    case False
    then obtain mi where mi: "mo = Some mi" by auto
    obtain m n' where mn: "(m, n') = (if has_pkthdr n then m_move_pkthdr mi n else (mi, n))" by (metis surj_pair)
    have len: "\<not> int len > (int MHLEN - int dstoff) mod 2 ^ 64" "len + dstoff \<le> MHLEN" using False w by auto
    have "plain n" using n ms(2) by simp
    moreover obtain a junk where "mi = m_init a junk MLEN (m_type n) {}" using g mi by (cases "(as, m_type n)" rule: m_get.cases) auto
    ultimately have room: "\<not> length (m_buf (m\<lparr>m_off := m_off m + dstoff\<rparr>)) < m_off (m\<lparr>m_off := m_off m + dstoff\<rparr>)"
      using fresh_move(3,4)[of n m n'] mn off by force
    have "m_copyup mp as ms len dstoff =
        pullup_end (pullup_loop mp (m\<lparr>m_off := m_off m + dstoff\<rparr>) (int len) (room_behind (m\<lparr>m_off := m_off m + dstoff\<rparr>)) (n' # ns)) as'"
      unfolding m_copyup_def n list.case if_not_P[OF len(1)] g mi prod.case option.case mn[symmetric] Let_def if_not_P[OF room] ..
    then show ?thesis using pullup_fresh[OF n ms(2) g[unfolded mi] len(2) mn, of mp] by (auto split: option.splits)
  qed
qed

lemma m_pullup_in_place:
  assumes ms: "ms = n # ns" "\<forall>x \<in> set ms. plain x" and ip: "\<not> is_ext n \<and> m_off n + len < length (m_buf n) \<and> ns \<noteq> []"
  shows "\<exists>r. m_pullup mp as ms len = Inr (r, as) \<and>
    (case r of Some ms' \<Rightarrow> chain_data ms' = chain_data ms \<and> (\<forall>x \<in> set ms'. plain x) \<and> ms' \<noteq> [] \<and> len \<le> m_len (hd ms')
     | None \<Rightarrow> chain_len ms < len)"
proof (cases "len \<le> m_len n")
  case True
  then show ?thesis using ip ms by (simp add: m_pullup_def)
next
  case False
  have p: "plain n" "\<forall>x \<in> set ns. plain x" "ns \<noteq> []" using ms ip by auto
  have "m_off n + len < length (m_buf n)" using ip by blast
  then have le: "int len - int (m_len n) \<le> int (room_behind n)" unfolding room_behind_def by linarith
  obtain r where r: "pullup_end (pullup_loop mp n (int len - int (m_len n)) (room_behind n) ns) as = Inr (r, as)"
      "case r of Some ms' \<Rightarrow> chain_data ms' = mbuf_data n @ chain_data ns \<and> (\<forall>x \<in> set ms'. plain x) \<and> ms' \<noteq> [] \<and>
         int (m_len n) + (int len - int (m_len n)) \<le> int (m_len (hd ms'))
       | None \<Rightarrow> int (m_len n + chain_len ns) < int (m_len n) + (int len - int (m_len n))"
    using pullup_end_spec[OF p(1) le p(2,3)] by blast
  have "m_pullup mp as ms len = Inr (r, as)" using ip False r(1) ms(1) by (simp add: m_pullup_def)
  then show ?thesis using r(2) ms(1) by (cases r) auto
qed

lemma m_pullup_spec:
  assumes ms: "ms \<noteq> []" "\<forall>x \<in> set ms. plain x"
  shows "\<exists>r as'. m_pullup mp as ms len = Inr (r, as') \<and>
    (case r of Some ms' \<Rightarrow> chain_data ms' = chain_data ms \<and> (\<forall>x \<in> set ms'. plain x) \<and> ms' \<noteq> [] \<and> len \<le> m_len (hd ms')
     | None \<Rightarrow> chain_len ms < len \<or> MHLEN < len \<or> fst (m_get as (m_type (hd ms))) = None)"
proof -
  obtain n ns where n: "ms = n # ns" using ms(1) by (cases ms) auto
  obtain mo as' where g: "m_get as (m_type n) = (mo, as')" by (cases "m_get as (m_type n)")
  consider (ip) "\<not> is_ext n \<and> m_off n + len < length (m_buf n) \<and> ns \<noteq> []"
    | (no) "\<not> (\<not> is_ext n \<and> m_off n + len < length (m_buf n) \<and> ns \<noteq> [])" "MHLEN < len \<or> mo = None"
    | (copy) mi where "\<not> (\<not> is_ext n \<and> m_off n + len < length (m_buf n) \<and> ns \<noteq> [])" "\<not> MHLEN < len" "mo = Some mi"
    by (cases mo) blast+
  then show ?thesis
  proof cases
    case ip
    then show ?thesis using m_pullup_in_place[OF n ms(2), of len mp as] by (auto split: option.splits)
  next
    case no
    then show ?thesis using n g by (auto simp: m_pullup_def)
  next
    case copy
    obtain m n' where mn: "(m, n') = (if has_pkthdr n then m_move_pkthdr mi n else (mi, n))" by (metis surj_pair)
    have "m_pullup mp as ms len = pullup_end (pullup_loop mp m (int len) (room_behind m) (n' # ns)) as'"
      unfolding m_pullup_def n list.case if_not_P[OF copy(1)] if_not_P[OF copy(2)] g copy(3) prod.case option.case mn[symmetric] Let_def ..
    moreover have "len + 0 \<le> MHLEN" using copy(2) by simp
    ultimately show ?thesis using pullup_fresh[OF n ms(2) g[unfolded copy(3)] _ mn, of len 0 mp] by (auto split: option.splits)
  qed
qed

text \<open>The packet header of a chain, if it has one, and what the loop leaves of headers.\<close>

definition hdr_of :: "chain \<Rightarrow> pkthdr option" where
  "hdr_of ms = (if has_pkthdr (hd ms) then Some (m_pkthdr (hd ms)) else None)"

abbreviation headless :: "chain \<Rightarrow> bool" where "headless ms \<equiv> list_all (\<lambda>m. \<not> has_pkthdr m) ms"

lemma pullup_step_hdr:
  assumes "pullup_step mp m len space n ns = Inr (again, m', len', space', ns')"
  shows "m_flags m' = m_flags m \<and> m_pkthdr m' = m_pkthdr m \<and> (headless (n # ns) \<longrightarrow> headless ns')"
proof -
  define count where "count = min (min (nat (max len (int mp))) space) (m_len n)"
  from assms show ?thesis unfolding pullup_step_def Let_def count_def[symmetric] by (auto split: if_splits)
qed

lemma pullup_loop_hdr:
  "pullup_loop mp m len space ns = Inr (m', len', ns') \<Longrightarrow>
     m_flags m' = m_flags m \<and> m_pkthdr m' = m_pkthdr m \<and> (headless ns \<longrightarrow> headless ns')"
proof (induction mp m len space ns rule: pullup_loop.induct)
  case (1 mp m len space ns)
  obtain n ns0 where ns: "ns = n # ns0" using 1(2) by (cases ns) (simp_all add: pullup_loop.simps[of mp m len space "[]"])
  obtain again m1 len1 space1 ns1 where st: "pullup_step mp m len space n ns0 = Inr (again, m1, len1, space1, ns1)"
    using 1(2) unfolding ns pullup_loop.simps[of mp m len space "n # ns0"] list.case by (auto split: sum.splits)
  note h = pullup_step_hdr[OF st]
  show ?case
  proof (cases again)
    case True
    have "pullup_loop mp m1 len1 space1 ns1 = Inr (m', len', ns')"
      using 1(2) True unfolding ns pullup_loop.simps[of mp m len space "n # ns0"] list.case st by simp
    from 1(1)[OF ns st refl refl refl refl True this] h ns show ?thesis by simp
  next
    case False
    have "m' = m1" "ns' = ns1"
      using 1(2) False unfolding ns pullup_loop.simps[of mp m len space "n # ns0"] list.case st by simp_all
    with h ns show ?thesis by simp
  qed
qed

lemma m_copyup_hdr:
  assumes "m_copyup mp as (n # ns) len dstoff = Inr (Some c, as')" "plain n"
  shows "hdr_of c = hdr_of (n # ns) \<and> (headless ns \<longrightarrow> headless (tl c))"
proof -
  obtain mi as1 where g: "m_get as (m_type n) = (Some mi, as1)"
    using assms(1) by (cases "m_get as (m_type n)"; cases "fst (m_get as (m_type n))") (auto simp: m_copyup_def split: if_splits)
  obtain a junk where mi: "mi = m_init a junk MLEN (m_type n) {}" using g by (cases "(as, m_type n)" rule: m_get.cases) auto
  obtain m n' where mn: "(m, n') = (if has_pkthdr n then m_move_pkthdr mi n else (mi, n))" by (metis surj_pair)
  have f: "has_pkthdr m = has_pkthdr n" "has_pkthdr n \<longrightarrow> m_pkthdr m = m_pkthdr n" "\<not> has_pkthdr n'"
    using mn by (auto simp: mi m_move_pkthdr_def Let_def m_init_def M_COPYFLAGS_def split: if_splits)
  let ?m = "m\<lparr>m_off := m_off m + dstoff\<rparr>"
  obtain m1 l1 ns1 where lp: "pullup_loop mp ?m (int len) (room_behind ?m) (n' # ns) = Inr (m1, l1, ns1)" "c = m1 # ns1"
    using assms(1) unfolding m_copyup_def list.case g prod.case option.case mn[symmetric] Let_def
    by (auto simp: pullup_end_def res_bind_Inr split: if_splits)
  from pullup_loop_hdr[OF lp(1)] f lp(2) show ?thesis by (auto simp: hdr_of_def)
qed

lemma m_demote_spec:
  assumes "wf_chain ms" "m_demote ms all = Inr ms'"
  shows "chain_data ms' = chain_data ms \<and> wf_chain ms' \<and> headless (tl ms') \<and>
    (ms \<noteq> [] \<longrightarrow> (if all then \<not> has_pkthdr (hd ms') else hd ms' = hd ms))"
proof -
  have d: "mbuf_data (demote1 m) = mbuf_data m" "wf_mbuf m \<Longrightarrow> wf_mbuf (demote1 m)" "\<not> has_pkthdr (demote1 m)" for m
    by (auto simp: demote1_def mbuf_data_def m_bytes_def wf_mbuf_def mbuf_consts Let_def split: if_splits)
  have "chain_data (map demote1 xs) = chain_data xs" for xs by (induction xs) (simp_all add: d)
  then show ?thesis using assms d by (cases ms) (auto simp: m_demote_def list_all_iff split: if_splits)
qed

lemma m_prepend_spec:
  assumes ms: "ms \<noteq> []" "wf_chain ms" "len \<le> MHLEN" and r: "m_prepend as ms len = Inr (Some ms', as')"
  shows "wf_chain ms' \<and> m_len (hd ms') = len \<and> drop len (chain_data ms') = chain_data ms \<and>
    hdr_of ms' = hdr_of ms \<and> \<not> has_pkthdr (hd (tl ms')) \<and> tl (tl ms') = tl ms"
proof -
  obtain m rest where m: "ms = m # rest" "wf_mbuf m" "wf_chain rest" using ms by (cases ms) auto
  have al: "align8 (MHLEN - len) + len \<le> MHLEN" "align8 (MLEN - len) + len \<le> MLEN" "len \<le> MLEN"
    using align8_le[of "MHLEN - len"] align8_le[of "MLEN - len"] ms(3) by (auto simp: mbuf_consts)
  obtain a junk as0 where as: "as = Some (a, junk) # as0"
    using r m(1) by (cases as rule: remdups_adj.cases; cases "hd as") (auto simp: m_prepend_def split: if_splits)
  obtain mn m' where c: "ms' = mn # m' # rest" "wf_mbuf mn" "m_len mn = len" "M_HOLE \<notin> m_flags mn" "wf_mbuf m'"
      "mbuf_data m' = mbuf_data m" "\<not> has_pkthdr m'"
      "has_pkthdr mn = has_pkthdr m" "has_pkthdr m \<longrightarrow> m_pkthdr mn = m_pkthdr m"
  proof (cases "has_pkthdr m")
    case True
    let ?mn = "fst (m_move_pkthdr (m_init a junk MHLEN (m_type m) {M_PKTHDR}) m)" and ?m = "snd (m_move_pkthdr (m_init a junk MHLEN (m_type m) {M_PKTHDR}) m)"
    have mn: "has_pkthdr ?mn" "M_HOLE \<notin> m_flags ?mn" "\<not> is_ext ?mn" "m_off ?mn = 0" "length (m_buf ?mn) = MHLEN"
        "m_pkthdr ?mn = m_pkthdr m"
      using True by (auto simp: m_move_pkthdr_def m_init_def Let_def M_COPYFLAGS_def M_PROTOFLAGS_def)
    have m': "wf_mbuf ?m" "mbuf_data ?m = mbuf_data m" "\<not> has_pkthdr ?m"
      using m(2) True by (auto simp: m_move_pkthdr_def Let_def wf_mbuf_def mbuf_data_def m_bytes_def mbuf_consts)
    have "ms' = (if len < MHLEN then ?mn\<lparr>m_off := align8 (MHLEN - len), m_len := len\<rparr> else ?mn\<lparr>m_len := len\<rparr>) # ?m # rest"
      using r True mn(1,4) m(1) as by (auto simp: m_prepend_def Let_def split: prod.splits)
    then show thesis using that[OF _ _ _ _ m'] mn al ms(3) True by (auto simp: wf_mbuf_def split: if_splits)
  next
    case False
    let ?mn = "m_init a junk MLEN (m_type m) {}"
    have "ms' = ?mn\<lparr>m_off := align8 (MLEN - len), m_len := len\<rparr> # m # rest"
      using r False m(1) as ms(3) by (auto simp: m_prepend_def Let_def m_init_def mbuf_consts)
    then show thesis using that[OF _ _ _ _ m(2) refl False] al False by (auto simp: wf_mbuf_def m_init_def)
  qed
  have "length (mbuf_data mn) = len" using c(2,3) by simp
  then show ?thesis using c m by (auto simp: hdr_of_def)
qed

subsection \<open>Properties\<close>

definition sample_packet :: chain where "sample_packet = [data_mb 1 {M_PKTHDR} [1, 2] 0, data_mb 2 {} [3, 4, 5] 0]"

lemma sample_packet:
  "sample_packet \<noteq> []" "wf_chain sample_packet" "list_all (\<lambda>m. \<not> is_hole m) sample_packet"
  "chain_len sample_packet = 5" "chain_data sample_packet = [1, 2, 3, 4, 5]"
  by (simp_all add: sample_packet_def sample_simps mbuf_consts)

text \<open>C10: On a well-formed chain without holes \<open>m_pullup\<close> always returns.  A chain it returns has the same bytes, is well formed and has
  the first \<open>len\<close> of them in its first mbuf; it frees the chain only when the chain is shorter than \<open>len\<close>, \<open>len\<close> does not fit a header mbuf, or
  no mbuf could be allocated.\<close>

theorem m_pullup_contiguous:
  assumes "ms \<noteq> []" "wf_chain ms" "list_all (\<lambda>m. \<not> is_hole m) ms"
  shows "\<exists>r as'. m_pullup max_protohdr as ms len = Inr (r, as') \<and>
    (case r of Some ms' \<Rightarrow> chain_data ms' = chain_data ms \<and> wf_chain ms' \<and> ms' \<noteq> [] \<and> len \<le> m_len (hd ms')
     | None \<Rightarrow> chain_len ms < len \<or> MHLEN < len \<or> fst (m_get as (m_type (hd ms))) = None)"
proof -
  have "\<forall>m \<in> set ms. plain m" using assms(2,3) by (simp add: list_all_iff)
  from m_pullup_spec[OF assms(1) this, of max_protohdr as len] show ?thesis
    by (elim exE conjE) (intro exI conjI, assumption, simp split: option.splits)
qed

theorem m_pullup_contiguous_witness:
  "\<exists>ms' as'. m_pullup 60 [Some (9, \<lambda>_. 0)] sample_packet 4 = Inr (Some ms', as') \<and> chain_data ms' = [1, 2, 3, 4, 5] \<and> 4 \<le> m_len (hd ms')"
proof -
  obtain r as' where r: "m_pullup 60 [Some (9, \<lambda>_. 0)] sample_packet 4 = Inr (r, as')"
      "case r of Some ms' \<Rightarrow> chain_data ms' = chain_data sample_packet \<and> wf_chain ms' \<and> ms' \<noteq> [] \<and> 4 \<le> m_len (hd ms')
       | None \<Rightarrow> chain_len sample_packet < 4 \<or> MHLEN < 4 \<or> fst (m_get [Some (9, \<lambda>_. 0)] (m_type (hd sample_packet))) = None"
    using m_pullup_contiguous[OF sample_packet(1-3), of 60 "[Some (9, \<lambda>_. 0)]" 4] by (elim exE conjE) (rule that; assumption)
  then show ?thesis by (cases r) (simp_all add: sample_packet mbuf_consts)
qed

lemma m_prepend_cases:
  assumes "ms = m # rest"
  obtains r as' where "m_prepend as ms len = Inr (r, as')" "r = None \<longrightarrow> as = [] \<or> hd as = None"
proof -
  obtain mo as' where g: "(if has_pkthdr m then m_gethdr as (m_type m) else m_get as (m_type m)) = (mo, as')" by (metis surj_pair)
  show thesis
  proof (cases mo)
    case None
    have "as = [] \<or> hd as = None" using g unfolding None by (cases "(as, m_type m)" rule: m_get.cases) (auto split: if_splits)
    then show thesis using that[of None as'] g assms None by (simp add: m_prepend_def)
  next
    case (Some mn)
    obtain mn' m' where "(if has_pkthdr m then m_move_pkthdr mn m else (mn, m)) = (mn', m')" by (metis surj_pair)
    then have "\<exists>c. m_prepend as ms len = Inr (Some c, as')" using g assms Some by (simp add: m_prepend_def Let_def)
    then show thesis using that by blast
  qed
qed

text \<open>C23: The operations that rebuild the front of a chain keep the type of an mbuf chain: every data pointer and length stays inside its
  storage, no storage exceeds the kind of its mbuf, and the packet header is where it belongs.  \<open>m_demote\<close> keeps the bytes and takes the
  headers away, except from the first mbuf unless \<open>all\<close> is set.  \<open>m_prepend\<close> puts an mbuf of \<open>len\<close> bytes in front of the bytes, and the header moves
  to it.  \<open>m_copyup\<close> keeps the bytes, with the first \<open>len\<close> of them in the new first mbuf, which has the header.\<close>

theorem mbuf_front_typed:
  assumes "ms \<noteq> []" "wf_chain ms" "list_all (\<lambda>m. \<not> is_hole m) ms" "len \<le> MHLEN" "dstoff \<le> MHLEN"
  shows "(\<exists>d. m_demote ms all = Inr d \<and> wf_chain d \<and> chain_data d = chain_data ms \<and> headless (tl d) \<and>
      (if all then \<not> has_pkthdr (hd d) else hd d = hd ms)) \<and>
    (\<exists>r as'. m_prepend as ms len = Inr (r, as') \<and>
       (case r of Some p \<Rightarrow> wf_chain p \<and> m_len (hd p) = len \<and> drop len (chain_data p) = chain_data ms \<and>
            hdr_of p = hdr_of ms \<and> \<not> has_pkthdr (hd (tl p)) \<and> tl (tl p) = tl ms
        | None \<Rightarrow> as = [] \<or> hd as = None)) \<and>
    (\<exists>r as'. m_copyup max_protohdr as ms len dstoff = Inr (r, as') \<and>
       (case r of Some c \<Rightarrow> wf_chain c \<and> chain_data c = chain_data ms \<and> len \<le> m_len (hd c) \<and>
            hdr_of c = hdr_of ms \<and> (headless (tl ms) \<longrightarrow> headless (tl c))
        | None \<Rightarrow> chain_len ms < len \<or> MHLEN < len + dstoff \<or> fst (m_get as (m_type (hd ms))) = None))"
    (is "?D \<and> ?P \<and> ?C")
proof (intro conjI)
  obtain m rest where m: "ms = m # rest" using assms(1) by (cases ms) auto
  obtain d where d: "m_demote ms all = Inr d" using assms(1) by (cases ms; cases all) (simp_all add: m_demote_def)
  show ?D using m_demote_spec[OF assms(2) d] d assms(1) by simp
  obtain r as' where r: "m_prepend as ms len = Inr (r, as')" "r = None \<longrightarrow> as = [] \<or> hd as = None"
    using m_prepend_cases[OF m] .
  show ?P
  proof (cases r)
    case (Some p)
    then show ?thesis using m_prepend_spec[OF assms(1,2,4) r(1)[unfolded Some]] r(1) by simp
  qed (use r in auto)
  have pl: "\<forall>m \<in> set ms. plain m" using assms(2,3) by (simp add: list_all_iff)
  obtain r as' where c: "m_copyup max_protohdr as ms len dstoff = Inr (r, as')"
      "case r of Some ms' \<Rightarrow> chain_data ms' = chain_data ms \<and> (\<forall>x \<in> set ms'. plain x) \<and> ms' \<noteq> [] \<and> len \<le> m_len (hd ms')
       | None \<Rightarrow> chain_len ms < len \<or> MHLEN < len + dstoff \<or> fst (m_get as (m_type (hd ms))) = None"
    using m_copyup_spec[OF assms(1) pl assms(5), of max_protohdr as len] by (elim exE conjE) (rule that; assumption)
  show ?C
  proof (cases r)
    case (Some k)
    then show ?thesis using c m_copyup_hdr[of max_protohdr as m rest len dstoff k as'] m pl by simp
  qed (use c in auto)
qed

theorem mbuf_front_typed_witness:
  "(\<exists>d. m_demote sample_packet True = Inr d \<and> chain_data d = [1, 2, 3, 4, 5] \<and> \<not> has_pkthdr (hd d)) \<and>
   (\<exists>p as'. m_prepend [Some (9, \<lambda>_. 0)] sample_packet 20 = Inr (Some p, as') \<and> m_len (hd p) = 20 \<and>
      drop 20 (chain_data p) = [1, 2, 3, 4, 5] \<and> has_pkthdr (hd p) \<and> \<not> has_pkthdr (hd (tl p)))"
proof -
  have "20 \<le> MHLEN" "2 \<le> MHLEN" by (simp_all add: mbuf_consts)
  note t = mbuf_front_typed[OF sample_packet(1-3) this, of True "[Some (9, \<lambda>_. 0)]" 60]
  have h: "has_pkthdr (hd sample_packet)" by (simp add: sample_packet_def data_mb_def)
  obtain r as' where r: "m_prepend [Some (9, \<lambda>_. 0)] sample_packet 20 = Inr (r, as')"
      "case r of Some p \<Rightarrow> wf_chain p \<and> m_len (hd p) = 20 \<and> drop 20 (chain_data p) = chain_data sample_packet \<and>
          hdr_of p = hdr_of sample_packet \<and> \<not> has_pkthdr (hd (tl p)) \<and> tl (tl p) = tl sample_packet
       | None \<Rightarrow> [Some (9, \<lambda>_. 0)] = ([] :: alloc) \<or> hd ([Some (9, \<lambda>_. 0)] :: alloc) = None"
    using t[THEN conjunct2, THEN conjunct1] by (elim exE conjE) (rule that; assumption)
  then have "\<exists>p as'. m_prepend [Some (9, \<lambda>_. 0)] sample_packet 20 = Inr (Some p, as') \<and> m_len (hd p) = 20 \<and>
      drop 20 (chain_data p) = [1, 2, 3, 4, 5] \<and> has_pkthdr (hd p) \<and> \<not> has_pkthdr (hd (tl p))"
    using h by (cases r) (auto simp: sample_packet hdr_of_def split: if_splits)
  moreover have "\<exists>d. m_demote sample_packet True = Inr d \<and> chain_data d = [1, 2, 3, 4, 5] \<and> \<not> has_pkthdr (hd d)"
    using t[THEN conjunct1] by (auto simp: sample_packet)
  ultimately show ?thesis by blast
qed

end
