(* ===== verification/Sockbuf.thy ===== *)
theory Sockbuf
  imports Mbuf_Edit
begin

text \<open>
  Socket buffers: \<open>sys/sys/sockbuf.h\<close>, \<open>sys/kern/uipc_sockbuf.c\<close> and \<open>chgsbsize\<close> of
  \<open>lib/libuinet/uinet_kern_resource.c\<close>.

  \<open>sb_mb\<close> is the list of records (the chain through \<open>m_nextpkt\<close>), each record a chain through \<open>m_next\<close>.
  The pointers the code keeps into these chains (\<open>sb_mbtail\<close>, \<open>sb_lastrecord\<close>, \<open>sb_sndptr\<close>) are the
  addresses of the mbufs, and following one that is not in the buffer is \<open>Inl Use_after_free\<close>.  The
  counters are 32-bit words and wrap as \<open>u_int\<close> does.  Locks and wakeups are not modelled.
\<close>

subsection \<open>State\<close>

datatype sbflag = SB_WAIT | SB_SEL | SB_ASYNC | SB_UPCALL | SB_NOINTR | SB_AIO | SB_KNOTE
  | SB_NOCOALESCE | SB_IN_TOE | SB_AUTOSIZE

datatype sbstate = SBS_CANTSENDMORE | SBS_CANTRCVMORE | SBS_RCVATMARK

record sockbuf =
  sb_state :: "sbstate set"
  sb_mb :: "chain list"
  sb_mbtail :: "nat option"
  sb_lastrecord :: "nat option"
  sb_sndptr :: "nat option"
  sb_sndptroff :: u32
  sb_cc :: u32
  sb_hiwat :: u32
  sb_mbcnt :: u32
  sb_mcnt :: u32
  sb_ccnt :: u32
  sb_mbmax :: u32
  sb_ctl :: u32
  sb_lowat :: u32
  sb_timeo :: u32
  sb_flags :: "sbflag set"

abbreviation is_ctl :: "mbuf \<Rightarrow> bool" where
  "is_ctl m \<equiv> m_type m \<noteq> MT_DATA \<and> m_type m \<noteq> MT_OOBDATA"

abbreviation id_of :: "chain \<Rightarrow> nat option" where
  "id_of ms \<equiv> (case ms of [] \<Rightarrow> None | m # _ \<Rightarrow> Some (m_id m))"

abbreviation mb_id :: "chain list \<Rightarrow> nat option" where
  "mb_id rs \<equiv> (case rs of [] \<Rightarrow> None | r # _ \<Rightarrow> id_of r)"

subsection \<open>The macros of \<open>sockbuf.h\<close>\<close>

definition sbspace :: "sockbuf \<Rightarrow> int" where
  "sbspace sb = min (sint (sb_hiwat sb - sb_cc sb)) (sint (sb_mbmax sb - sb_mbcnt sb))"

definition sballoc :: "sockbuf \<Rightarrow> mbuf \<Rightarrow> sockbuf" where
  "sballoc sb m =
     (let sb1 = sb\<lparr>sb_cc := sb_cc sb + of_nat (m_len m),
                   sb_ctl := (if is_ctl m then sb_ctl sb + of_nat (m_len m) else sb_ctl sb),
                   sb_mbcnt := sb_mbcnt sb + of_nat MSIZE, sb_mcnt := sb_mcnt sb + 1\<rparr>
      in if is_ext m
         then sb1\<lparr>sb_mbcnt := sb_mbcnt sb1 + of_nat (length (m_buf m)), sb_ccnt := sb_ccnt sb1 + 1\<rparr>
         else sb1)"

definition sbfree :: "sockbuf \<Rightarrow> mbuf \<Rightarrow> sockbuf" where
  "sbfree sb m =
     (let sb1 = sb\<lparr>sb_cc := sb_cc sb - of_nat (m_len m),
                   sb_ctl := (if is_ctl m then sb_ctl sb - of_nat (m_len m) else sb_ctl sb),
                   sb_mbcnt := sb_mbcnt sb - of_nat MSIZE, sb_mcnt := sb_mcnt sb - 1\<rparr>;
          sb2 = (if is_ext m
                 then sb1\<lparr>sb_mbcnt := sb_mbcnt sb1 - of_nat (length (m_buf m)), sb_ccnt := sb_ccnt sb1 - 1\<rparr>
                 else sb1);
          sb3 = (if sb_sndptr sb2 = Some (m_id m) then sb2\<lparr>sb_sndptr := None, sb_sndptroff := 0\<rparr> else sb2)
      in if sb_sndptroff sb3 \<noteq> 0 then sb3\<lparr>sb_sndptroff := sb_sndptroff sb3 - of_nat (m_len m)\<rparr> else sb3)"

definition SB_EMPTY_FIXUP :: "sockbuf \<Rightarrow> sockbuf" where
  "SB_EMPTY_FIXUP sb = (if sb_mb sb = [] then sb\<lparr>sb_mbtail := None, sb_lastrecord := None\<rparr> else sb)"

text \<open>\<open>SBLINKRECORD\<close>: \<open>rec\<close> becomes the successor of the record \<open>sb_lastrecord\<close> points to.\<close>

fun link_record :: "chain list \<Rightarrow> nat \<Rightarrow> chain \<Rightarrow> chain list res" where
  "link_record [] i rec = Inl Use_after_free"
| "link_record (r # rs) i rec =
     (if id_of r = Some i then Inr [r, rec]
      else res_bind (link_record rs i rec) (\<lambda>rs'. Inr (r # rs')))"

definition SBLINKRECORD :: "sockbuf \<Rightarrow> chain \<Rightarrow> sockbuf res" where
  "SBLINKRECORD sb rec =
     res_bind (case sb_lastrecord sb of None \<Rightarrow> Inr [rec] | Some i \<Rightarrow> link_record (sb_mb sb) i rec)
       (\<lambda>rs. Inr (sb\<lparr>sb_mb := rs, sb_lastrecord := id_of rec\<rparr>))"

subsection \<open>Appending\<close>

text \<open>
  The loop of \<open>sbcompress\<close>.  \<open>pre\<close> holds the mbufs linked before the current tail \<open>n\<close> in its record;
  \<open>linked\<close> is set once an mbuf has been linked behind the tail.
\<close>

definition drop_empty :: "bool \<Rightarrow> mbuf \<Rightarrow> chain \<Rightarrow> mbuf option \<Rightarrow> bool" where
  "drop_empty eor m ms n = (m_len m = 0 \<and>
     (\<not> eor \<or> (case ms of x # _ \<Rightarrow> m_type x = m_type m
                | [] \<Rightarrow> (case n of Some x \<Rightarrow> m_type x = m_type m | None \<Rightarrow> False))))"

definition may_coalesce :: "sockbuf \<Rightarrow> mbuf \<Rightarrow> mbuf \<Rightarrow> bool" where
  "may_coalesce sb n m = (M_EOR \<notin> m_flags n \<and> M_WRITABLE n \<and> SB_NOCOALESCE \<notin> sb_flags sb \<and>
     int (m_len m) \<le> M_TRAILINGSPACE n \<and> m_type n = m_type m)"

fun sbcompress_loop :: "sockbuf \<Rightarrow> chain \<Rightarrow> chain \<Rightarrow> mbuf option \<Rightarrow> bool \<Rightarrow> bool \<Rightarrow>
    (sockbuf \<times> chain \<times> mbuf option \<times> bool \<times> bool) res" where
  "sbcompress_loop sb [] pre n eor linked = Inr (sb, pre, n, eor, linked)"
| "sbcompress_loop sb (m # ms) pre n eor linked =
     (let eor' = (eor \<or> M_EOR \<in> m_flags m)
      in if drop_empty eor' m ms n
         then sbcompress_loop
                (if sb_lastrecord sb = Some (m_id m) then sb\<lparr>sb_lastrecord := id_of ms\<rparr> else sb) ms pre n eor' linked
         else case n of
             None \<Rightarrow> sbcompress_loop (sballoc (sb\<lparr>sb_mbtail := Some (m_id m)\<rparr>) m) ms pre
                       (Some (m\<lparr>m_flags := m_flags m - {M_EOR}\<rparr>)) eor' True
           | Some n0 \<Rightarrow>
               if may_coalesce sb n0 m \<and> is_hole n0
               then sbcompress_loop (sb\<lparr>sb_cc := sb_cc sb + of_nat (m_len m)\<rparr>) ms pre
                      (Some (n0\<lparr>m_len := m_len n0 + m_len m\<rparr>)) eor' linked
               else if may_coalesce sb n0 m \<and> m_len m \<le> MCLBYTES div 4
               then (if length (m_buf m) < m_off m + m_len m then Inl Out_of_bounds
                     else sbcompress_loop
                       (sb\<lparr>sb_cc := sb_cc sb + of_nat (m_len m),
                           sb_ctl := (if is_ctl m then sb_ctl sb + of_nat (m_len m) else sb_ctl sb)\<rparr>) ms pre
                       (Some (n0\<lparr>m_buf := poke (m_off n0 + m_len n0) (m_bytes m 0 (m_len m)) (m_buf n0),
                                 m_len := m_len n0 + m_len m\<rparr>)) eor' linked)
               else sbcompress_loop (sballoc (sb\<lparr>sb_mbtail := Some (m_id m)\<rparr>) m) ms (pre @ [n0])
                      (Some (m\<lparr>m_flags := m_flags m - {M_EOR}\<rparr>)) eor' True)"

text \<open>The record and position of the mbuf at an address.\<close>

fun find_in :: "chain \<Rightarrow> nat \<Rightarrow> (chain \<times> mbuf \<times> chain) option" where
  "find_in [] i = None"
| "find_in (m # ms) i = (if m_id m = i then Some ([], m, ms)
     else map_option (\<lambda>(pre, x, post). (m # pre, x, post)) (find_in ms i))"

fun find_mb :: "chain list \<Rightarrow> nat \<Rightarrow> (chain list \<times> chain \<times> mbuf \<times> chain \<times> chain list) option" where
  "find_mb [] i = None"
| "find_mb (r # rs) i = (case find_in r i of
       Some (pre, x, post) \<Rightarrow> Some ([], pre, x, post, rs)
     | None \<Rightarrow> map_option (\<lambda>(rb, pre, x, post, ra). (r # rb, pre, x, post, ra)) (find_mb rs i))"

definition set_eor :: "bool \<Rightarrow> mbuf \<Rightarrow> mbuf" where
  "set_eor eor n = (if eor then n\<lparr>m_flags := insert M_EOR (m_flags n)\<rparr> else n)"

definition sbcompress :: "sockbuf \<Rightarrow> chain \<Rightarrow> nat option \<Rightarrow> sockbuf res" where
  "sbcompress sb m n =
     (case n of
        None \<Rightarrow> res_bind (sbcompress_loop sb m [] None False False)
          (\<lambda>(sb', pre, n', eor, linked). case n' of
               None \<Rightarrow> if eor then Inl Null_deref else Inr sb'
             | Some x \<Rightarrow> Inr (sb'\<lparr>sb_mb := [pre @ [set_eor eor x]]\<rparr>))
      | Some i \<Rightarrow> (case find_mb (sb_mb sb) i of
            None \<Rightarrow> if m = [] then Inr sb else Inl Use_after_free
          | Some (rb, pre0, x0, post, ra) \<Rightarrow> res_bind (sbcompress_loop sb m pre0 (Some x0) False False)
              (\<lambda>(sb', pre, n', eor, linked). case n' of
                   None \<Rightarrow> Inl Null_deref
                 | Some x \<Rightarrow> Inr (sb'\<lparr>sb_mb := rb @ (pre @ [set_eor eor x] @ (if linked then [] else post)) # ra\<rparr>))))"

definition sbappendrecord_locked :: "sockbuf \<Rightarrow> chain \<Rightarrow> sockbuf res" where
  "sbappendrecord_locked sb c = (case c of
       [] \<Rightarrow> Inr sb
     | m0 # ms \<Rightarrow>
         let mv = (ms \<noteq> [] \<and> M_EOR \<in> m_flags m0);
             m0' = (if mv then m0\<lparr>m_flags := m_flags m0 - {M_EOR}\<rparr> else m0);
             ms' = (case ms of [] \<Rightarrow> []
                    | m # r \<Rightarrow> (if mv then m\<lparr>m_flags := insert M_EOR (m_flags m)\<rparr> else m) # r)
         in res_bind (SBLINKRECORD (sballoc sb m0) [m0'])
              (\<lambda>sb1. sbcompress (sb1\<lparr>sb_mbtail := Some (m_id m0)\<rparr>) ms' (Some (m_id m0))))"

definition sbappend_locked :: "sockbuf \<Rightarrow> chain \<Rightarrow> sockbuf res" where
  "sbappend_locked sb m =
     (if m = [] then Inr sb
      else if sb_mb sb \<noteq> []
      then (let r = last (sb_mb sb)
            in if \<exists>x \<in> set r. M_EOR \<in> m_flags x then sbappendrecord_locked sb m
               else if r = [] then Inl Null_deref
               else sbcompress sb m (Some (m_id (last r))))
      else (case sb_lastrecord sb of
              Some i \<Rightarrow> Inl Use_after_free
            | None \<Rightarrow> sbcompress (sb\<lparr>sb_lastrecord := id_of m\<rparr>) m None))"

definition sbappendstream_locked :: "sockbuf \<Rightarrow> chain \<Rightarrow> sockbuf res" where
  "sbappendstream_locked sb m =
     res_bind (sbcompress sb m (sb_mbtail sb)) (\<lambda>sb'. Inr (sb'\<lparr>sb_lastrecord := mb_id (sb_mb sb')\<rparr>))"

text \<open>\<open>sa\<close> holds the \<open>sa_len\<close> bytes of the socket address.  The first component is the return value.\<close>

definition sbappendaddr_locked :: "alloc \<Rightarrow> sockbuf \<Rightarrow> byte list \<Rightarrow> chain \<Rightarrow> chain \<Rightarrow> (bool \<times> sockbuf \<times> alloc) res" where
  "sbappendaddr_locked as sb sa m0 control =
     (if m0 \<noteq> [] \<and> \<not> has_pkthdr (hd m0) then Inl Panic
      else let space = (of_nat (length sa) :: u32) + (if m0 \<noteq> [] then of_int (ph_len (m_pkthdr (hd m0))) else 0) +
                       fst (m_length control)
           in if sbspace sb < sint space \<or> MLEN < length sa then Inr (False, sb, as)
              else (case m_get as MT_SONAME of
                  (None, as') \<Rightarrow> Inr (False, sb, as')
                | (Some m, as') \<Rightarrow>
                    let m' = m\<lparr>m_len := length sa, m_buf := poke 0 sa (m_buf m)\<rparr>;
                        rec = m' # control @ m0
                    in res_bind (SBLINKRECORD (foldl sballoc sb rec) rec)
                         (\<lambda>sb1. Inr (True, sb1\<lparr>sb_mbtail := Some (m_id (last rec))\<rparr>, as'))))"

definition sbappendcontrol_locked :: "sockbuf \<Rightarrow> chain \<Rightarrow> chain \<Rightarrow> (bool \<times> sockbuf) res" where
  "sbappendcontrol_locked sb m0 control =
     (if control = [] then Inl Panic
      else if sbspace sb < sint (fst (m_length control) + fst (m_length m0)) then Inr (False, sb)
      else let rec = control @ m0
           in res_bind (SBLINKRECORD (foldl sballoc sb rec) rec)
                (\<lambda>sb1. Inr (True, sb1\<lparr>sb_mbtail := Some (m_id (last rec))\<rparr>)))"

subsection \<open>Dropping\<close>

text \<open>\<open>m\<close> is the rest of the current record, \<open>next\<close> the records after it.\<close>

function sbdrop_loop :: "sockbuf \<Rightarrow> chain \<Rightarrow> chain list \<Rightarrow> nat \<Rightarrow> (sockbuf \<times> chain \<times> chain list) res" where
  "sbdrop_loop sb [] nx len =
     (if 0 < len then (case nx of [] \<Rightarrow> Inl Panic | m # nx' \<Rightarrow> sbdrop_loop sb m nx' len) else Inr (sb, [], nx))"
| "sbdrop_loop sb (m # ms) nx len =
     (if 0 < len
      then if len < m_len m
           then Inr (sb\<lparr>sb_cc := sb_cc sb - of_nat len,
                        sb_sndptroff := (if sb_sndptroff sb \<noteq> 0 then sb_sndptroff sb - of_nat len else 0),
                        sb_ctl := (if is_ctl m then sb_ctl sb - of_nat len else sb_ctl sb)\<rparr>,
                     m\<lparr>m_len := m_len m - len, m_off := (if is_hole m then m_off m else m_off m + len)\<rparr> # ms, nx)
           else sbdrop_loop (sbfree sb m) ms nx (len - m_len m)
      else Inr (sb, m # ms, nx))"
  by pat_completeness auto
termination
  by (relation "measures [\<lambda>(_, m, nx, _). length nx, \<lambda>(_, m, nx, _). length m]") auto

fun drop_zeros :: "sockbuf \<Rightarrow> chain \<Rightarrow> sockbuf \<times> chain" where
  "drop_zeros sb [] = (sb, [])"
| "drop_zeros sb (m # ms) = (if m_len m = 0 then drop_zeros (sbfree sb m) ms else (sb, m # ms))"

definition sbdrop_internal :: "sockbuf \<Rightarrow> int \<Rightarrow> sockbuf res" where
  "sbdrop_internal sb len =
     (let (m, nx) = (case sb_mb sb of [] \<Rightarrow> ([], []) | r # rs \<Rightarrow> (r, rs))
      in res_bind (sbdrop_loop sb m nx (nat len))
        (\<lambda>(sb1, m1, nx1). let (sb2, m2) = drop_zeros sb1 m1;
                              rs = (if m2 \<noteq> [] then m2 # nx1 else nx1)
           in Inr (case rs of
                [] \<Rightarrow> sb2\<lparr>sb_mb := [], sb_mbtail := None, sb_lastrecord := None\<rparr>
              | [r] \<Rightarrow> sb2\<lparr>sb_mb := [r], sb_lastrecord := id_of r\<rparr>
              | _ \<Rightarrow> sb2\<lparr>sb_mb := rs\<rparr>)))"

definition sbdroprecord_locked :: "sockbuf \<Rightarrow> sockbuf" where
  "sbdroprecord_locked sb = SB_EMPTY_FIXUP (case sb_mb sb of
       [] \<Rightarrow> sb
     | r # rs \<Rightarrow> foldl sbfree (sb\<lparr>sb_mb := rs\<rparr>) r)"

text \<open>The loop of \<open>sbflush_internal\<close> with a bound on its rounds.\<close>

fun sbflush_loop :: "nat \<Rightarrow> sockbuf \<Rightarrow> sockbuf res" where
  "sbflush_loop fuel sb =
     (if sb_mbcnt sb = 0 \<or> sb_cc sb = 0 \<and> (case sb_mb sb of (m # _) # _ \<Rightarrow> m_len m \<noteq> 0 | _ \<Rightarrow> True) then Inr sb
      else case fuel of 0 \<Rightarrow> Inl Diverges
        | Suc f \<Rightarrow> res_bind (sbdrop_internal sb (sint (sb_cc sb))) (sbflush_loop f))"

declare sbflush_loop.simps [simp del]

definition sbflush_internal :: "nat \<Rightarrow> sockbuf \<Rightarrow> sockbuf res" where
  "sbflush_internal fuel sb = res_bind (sbflush_loop fuel sb)
     (\<lambda>sb'. if sb_cc sb' \<noteq> 0 \<or> sb_mb sb' \<noteq> [] \<or> sb_mbcnt sb' \<noteq> 0 then Inl Panic else Inr sb')"

subsection \<open>The send pointer\<close>

fun sndptr_loop :: "chain \<Rightarrow> u32 \<Rightarrow> u32 \<Rightarrow> chain \<times> u32 \<times> u32" where
  "sndptr_loop [] off ptroff = ([], off, ptroff)"
| "sndptr_loop (m # ms) off ptroff =
     (if 0 < off \<and> of_nat (m_len m) \<le> off
      then sndptr_loop ms (off - of_nat (m_len m)) (ptroff + of_nat (m_len m))
      else (m # ms, off, ptroff))"

text \<open>The mbuf returned is given with the rest of its record, and \<open>moff\<close> is the third component.\<close>

definition sbsndptr :: "sockbuf \<Rightarrow> u32 \<Rightarrow> u32 \<Rightarrow> (sockbuf \<times> chain \<times> u32) res" where
  "sbsndptr sb off len =
     (let first = (case sb_mb sb of [] \<Rightarrow> [] | r # _ \<Rightarrow> r)
      in if off < sb_sndptroff sb then Inr (sb, first, off)
         else res_bind (case sb_sndptr sb of None \<Rightarrow> Inr first
                  | Some i \<Rightarrow> (case find_mb (sb_mb sb) i of None \<Rightarrow> Inl Use_after_free
                                | Some (_, _, x, post, _) \<Rightarrow> Inr (x # post)))
           (\<lambda>ret. let (m, off', ptroff') = sndptr_loop ret (off - sb_sndptroff sb + len - 1) (sb_sndptroff sb)
                  in if 0 < off' \<and> m = [] then Inl Panic
                     else Inr (sb\<lparr>sb_sndptr := id_of m, sb_sndptroff := ptroff'\<rparr>, ret, off - sb_sndptroff sb)))"

subsection \<open>Control messages\<close>

definition ALIGN8 :: "nat \<Rightarrow> nat" where "ALIGN8 n = (n + 7) div 8 * 8"

definition CMSG_SPACE :: "nat \<Rightarrow> nat" where "CMSG_SPACE l = ALIGN8 12 + ALIGN8 l"

definition CMSG_LEN :: "nat \<Rightarrow> nat" where "CMSG_LEN l = ALIGN8 12 + l"

definition le32 :: "u32 \<Rightarrow> byte list" where
  "le32 w = map (\<lambda>i. ucast (drop_bit (8 * i) w)) [0..<4]"

text \<open>\<open>sbcreatecontrol\<close>; \<open>p\<close> is the null pointer or the \<open>size\<close> bytes at \<open>p\<close>.\<close>

definition sbcreatecontrol :: "alloc \<Rightarrow> byte list option \<Rightarrow> u32 \<Rightarrow> u32 \<Rightarrow> u32 \<Rightarrow> mbuf option \<times> alloc" where
  "sbcreatecontrol as p sz ty level =
     (if MCLBYTES < CMSG_SPACE (unat sz) then (None, as)
      else (case (if MLEN < CMSG_SPACE (unat sz) then m_getcl as MT_CONTROL {} else m_get as MT_CONTROL) of
          (None, as') \<Rightarrow> (None, as')
        | (Some m, as') \<Rightarrow>
            let b1 = (case p of None \<Rightarrow> m_buf m | Some bs \<Rightarrow> poke (ALIGN8 12) (take (unat sz) bs) (m_buf m));
                b2 = poke 0 (le32 (of_nat (CMSG_LEN (unat sz))) @ le32 level @ le32 ty) b1
            in (Some (m\<lparr>m_buf := b2, m_len := CMSG_SPACE (unat sz)\<rparr>), as')))"

subsection \<open>Reservations\<close>

text \<open>
  \<open>ui_sbsize\<close> is the buffer space charged to the user, a 64-bit counter.  The limits \<open>sb_max\<close> and
  \<open>sb_max_adj\<close> are the tunables of the file.
\<close>

type_synonym u64 = "64 word"

definition chgsbsize :: "u64 \<Rightarrow> u32 \<Rightarrow> u32 \<Rightarrow> u64 \<Rightarrow> (u64 \<times> u32) option" where
  "chgsbsize ui_sbsize hiwat to lim =
     (let diff = sint (to - hiwat)
      in if 0 < diff \<and> lim < ui_sbsize + of_int diff then None else Some (ui_sbsize + of_int diff, to))"

definition SB_MAX :: u64 where "SB_MAX = 2097152"

definition sb_efficiency :: u64 where "sb_efficiency = 8"

definition sb_max_adj_of :: "u64 \<Rightarrow> u64" where
  "sb_max_adj_of sb_max = sb_max * of_nat MCLBYTES div of_nat (MSIZE + MCLBYTES)"

definition RLIM_INFINITY :: u64 where "RLIM_INFINITY = 9223372036854775807"

definition sysctl_handle_sb_max :: "u64 \<Rightarrow> u64 \<Rightarrow> (u64 \<times> u64) option" where
  "sysctl_handle_sb_max sb_max tmp_sb_max =
     (if tmp_sb_max < of_nat (MSIZE + MCLBYTES) then None else Some (tmp_sb_max, sb_max_adj_of tmp_sb_max))"

text \<open>\<open>lim\<close> is the limit of the thread, \<open>None\<close> for a null thread.\<close>

definition sbreserve_locked :: "u64 \<Rightarrow> u64 \<Rightarrow> u64 option \<Rightarrow> u64 \<Rightarrow> sockbuf \<Rightarrow> (u64 \<times> sockbuf) option" where
  "sbreserve_locked sb_max ui_sbsize lim cc sb =
     (if sb_max_adj_of sb_max < cc then None
      else (case chgsbsize ui_sbsize (sb_hiwat sb) (ucast cc) (case lim of None \<Rightarrow> RLIM_INFINITY | Some l \<Rightarrow> l) of
          None \<Rightarrow> None
        | Some (ui', hw) \<Rightarrow>
            let sb1 = sb\<lparr>sb_hiwat := hw, sb_mbmax := min (ucast (cc * sb_efficiency)) (ucast sb_max)\<rparr>
            in Some (ui', if hw < sb_lowat sb1 then sb1\<lparr>sb_lowat := hw\<rparr> else sb1)))"

definition sbrelease_internal :: "nat \<Rightarrow> u64 \<Rightarrow> sockbuf \<Rightarrow> (u64 \<times> sockbuf) res" where
  "sbrelease_internal fuel ui_sbsize sb = res_bind (sbflush_internal fuel sb)
     (\<lambda>sb1. case chgsbsize ui_sbsize (sb_hiwat sb1) 0 RLIM_INFINITY of
          None \<Rightarrow> Inr (ui_sbsize, sb1\<lparr>sb_mbmax := 0\<rparr>)
        | Some (ui', hw) \<Rightarrow> Inr (ui', sb1\<lparr>sb_hiwat := hw, sb_mbmax := 0\<rparr>))"

text \<open>\<open>soreserve\<close> returns 0 (\<open>True\<close>) or \<open>ENOBUFS\<close>, the charge and the send and receive buffers.\<close>

definition soreserve :: "nat \<Rightarrow> u64 \<Rightarrow> u64 \<Rightarrow> u64 \<Rightarrow> sockbuf \<Rightarrow> sockbuf \<Rightarrow> u64 \<Rightarrow> u64 \<Rightarrow>
    (bool \<times> u64 \<times> sockbuf \<times> sockbuf) res" where
  "soreserve fuel sb_max ui_sbsize lim so_snd so_rcv sndcc rcvcc =
     (case sbreserve_locked sb_max ui_sbsize (Some lim) sndcc so_snd of
        None \<Rightarrow> Inr (False, ui_sbsize, so_snd, so_rcv)
      | Some (ui1, so_snd1) \<Rightarrow>
          (case sbreserve_locked sb_max ui1 (Some lim) rcvcc so_rcv of
             None \<Rightarrow> res_bind (sbrelease_internal fuel ui1 so_snd1) (\<lambda>(ui2, so_snd2). Inr (False, ui2, so_snd2, so_rcv))
           | Some (ui2, so_rcv1) \<Rightarrow>
               let so_rcv2 = (if sb_lowat so_rcv1 = 0 then so_rcv1\<lparr>sb_lowat := 1\<rparr> else so_rcv1);
                   so_snd2 = (if sb_lowat so_snd1 = 0 then so_snd1\<lparr>sb_lowat := of_nat MCLBYTES\<rparr> else so_snd1);
                   so_snd3 = (if sb_hiwat so_snd2 < sb_lowat so_snd2 then so_snd2\<lparr>sb_lowat := sb_hiwat so_snd2\<rparr> else so_snd2)
               in Inr (True, ui2, so_snd3, so_rcv2)))"

subsection \<open>Shutdown state and export\<close>

definition socantsendmore_locked :: "sockbuf \<Rightarrow> sockbuf" where
  "socantsendmore_locked so_snd = so_snd\<lparr>sb_state := insert SBS_CANTSENDMORE (sb_state so_snd)\<rparr>"

definition socantrcvmore_locked :: "sockbuf \<Rightarrow> sockbuf" where
  "socantrcvmore_locked so_rcv = so_rcv\<lparr>sb_state := insert SBS_CANTRCVMORE (sb_state so_rcv)\<rparr>"

text \<open>\<open>sbcheck\<close>: the counters agree with the chains; a mismatch panics.\<close>

definition sbcheck :: "sockbuf \<Rightarrow> bool" where
  "sbcheck sb = (let ms = concat (sb_mb sb)
     in chain_len ms = unat (sb_cc sb) \<and>
        sum_list (map (\<lambda>m. MSIZE + (if is_ext m then length (m_buf m) else 0)) ms) = unat (sb_mbcnt sb))"

end
