(* ===== verification/Sockbuf_Inv.thy ===== *)
theory Sockbuf_Inv
  imports Sockbuf
begin

text \<open>
  The invariant of a socket buffer and what each operation does to it: the counters agree with the chains,
  the cached pointers point where the code assumes, and the byte stream changes as a queue of bytes does.
\<close>

subsection \<open>The invariant\<close>

definition mb_size :: "mbuf \<Rightarrow> nat" where
  "mb_size m = MSIZE + (if is_ext m then length (m_buf m) else 0)"

definition sb_counts :: "sockbuf \<Rightarrow> chain \<Rightarrow> bool" where
  "sb_counts sb ms = (sb_cc sb = of_nat (chain_len ms) \<and> sb_ctl sb = of_nat (chain_len (filter (\<lambda>m. is_ctl m) ms)) \<and>
     sb_mbcnt sb = of_nat (sum_list (map mb_size ms)) \<and> sb_mcnt sb = of_nat (length ms) \<and>
     sb_ccnt sb = of_nat (length (filter (\<lambda>m. is_ext m) ms)))"

definition sb_ptrs :: "sockbuf \<Rightarrow> bool" where
  "sb_ptrs sb = ((\<forall>r \<in> set (sb_mb sb). r \<noteq> []) \<and> distinct (map m_id (concat (sb_mb sb))) \<and>
     sb_mbtail sb = (if sb_mb sb = [] then None else Some (m_id (last (last (sb_mb sb))))) \<and>
     sb_lastrecord sb = (if sb_mb sb = [] then None else Some (m_id (hd (last (sb_mb sb))))))"

definition sb_snd :: "sockbuf \<Rightarrow> bool" where
  "sb_snd sb = (case sb_sndptr sb of None \<Rightarrow> sb_sndptroff sb = 0
     | Some i \<Rightarrow> (case sb_mb sb of [] \<Rightarrow> False
         | r # _ \<Rightarrow> (case find_in r i of None \<Rightarrow> False | Some (pre, _, _) \<Rightarrow> sb_sndptroff sb = of_nat (chain_len pre))))"

abbreviation holes_data :: "chain \<Rightarrow> bool" where
  "holes_data ms \<equiv> (\<forall>m \<in> set ms. is_hole m \<longrightarrow> \<not> is_ctl m)"

definition sb_ok :: "sockbuf \<Rightarrow> bool" where
  "sb_ok sb = (sb_counts sb (concat (sb_mb sb)) \<and> sb_ptrs sb \<and> sb_snd sb \<and>
     wf_chain (concat (sb_mb sb)) \<and> holes_data (concat (sb_mb sb)))"

definition sb_data :: "sockbuf \<Rightarrow> byte list" where
  "sb_data sb = chain_data (concat (sb_mb sb))"

subsection \<open>Counters\<close>

lemma sb_counts_alloc:
  assumes "sb_counts sb (xs @ ys)"
  shows "sb_counts (sballoc sb m) (xs @ m # ys)"
  using assms by (auto simp: sb_counts_def sballoc_def Let_def mb_size_def)

lemma sb_counts_free:
  assumes "sb_counts sb (xs @ m # ys)"
  shows "sb_counts (sbfree sb m) (xs @ ys)"
  using assms by (auto simp: sb_counts_def sbfree_def Let_def mb_size_def)

lemma sballoc_fields [simp]:
  "sb_mb (sballoc sb m) = sb_mb sb" "sb_mbtail (sballoc sb m) = sb_mbtail sb"
  "sb_lastrecord (sballoc sb m) = sb_lastrecord sb" "sb_sndptr (sballoc sb m) = sb_sndptr sb"
  "sb_sndptroff (sballoc sb m) = sb_sndptroff sb" "sb_flags (sballoc sb m) = sb_flags sb"
  "sb_hiwat (sballoc sb m) = sb_hiwat sb" "sb_mbmax (sballoc sb m) = sb_mbmax sb"
  by (simp_all add: sballoc_def Let_def)

lemma sbfree_fields [simp]:
  "sb_mb (sbfree sb m) = sb_mb sb" "sb_mbtail (sbfree sb m) = sb_mbtail sb"
  "sb_lastrecord (sbfree sb m) = sb_lastrecord sb" "sb_flags (sbfree sb m) = sb_flags sb"
  "sb_hiwat (sbfree sb m) = sb_hiwat sb" "sb_mbmax (sbfree sb m) = sb_mbmax sb"
  by (simp_all add: sbfree_def Let_def)

lemma sb_counts_upd [simp]:
  "sb_counts (sb\<lparr>sb_mb := x\<rparr>) ms = sb_counts sb ms" "sb_counts (sb\<lparr>sb_mbtail := t\<rparr>) ms = sb_counts sb ms"
  "sb_counts (sb\<lparr>sb_lastrecord := t\<rparr>) ms = sb_counts sb ms" "sb_counts (sb\<lparr>sb_sndptr := t\<rparr>) ms = sb_counts sb ms"
  "sb_counts (sb\<lparr>sb_sndptroff := o'\<rparr>) ms = sb_counts sb ms"
  by (simp_all add: sb_counts_def)

lemma sb_counts_eor [simp]:
  "sb_counts sb (xs @ [m\<lparr>m_flags := m_flags m - {M_EOR}\<rparr>]) = sb_counts sb (xs @ [m])"
  "sb_counts sb (xs @ set_eor e m # ys) = sb_counts sb (xs @ m # ys)"
  by (simp_all add: sb_counts_def mb_size_def set_eor_def)

lemma sb_counts_grow:
  assumes "sb_counts sb (xs @ [n])" "m_len n' = m_len n + k" "m_type n' = m_type n" "m_flags n' = m_flags n"
    "length (m_buf n') = length (m_buf n)"
  shows "sb_counts (sb\<lparr>sb_cc := sb_cc sb + of_nat k, sb_ctl := (if is_ctl n then sb_ctl sb + of_nat k else sb_ctl sb)\<rparr>)
      (xs @ [n'])"
    and "\<not> is_ctl n \<Longrightarrow> sb_counts (sb\<lparr>sb_cc := sb_cc sb + of_nat k\<rparr>) (xs @ [n'])"
  using assms by (auto simp: sb_counts_def mb_size_def)

subsection \<open>The compression loop\<close>

abbreviation opt :: "mbuf option \<Rightarrow> chain" where "opt n \<equiv> (case n of None \<Rightarrow> [] | Some x \<Rightarrow> [x])"

lemma sbcompress_loop_rule:
  assumes "P sb ms pre n eor linked"
    and drop: "\<And>sb m ms pre n eor linked. P sb (m # ms) pre n eor linked \<Longrightarrow>
      drop_empty (eor \<or> M_EOR \<in> m_flags m) m ms n \<Longrightarrow>
      P (if sb_lastrecord sb = Some (m_id m) then sb\<lparr>sb_lastrecord := id_of ms\<rparr> else sb) ms pre n
        (eor \<or> M_EOR \<in> m_flags m) linked"
    and start: "\<And>sb m ms pre eor linked. P sb (m # ms) pre None eor linked \<Longrightarrow>
      P (sballoc (sb\<lparr>sb_mbtail := Some (m_id m)\<rparr>) m) ms pre (Some (m\<lparr>m_flags := m_flags m - {M_EOR}\<rparr>))
        (eor \<or> M_EOR \<in> m_flags m) True"
    and hole: "\<And>sb m ms pre n0 eor linked. P sb (m # ms) pre (Some n0) eor linked \<Longrightarrow> may_coalesce sb n0 m \<Longrightarrow>
      is_hole n0 \<Longrightarrow> P (sb\<lparr>sb_cc := sb_cc sb + of_nat (m_len m)\<rparr>) ms pre (Some (n0\<lparr>m_len := m_len n0 + m_len m\<rparr>))
        (eor \<or> M_EOR \<in> m_flags m) linked"
    and copy: "\<And>sb m ms pre n0 eor linked. P sb (m # ms) pre (Some n0) eor linked \<Longrightarrow> may_coalesce sb n0 m \<Longrightarrow>
      \<not> is_hole n0 \<Longrightarrow> m_off m + m_len m \<le> length (m_buf m) \<Longrightarrow>
      P (sb\<lparr>sb_cc := sb_cc sb + of_nat (m_len m), sb_ctl := (if is_ctl m then sb_ctl sb + of_nat (m_len m) else sb_ctl sb)\<rparr>)
        ms pre (Some (n0\<lparr>m_buf := poke (m_off n0 + m_len n0) (m_bytes m 0 (m_len m)) (m_buf n0),
                         m_len := m_len n0 + m_len m\<rparr>)) (eor \<or> M_EOR \<in> m_flags m) linked"
    and link: "\<And>sb m ms pre n0 eor linked. P sb (m # ms) pre (Some n0) eor linked \<Longrightarrow>
      P (sballoc (sb\<lparr>sb_mbtail := Some (m_id m)\<rparr>) m) ms (pre @ [n0]) (Some (m\<lparr>m_flags := m_flags m - {M_EOR}\<rparr>))
        (eor \<or> M_EOR \<in> m_flags m) True"
    and run: "sbcompress_loop sb ms pre n eor linked = Inr (sb', pre', n', eor', linked')"
  shows "P sb' [] pre' n' eor' linked'"
  using assms(1) run
proof (induction ms arbitrary: sb pre n eor linked)
  case Nil
  then show ?case by simp
next
  case (Cons m ms)
  let ?eor = "eor \<or> M_EOR \<in> m_flags m"
  note IH = Cons.IH and run = Cons.prems(2)[unfolded sbcompress_loop.simps Let_def]
  show ?case
  proof (cases "drop_empty ?eor m ms n")
    case True
    show ?thesis by (rule IH[OF drop[OF Cons.prems(1) True] run[unfolded if_P[OF True]]])
  next
    case keep: False
    note run1 = run[unfolded if_not_P[OF keep]]
    show ?thesis
    proof (cases n)
      case None
      show ?thesis
        by (rule IH[OF start[OF Cons.prems(1)[unfolded None]] run1[unfolded None option.case]])
    next
      case (Some n0)
      note p = Cons.prems(1)[unfolded Some] and run2 = run1[unfolded Some option.case]
      consider (hole) "may_coalesce sb n0 m \<and> is_hole n0"
        | (copy) "\<not> (may_coalesce sb n0 m \<and> is_hole n0)" "may_coalesce sb n0 m \<and> m_len m \<le> MCLBYTES div 4"
        | (link) "\<not> (may_coalesce sb n0 m \<and> is_hole n0)" "\<not> (may_coalesce sb n0 m \<and> m_len m \<le> MCLBYTES div 4)"
        by blast
      then show ?thesis
      proof cases
        case hole
        show ?thesis by (rule IH[OF assms(4)[OF p] run2[unfolded if_P[OF hole]]]) (use hole in auto)
      next
        case copy
        note run3 = run2[unfolded if_not_P[OF copy(1)] if_P[OF copy(2)]]
        then have room: "\<not> length (m_buf m) < m_off m + m_len m" by (auto split: if_splits)
        show ?thesis by (rule IH[OF assms(5)[OF p] run3[unfolded if_not_P[OF room]]]) (use copy room in auto)
      next
        case link
        show ?thesis by (rule IH[OF assms(6)[OF p] run2[unfolded if_not_P[OF link(1)] if_not_P[OF link(2)]]])
      qed
    qed
  qed
qed

lemma sbcompress_loop_total:
  assumes "\<forall>x \<in> set ms. wf_mbuf x \<and> is_hole x = h" "\<forall>x \<in> set (opt n). is_hole x = h"
  shows "\<exists>sb' pre' n' eor' linked'. sbcompress_loop sb ms pre n eor linked = Inr (sb', pre', n', eor', linked')"
  using assms
proof (induction ms arbitrary: sb pre n eor linked)
  case Nil
  then show ?case by simp
next
  case (Cons m ms)
  have ms: "\<forall>x \<in> set ms. wf_mbuf x \<and> is_hole x = h" and m: "wf_mbuf m" "is_hole m = h" using Cons.prems by auto
  note IH = Cons.IH[OF ms]
  have room: "\<not> length (m_buf m) < m_off m + m_len m" if "\<not> h" using m that by (simp add: wf_mbuf_def)
  show ?case
  proof (cases n)
    case None
    with IH m show ?thesis by (simp add: Let_def)
  next
    case (Some n0)
    with Cons.prems have h: "is_hole n0 = h" using Some by simp
    show ?thesis
    proof (cases "drop_empty (eor \<or> M_EOR \<in> m_flags m) m ms n")
      case True
      show ?thesis unfolding sbcompress_loop.simps Let_def if_P[OF True] by (rule IH[OF Cons.prems(2)])
    next
      case keep: False
      show ?thesis
      proof (cases h)
        case True
        have "sbcompress_loop sb (m # ms) pre n eor linked =
           (if may_coalesce sb n0 m then sbcompress_loop (sb\<lparr>sb_cc := sb_cc sb + of_nat (m_len m)\<rparr>) ms pre
                (Some (n0\<lparr>m_len := m_len n0 + m_len m\<rparr>)) (eor \<or> M_EOR \<in> m_flags m) linked
            else sbcompress_loop (sballoc (sb\<lparr>sb_mbtail := Some (m_id m)\<rparr>) m) ms (pre @ [n0])
                (Some (m\<lparr>m_flags := m_flags m - {M_EOR}\<rparr>)) (eor \<or> M_EOR \<in> m_flags m) True)"
          unfolding sbcompress_loop.simps Let_def Some if_not_P[OF keep[unfolded Some]] option.case using True h by simp
        with IH True h m show ?thesis by simp
      next
        case False
        let ?sb = "sb\<lparr>sb_cc := sb_cc sb + of_nat (m_len m),
            sb_ctl := (if is_ctl m then sb_ctl sb + of_nat (m_len m) else sb_ctl sb)\<rparr>"
        have "sbcompress_loop sb (m # ms) pre n eor linked =
           (if may_coalesce sb n0 m \<and> m_len m \<le> MCLBYTES div 4 then sbcompress_loop ?sb ms pre
                (Some (n0\<lparr>m_buf := poke (m_off n0 + m_len n0) (m_bytes m 0 (m_len m)) (m_buf n0),
                          m_len := m_len n0 + m_len m\<rparr>)) (eor \<or> M_EOR \<in> m_flags m) linked
            else sbcompress_loop (sballoc (sb\<lparr>sb_mbtail := Some (m_id m)\<rparr>) m) ms (pre @ [n0])
                (Some (m\<lparr>m_flags := m_flags m - {M_EOR}\<rparr>)) (eor \<or> M_EOR \<in> m_flags m) True)"
          unfolding sbcompress_loop.simps Let_def Some if_not_P[OF keep[unfolded Some]] option.case
            if_not_P[OF room[OF False]] using False h by simp
        with IH False h m show ?thesis by simp
      qed
    qed
  qed
qed

lemma may_coalesce_room:
  assumes "may_coalesce sb n m" "wf_mbuf n"
  shows "\<not> is_hole n \<Longrightarrow> m_off n + m_len n + m_len m \<le> length (m_buf n)"
    and "is_hole n \<Longrightarrow> m_len n + m_len m \<le> INT_MAX"
proof -
  show "m_off n + m_len n + m_len m \<le> length (m_buf n)" if "\<not> is_hole n"
    using trailing_room[OF assms(2) that] assms(1) by (simp add: may_coalesce_def)
  show "m_len n + m_len m \<le> INT_MAX" if "is_hole n"
    using that assms by (auto simp: may_coalesce_def M_TRAILINGSPACE_def wf_mbuf_def split: if_splits)
qed

lemma mbuf_join_hole:
  assumes "wf_mbuf n" "is_hole n" "is_hole m" "m_len n + m_len m \<le> INT_MAX"
  shows "mbuf_data (n\<lparr>m_len := m_len n + m_len m\<rparr>) = mbuf_data n @ mbuf_data m"
    "wf_mbuf (n\<lparr>m_len := m_len n + m_len m\<rparr>)"
  using assms by (auto simp: mbuf_data_def wf_mbuf_def replicate_add)

lemma mbuf_join_copy:
  assumes "wf_mbuf n" "\<not> is_hole n" "wf_mbuf m" "\<not> is_hole m" "m_off n + m_len n + m_len m \<le> length (m_buf n)"
  shows "mbuf_data (n\<lparr>m_buf := poke (m_off n + m_len n) (m_bytes m 0 (m_len m)) (m_buf n), m_len := m_len n + m_len m\<rparr>)
      = mbuf_data n @ mbuf_data m"
    "wf_mbuf (n\<lparr>m_buf := poke (m_off n + m_len n) (m_bytes m 0 (m_len m)) (m_buf n), m_len := m_len n + m_len m\<rparr>)"
proof -
  have l: "length (m_bytes m 0 (m_len m)) = m_len m"
    using assms(3,4) by (simp add: length_m_bytes wf_mbuf_def)
  have d: "mbuf_data m = m_bytes m 0 (m_len m)" using assms(4) by (simp add: mbuf_data_def)
  show "mbuf_data (n\<lparr>m_buf := poke (m_off n + m_len n) (m_bytes m 0 (m_len m)) (m_buf n), m_len := m_len n + m_len m\<rparr>)
      = mbuf_data n @ mbuf_data m"
    "wf_mbuf (n\<lparr>m_buf := poke (m_off n + m_len n) (m_bytes m 0 (m_len m)) (m_buf n), m_len := m_len n + m_len m\<rparr>)"
    using mbuf_extend[OF assms(1,2), of "m_bytes m 0 (m_len m)"] assms(5) unfolding l d by simp_all
qed

lemma mbuf_eor [simp]:
  "mbuf_data (m\<lparr>m_flags := m_flags m - {M_EOR}\<rparr>) = mbuf_data m"
  "wf_mbuf (m\<lparr>m_flags := m_flags m - {M_EOR}\<rparr>) = wf_mbuf m"
  "mbuf_data (set_eor e m) = mbuf_data m" "wf_mbuf (set_eor e m) = wf_mbuf m" "m_id (set_eor e m) = m_id m"
  "m_len (set_eor e m) = m_len m" "m_type (set_eor e m) = m_type m" "is_hole (set_eor e m) = is_hole m"
  "is_ext (set_eor e m) = is_ext m" "m_buf (set_eor e m) = m_buf m"
  by (auto simp: mbuf_data_def m_bytes_def wf_mbuf_def set_eor_def)

lemma drop_empty_len: "drop_empty e m ms n \<Longrightarrow> m_len m = 0"
  by (simp add: drop_empty_def)

text \<open>When the tail and the new mbufs are all data or all hole, the bytes are appended.\<close>

lemma sbcompress_loop_data:
  assumes "wf_chain (pre @ opt n @ ms)" "\<forall>x \<in> set (opt n @ ms). is_hole x = h"
    and run: "sbcompress_loop sb ms pre n eor linked = Inr (sb', pre', n', eor', linked')"
  shows "wf_chain (pre' @ opt n') \<and> (\<forall>x \<in> set (opt n'). is_hole x = h) \<and>
    chain_data (pre' @ opt n') = chain_data (pre @ opt n @ ms)"
proof -
  define P where "P sb' ms' pre' n' e l \<longleftrightarrow> wf_chain (pre' @ opt n' @ ms') \<and> (\<forall>x \<in> set (opt n' @ ms'). is_hole x = h) \<and>
     chain_data (pre' @ opt n' @ ms') = chain_data (pre @ opt n @ ms)" for sb' :: sockbuf and ms' pre' n' and e l :: bool
  have "P sb' [] pre' n' eor' linked'"
  proof (rule sbcompress_loop_rule[where P = P, OF _ _ _ _ _ _ run])
    show "P sb ms pre n eor linked" using assms by (simp add: P_def)
  next
    fix sb :: sockbuf and m ms' pre' n0 and e l :: bool
    assume p: "P sb (m # ms') pre' (Some n0) e l" and c: "may_coalesce sb n0 m" and nh: "\<not> is_hole n0"
    then have wf: "wf_mbuf n0" "wf_mbuf m" and mh: "\<not> is_hole m" by (auto simp: P_def)
    note room = may_coalesce_room(1)[OF c wf(1) nh]
    from p mbuf_join_copy[OF wf(1) nh wf(2) mh room]
    show "P (sb\<lparr>sb_cc := sb_cc sb + of_nat (m_len m),
          sb_ctl := (if is_ctl m then sb_ctl sb + of_nat (m_len m) else sb_ctl sb)\<rparr>)
        ms' pre' (Some (n0\<lparr>m_buf := poke (m_off n0 + m_len n0) (m_bytes m 0 (m_len m)) (m_buf n0),
                         m_len := m_len n0 + m_len m\<rparr>)) (e \<or> M_EOR \<in> m_flags m) l"
      by (auto simp: P_def)
  next
    fix sb :: sockbuf and m ms' pre' n0 and e l :: bool
    assume p: "P sb (m # ms') pre' (Some n0) e l" and c: "may_coalesce sb n0 m" and nh: "is_hole n0"
    then have wf: "wf_mbuf n0" and mh: "is_hole m" by (auto simp: P_def)
    from p mbuf_join_hole[OF wf nh mh may_coalesce_room(2)[OF c wf nh]]
    show "P (sb\<lparr>sb_cc := sb_cc sb + of_nat (m_len m)\<rparr>) ms' pre' (Some (n0\<lparr>m_len := m_len n0 + m_len m\<rparr>))
        (e \<or> M_EOR \<in> m_flags m) l" by (auto simp: P_def)
  qed (auto simp: P_def mbuf_data_empty dest: drop_empty_len split: option.splits)
  then show ?thesis by (simp add: P_def)
qed

text \<open>Every step keeps the counters in agreement with the chain built so far, whatever else (\<open>oth\<close>) the
  buffer holds.\<close>

lemma sbcompress_loop_counts:
  assumes "sb_counts sb (oth @ pre @ opt n)" "holes_data (pre @ opt n @ ms)" "wf_chain (pre @ opt n @ ms)"
    and run: "sbcompress_loop sb ms pre n eor linked = Inr (sb', pre', n', eor', linked')"
  shows "sb_counts sb' (oth @ pre' @ opt n') \<and> holes_data (pre' @ opt n') \<and> wf_chain (pre' @ opt n')"
proof -
  define P where "P sb' ms' pre' n' e l \<longleftrightarrow> sb_counts sb' (oth @ pre' @ opt n') \<and> holes_data (pre' @ opt n' @ ms') \<and>
     wf_chain (pre' @ opt n' @ ms')"
    for sb' ms' pre' n' and e l :: bool
  have "P sb' [] pre' n' eor' linked'"
  proof (rule sbcompress_loop_rule[where P = P, OF _ _ _ _ _ _ run])
    show "P sb ms pre n eor linked" using assms by (simp add: P_def)
  next
    fix sb :: sockbuf and m ms' pre' n0 and e l :: bool
    assume p: "P sb (m # ms') pre' (Some n0) e l"
    have "sb_counts (sballoc (sb\<lparr>sb_mbtail := Some (m_id m)\<rparr>) m) ((oth @ pre' @ [n0]) @ [m])"
      by (rule sb_counts_alloc) (use p in \<open>simp add: P_def\<close>)
    with p sb_counts_eor(1)[of _ "oth @ pre' @ [n0]" m]
    show "P (sballoc (sb\<lparr>sb_mbtail := Some (m_id m)\<rparr>) m) ms' (pre' @ [n0]) (Some (m\<lparr>m_flags := m_flags m - {M_EOR}\<rparr>))
        (e \<or> M_EOR \<in> m_flags m) True"
      by (simp add: P_def)
  next
    fix sb :: sockbuf and m ms' pre' and e l :: bool
    assume p: "P sb (m # ms') pre' None e l"
    have "sb_counts (sballoc (sb\<lparr>sb_mbtail := Some (m_id m)\<rparr>) m) ((oth @ pre') @ [m])"
      by (rule sb_counts_alloc) (use p in \<open>simp add: P_def\<close>)
    with p sb_counts_eor(1)[of _ "oth @ pre'" m]
    show "P (sballoc (sb\<lparr>sb_mbtail := Some (m_id m)\<rparr>) m) ms' pre' (Some (m\<lparr>m_flags := m_flags m - {M_EOR}\<rparr>))
        (e \<or> M_EOR \<in> m_flags m) True"
      by (simp add: P_def)
  next
    fix sb :: sockbuf and m ms' pre' n0 and e l :: bool
    assume p: "P sb (m # ms') pre' (Some n0) e l" and c: "may_coalesce sb n0 m" and h: "is_hole n0"
    then have "sb_counts sb ((oth @ pre') @ [n0])" "\<not> is_ctl n0" and wf: "wf_mbuf n0" by (simp_all add: P_def)
    have "wf_mbuf (n0\<lparr>m_len := m_len n0 + m_len m\<rparr>)" using may_coalesce_room(2)[OF c wf h] h wf by (simp add: wf_mbuf_def)
    moreover note \<open>sb_counts sb ((oth @ pre') @ [n0])\<close> \<open>\<not> is_ctl n0\<close>
    ultimately have "sb_counts (sb\<lparr>sb_cc := sb_cc sb + of_nat (m_len m)\<rparr>) ((oth @ pre') @ [n0\<lparr>m_len := m_len n0 + m_len m\<rparr>]) \<and>
        wf_mbuf (n0\<lparr>m_len := m_len n0 + m_len m\<rparr>)"
      by (intro conjI sb_counts_grow(2)[where n = n0]) simp_all
    with p
    show "P (sb\<lparr>sb_cc := sb_cc sb + of_nat (m_len m)\<rparr>) ms' pre' (Some (n0\<lparr>m_len := m_len n0 + m_len m\<rparr>))
        (e \<or> M_EOR \<in> m_flags m) l" by (simp add: P_def)
  next
    fix sb :: sockbuf and m ms' pre' n0 and e l :: bool
    assume p: "P sb (m # ms') pre' (Some n0) e l" and c: "may_coalesce sb n0 m" and nh: "\<not> is_hole n0"
      and room: "m_off m + m_len m \<le> length (m_buf m)"
    let ?n = "n0\<lparr>m_buf := poke (m_off n0 + m_len n0) (m_bytes m 0 (m_len m)) (m_buf n0), m_len := m_len n0 + m_len m\<rparr>"
    have l: "length (m_bytes m 0 (m_len m)) = m_len m" using room by (simp add: length_m_bytes)
    have wf: "wf_mbuf n0" using p by (simp add: P_def)
    note fit = may_coalesce_room(1)[OF c wf nh]
    have wf': "wf_mbuf ?n" using mbuf_extend(2)[OF wf nh, of "m_bytes m 0 (m_len m)"] fit unfolding l by blast
    have "length (m_buf ?n) = length (m_buf n0)" using fit by (simp add: l)
    moreover have "sb_counts sb ((oth @ pre') @ [n0])" using p by (simp add: P_def)
    ultimately have "sb_counts (sb\<lparr>sb_cc := sb_cc sb + of_nat (m_len m),
          sb_ctl := (if is_ctl n0 then sb_ctl sb + of_nat (m_len m) else sb_ctl sb)\<rparr>) ((oth @ pre') @ [?n])"
      by (intro sb_counts_grow(1)) simp_all
    moreover have "m_type n0 = m_type m" using c by (simp add: may_coalesce_def)
    ultimately show "P (sb\<lparr>sb_cc := sb_cc sb + of_nat (m_len m),
          sb_ctl := (if is_ctl m then sb_ctl sb + of_nat (m_len m) else sb_ctl sb)\<rparr>)
        ms' pre' (Some ?n) (e \<or> M_EOR \<in> m_flags m) l" using p wf' by (simp add: P_def)
  next
    fix sb :: sockbuf and m ms' pre' n0 and e l :: bool
    assume "P sb (m # ms') pre' n0 e l"
    then show "P (if sb_lastrecord sb = Some (m_id m) then sb\<lparr>sb_lastrecord := id_of ms'\<rparr> else sb) ms' pre' n0
        (e \<or> M_EOR \<in> m_flags m) l" by (simp add: P_def)
  qed
  then show ?thesis by (simp add: P_def)
qed

lemma sbcompress_loop_frame:
  assumes run: "sbcompress_loop sb ms pre n eor linked = Inr (sb', pre', n', eor', linked')"
  shows "sb_mb sb' = sb_mb sb \<and> sb_sndptr sb' = sb_sndptr sb \<and> sb_sndptroff sb' = sb_sndptroff sb \<and>
    sb_flags sb' = sb_flags sb \<and> sb_hiwat sb' = sb_hiwat sb \<and> sb_mbmax sb' = sb_mbmax sb"
  by (rule sbcompress_loop_rule[where P = "\<lambda>sb' _ _ _ _ _. sb_mb sb' = sb_mb sb \<and> sb_sndptr sb' = sb_sndptr sb \<and>
    sb_sndptroff sb' = sb_sndptroff sb \<and> sb_flags sb' = sb_flags sb \<and> sb_hiwat sb' = sb_hiwat sb \<and> sb_mbmax sb' = sb_mbmax sb",
    OF _ _ _ _ _ _ run]) simp_all

lemma sbcompress_loop_tail:
  assumes "n \<noteq> None \<longrightarrow> sb_mbtail sb = map_option m_id n" "eor \<longrightarrow> n \<noteq> None \<or> ms \<noteq> []"
    and run: "sbcompress_loop sb ms pre n eor linked = Inr (sb', pre', n', eor', linked')"
  shows "sb_mbtail sb' = (if n' = None then sb_mbtail sb else map_option m_id n') \<and> (eor' \<longrightarrow> n' \<noteq> None) \<and>
    (n \<noteq> None \<longrightarrow> n' \<noteq> None)"
proof -
  define P where "P sb' ms' pre' n' e l \<longleftrightarrow> sb_mbtail sb' = (if n' = None then sb_mbtail sb else map_option m_id n') \<and>
     (e \<longrightarrow> n' \<noteq> None \<or> ms' \<noteq> []) \<and> (n \<noteq> None \<longrightarrow> n' \<noteq> None)"
     for sb' :: sockbuf and ms' pre' :: chain and n' :: "mbuf option" and e l :: bool
  have "P sb' [] pre' n' eor' linked'"
    by (rule sbcompress_loop_rule[where P = P, OF _ _ _ _ _ _ run]; use assms(1,2) in
      \<open>simp add: P_def drop_empty_def split: if_splits option.splits list.splits\<close>)
  then show ?thesis by (simp add: P_def)
qed

lemma sbcompress_loop_ids:
  assumes "distinct (map m_id (pre @ opt n @ ms))"
    and run: "sbcompress_loop sb ms pre n eor linked = Inr (sb', pre', n', eor', linked')"
  shows "distinct (map m_id (pre' @ opt n')) \<and> m_id ` set (pre' @ opt n') \<subseteq> m_id ` set (pre @ opt n @ ms)"
proof -
  define P where "P sb' ms' pre' n' e l \<longleftrightarrow> distinct (map m_id pre' @ map m_id (opt n') @ map m_id ms') \<and>
     m_id ` set pre' \<union> m_id ` set (opt n') \<union> m_id ` set ms' \<subseteq> m_id ` set (pre @ opt n @ ms)"
     for sb' :: sockbuf and ms' pre' :: chain and n' :: "mbuf option" and e l :: bool
  have "P sb' [] pre' n' eor' linked'"
  proof (rule sbcompress_loop_rule[where P = P, OF _ _ _ _ _ _ run])
    show "P sb ms pre n eor linked" using assms(1) by (auto simp: P_def)
  qed (simp_all add: P_def)
  then show ?thesis by (simp add: P_def image_Un)
qed

text \<open>The mbufs before the tail stay where they are, and so does the address of the tail.\<close>

lemma sbcompress_loop_anchor:
  assumes run: "sbcompress_loop sb ms pre (Some n0) eor linked = Inr (sb', pre', n', eor', linked')"
  shows "\<exists>x q. pre' @ opt n' = pre @ x # q \<and> m_id x = m_id n0"
proof -
  define P where "P sb' ms' pre' n' e l \<longleftrightarrow> map_option m_id n' = Some (m_id n0) \<and> pre' = pre \<or>
     n' \<noteq> None \<and> (\<exists>x q. pre' = pre @ x # q \<and> m_id x = m_id n0)"
     for sb' :: sockbuf and ms' pre' :: chain and n' :: "mbuf option" and e l :: bool
  have "P sb' [] pre' n' eor' linked'"
  proof (rule sbcompress_loop_rule[where P = P, OF _ _ _ _ _ _ run])
    show "P sb ms pre (Some n0) eor linked" by (simp add: P_def)
  qed (auto simp: P_def)
  then show ?thesis by (auto simp: P_def)
qed

lemma sbcompress_loop_lastrecord:
  assumes "sb_lastrecord sb \<notin> Some ` m_id ` set ms"
    and run: "sbcompress_loop sb ms pre n eor linked = Inr (sb', pre', n', eor', linked')"
  shows "sb_lastrecord sb' = sb_lastrecord sb"
proof -
  define P where "P sb' ms' pre' n' e l \<longleftrightarrow> sb_lastrecord sb' = sb_lastrecord sb \<and> sb_lastrecord sb \<notin> Some ` m_id ` set ms'"
     for sb' :: sockbuf and ms' pre' :: chain and n' :: "mbuf option" and e l :: bool
  have "P sb' [] pre' n' eor' linked'"
  proof (rule sbcompress_loop_rule[where P = P, OF _ _ _ _ _ _ run])
    show "P sb ms pre n eor linked" using assms(1) by (simp add: P_def)
  qed (auto simp: P_def)
  then show ?thesis by (simp add: P_def)
qed

lemma id_of_append: "id_of (xs @ y # zs) = (case xs of [] \<Rightarrow> Some (m_id y) | x # _ \<Rightarrow> Some (m_id x))"
  by (cases xs) simp_all

lemma sbcompress_loop_firstrecord:
  assumes "distinct (map m_id ms)" "sb_lastrecord sb = id_of ms"
    and run: "sbcompress_loop sb ms [] None eor linked = Inr (sb', pre', n', eor', linked')"
  shows "sb_lastrecord sb' = id_of (pre' @ opt n')"
proof -
  define P where "P sb' ms' pre' n' e l \<longleftrightarrow> distinct (map m_id pre' @ map m_id (opt n') @ map m_id ms') \<and>
     (n' = None \<longrightarrow> pre' = []) \<and> sb_lastrecord sb' = id_of (pre' @ opt n' @ ms')"
     for sb' :: sockbuf and ms' pre' :: chain and n' :: "mbuf option" and e l :: bool
  have "P sb' [] pre' n' eor' linked'"
  proof (rule sbcompress_loop_rule[where P = P, OF _ _ _ _ _ _ run])
    show "P sb ms [] None eor linked" using assms(1,2) by (simp add: P_def)
  next
    fix sb m ms' pre' n and e l :: bool
    assume "P sb (m # ms') pre' n e l"
    then show "P (if sb_lastrecord sb = Some (m_id m) then sb\<lparr>sb_lastrecord := id_of ms'\<rparr> else sb) ms' pre' n
        (e \<or> M_EOR \<in> m_flags m) l"
      by (cases n; cases pre') (auto simp: P_def)
  qed (auto simp: P_def id_of_append split: list.splits)
  then show ?thesis by (simp add: P_def)
qed


subsection \<open>Finding mbufs\<close>

lemma find_in_append: "m_id x \<notin> m_id ` set pre \<Longrightarrow> find_in (pre @ x # post) (m_id x) = Some (pre, x, post)"
  by (induction pre) auto

lemma find_in_None: "find_in r i = None \<longleftrightarrow> i \<notin> m_id ` set r"
  by (induction r) auto

lemma find_in_Some: "find_in r i = Some (pre, x, post) \<Longrightarrow> r = pre @ x # post \<and> m_id x = i"
  by (induction r arbitrary: pre) (auto split: if_splits)

lemma find_in_anchor:
  "find_in (pre0 @ [x0]) i = Some (p, y, z) \<Longrightarrow> m_id x = m_id x0 \<Longrightarrow> \<exists>y' z'. find_in (pre0 @ x # q) i = Some (p, y', z')"
  by (induction pre0 arbitrary: p) (auto split: if_splits)

lemma find_mb_last:
  assumes "rs \<noteq> []" "last rs \<noteq> []" "distinct (map m_id (concat rs))"
  shows "find_mb rs (m_id (last (last rs))) = Some (butlast rs, butlast (last rs), last (last rs), [], [])"
  using assms
proof (induction rs)
  case (Cons r rs)
  show ?case
  proof (cases "rs = []")
    case True
    then obtain b l where r: "r = b @ [l]" using Cons.prems(2) by (cases r rule: rev_cases) auto
    then have "m_id l \<notin> m_id ` set b" using Cons.prems(3) True by auto
    from find_in_append[OF this, of "[]"] r True show ?thesis by simp
  next
    case False
    then have "last (last rs) \<in> set (concat rs)" using Cons.prems by (auto intro!: bexI[of _ "last rs"])
    then have "find_in r (m_id (last (last rs))) = None" using Cons.prems(3) by (auto simp: find_in_None)
    with False Cons show ?thesis by auto
  qed
qed simp

subsection \<open>Appending behind the tail\<close>

definition fresh :: "chain \<Rightarrow> sockbuf \<Rightarrow> bool" where
  "fresh m sb = (wf_chain m \<and> holes_data m \<and> distinct (map m_id m) \<and>
     m_id ` set m \<inter> m_id ` set (concat (sb_mb sb)) = {})"

lemma sb_snd_anchor:
  assumes "sb_snd sb" "sb_mb sb = rb @ [pre0 @ [x0]]" "m_id x = m_id x0"
    "sb_mb sb' = rb @ [pre0 @ x # q]" "sb_sndptr sb' = sb_sndptr sb" "sb_sndptroff sb' = sb_sndptroff sb"
  shows "sb_snd sb'"
proof (cases rb)
  case Nil
  with assms show ?thesis
    by (auto simp: sb_snd_def split: option.splits dest!: find_in_anchor[OF _ assms(3), of _ _ _ _ _ q])
next
  case (Cons r rs)
  show ?thesis using assms(1) unfolding sb_snd_def assms(2,4-6) Cons append_Cons list.case .
qed

lemma sbcompress_tail_eq:
  assumes "sb_ptrs sb" "sb_mb sb \<noteq> []"
  shows "sbcompress sb m (sb_mbtail sb) =
    res_bind (sbcompress_loop sb m (butlast (last (sb_mb sb))) (Some (last (last (sb_mb sb)))) False False)
      (\<lambda>(sb', pre, n', eor, linked). case n' of None \<Rightarrow> Inl Null_deref
         | Some x \<Rightarrow> Inr (sb'\<lparr>sb_mb := butlast (sb_mb sb) @ [pre @ [set_eor eor x]]\<rparr>))"
  using assms find_mb_last[of "sb_mb sb"]
  by (simp add: sbcompress_def sb_ptrs_def cong: option.case_cong)


lemma sbcompress_tail_run:
  assumes ok: "sb_ok sb" and ne: "sb_mb sb \<noteq> []" and fr: "fresh m sb"
    and run: "sbcompress sb m (sb_mbtail sb) = Inr sb'"
  obtains rb pre0 x0 sb1 pre x eor linked where "sb_mb sb = rb @ [pre0 @ [x0]]"
    "sbcompress_loop sb m pre0 (Some x0) False False = Inr (sb1, pre, Some x, eor, linked)"
    "sb' = sb1\<lparr>sb_mb := rb @ [pre @ [set_eor eor x]]\<rparr>"
proof -
  have p: "sb_ptrs sb" using ok by (simp add: sb_ok_def)
  obtain rb r where rs: "sb_mb sb = rb @ [r]" using ne by (cases "sb_mb sb" rule: rev_cases) auto
  obtain pre0 x0 where r: "r = pre0 @ [x0]" using p rs by (cases r rule: rev_cases) (auto simp: sb_ptrs_def)
  from run[unfolded sbcompress_tail_eq[OF p ne]] rs r
  obtain sb1 pre x eor linked where "sbcompress_loop sb m pre0 (Some x0) False False = Inr (sb1, pre, Some x, eor, linked)"
    "sb' = sb1\<lparr>sb_mb := rb @ [pre @ [set_eor eor x]]\<rparr>"
    by (auto simp: res_bind_Inr split: option.splits)
  with rs r show ?thesis by (intro that) auto
qed

lemma ids_disjoint:
  assumes "A \<inter> m_id ` set (xs @ [y]) = {}" "m_id ` set m \<inter> A = {}" "m_id ` set zs \<subseteq> m_id ` set (xs @ y # m)"
  shows "A \<inter> m_id ` set zs = {}"
proof -
  have "m_id ` set (xs @ y # m) = m_id ` set (xs @ [y]) \<union> m_id ` set m" by auto
  with assms(3) have "m_id ` set zs \<subseteq> m_id ` set (xs @ [y]) \<union> m_id ` set m" by (simp only:)
  with assms(1,2) show ?thesis by (simp only: disjoint_iff subset_iff Un_iff) metis
qed

lemma tail_ids:
  assumes "sb_ptrs sb" "sb_mb sb = rb @ [pre0 @ [x0]]" "fresh m sb"
  shows "distinct (map m_id (pre0 @ opt (Some x0) @ m))"
proof -
  have d: "distinct (map m_id (pre0 @ [x0]))" using assms(1,2) by (simp add: sb_ptrs_def)
  have "m_id ` set (pre0 @ [x0]) \<subseteq> m_id ` set (concat (sb_mb sb))" unfolding assms(2) by auto
  then have "m_id ` set (pre0 @ [x0]) \<inter> m_id ` set m = {}" using assms(3) unfolding fresh_def by blast
  then have "distinct (map m_id ((pre0 @ [x0]) @ m))"
    using d assms(3) unfolding map_append distinct_append fresh_def set_map by simp
  then show ?thesis by simp
qed

lemma sbcompress_tail_ok:
  assumes ok: "sb_ok sb" and ne: "sb_mb sb \<noteq> []" and fr: "fresh m sb"
    and run: "sbcompress sb m (sb_mbtail sb) = Inr sb'"
  shows "sb_ok sb' \<and> length (sb_mb sb') = length (sb_mb sb)"
  using assms
proof (cases rule: sbcompress_tail_run)
  case (1 rb pre0 x0 sb1 pre x eor linked)
  note rs = 1(1) and lp = 1(2) and sb' = 1(3)
  let ?oth = "concat rb"
  have wf: "wf_chain (pre0 @ opt (Some x0) @ m)" "holes_data (pre0 @ opt (Some x0) @ m)"
    and cnt: "sb_counts sb (?oth @ pre0 @ opt (Some x0))" and snd: "sb_snd sb"
    and tl: "Some x0 \<noteq> None \<longrightarrow> sb_mbtail sb = map_option m_id (Some x0)"
    using ok fr rs by (auto simp: sb_ok_def fresh_def sb_ptrs_def)
  have dist: "distinct (map m_id (pre0 @ opt (Some x0) @ m))" using ok by (intro tail_ids[OF _ rs fr]) (simp add: sb_ok_def)
  have C: "sb_counts sb1 (?oth @ pre @ [x])" "holes_data (pre @ [x])" "wf_chain (pre @ [x])"
    using sbcompress_loop_counts[OF cnt wf(2,1) lp] by auto
  have F: "sb_mb sb1 = sb_mb sb" "sb_sndptr sb1 = sb_sndptr sb" "sb_sndptroff sb1 = sb_sndptroff sb"
    using sbcompress_loop_frame[OF lp] by auto
  have T: "sb_mbtail sb1 = Some (m_id x)" using sbcompress_loop_tail[OF tl _ lp] by simp
  obtain y q where an: "pre @ [x] = pre0 @ y # q" "m_id y = m_id x0" using sbcompress_loop_anchor[OF lp] by auto
  then obtain z q' where an': "pre @ [set_eor eor x] = pre0 @ z # q'" "m_id z = m_id x0"
    by (cases q rule: rev_cases) auto
  have I: "distinct (map m_id (pre @ [x]))" "m_id ` set (pre @ [x]) \<subseteq> m_id ` set (pre0 @ x0 # m)"
    using sbcompress_loop_ids[OF dist lp] by auto
  have "sb_lastrecord sb = Some (m_id (hd (pre0 @ [x0])))" using ok rs by (auto simp: sb_ok_def sb_ptrs_def)
  moreover have "m_id (hd (pre0 @ [x0])) \<notin> m_id ` set m"
    using dist by (cases pre0) auto
  ultimately have L: "sb_lastrecord sb1 = Some (m_id (hd (pre0 @ [x0])))"
    using sbcompress_loop_lastrecord[OF _ lp] by auto
  have hd: "m_id (hd (pre @ [set_eor eor x])) = m_id (hd (pre0 @ [x0]))" unfolding an'(1) using an'(2) by (cases pre0) auto
  have D: "distinct (map m_id (?oth @ pre @ [x]))"
  proof -
    have "distinct (map m_id (concat (sb_mb sb)))" using ok by (simp add: sb_ok_def sb_ptrs_def)
    then have "distinct (map m_id ?oth)" "m_id ` set ?oth \<inter> m_id ` set (pre0 @ [x0]) = {}"
      unfolding rs concat_append map_append distinct_append set_map by simp_all
    moreover have "m_id ` set m \<inter> m_id ` set (concat (sb_mb sb)) = {}" using fr by (simp add: fresh_def)
    then have "m_id ` set m \<inter> m_id ` set ?oth = {}" unfolding rs concat_append set_append by blast
    ultimately show ?thesis using I(1) ids_disjoint[OF _ _ I(2)]
      by (simp only: map_append[of _ ?oth] distinct_append[of "map m_id ?oth"] set_map simp_thms)
  qed
  have "sb_snd sb'" using sb_snd_anchor[OF snd rs an'(2), of sb' q'] F sb' an'(1) by simp
  moreover have "sb_counts sb' (concat (sb_mb sb'))" using C(1) sb' sb_counts_eor(2)[of sb1 "?oth @ pre" eor x "[]"] by simp
  moreover have "sb_ptrs sb'" using ok rs sb' T L hd D by (auto simp: sb_ok_def sb_ptrs_def)
  moreover have "wf_chain (concat (sb_mb sb'))" "holes_data (concat (sb_mb sb'))"
    using ok rs sb' C(2,3) by (auto simp: sb_ok_def)
  ultimately show ?thesis using rs sb' by (simp add: sb_ok_def)
qed

lemma sbcompress_tail_data:
  assumes ok: "sb_ok sb" and ne: "sb_mb sb \<noteq> []" and fr: "fresh m sb"
    and uni: "\<forall>x \<in> set m. is_hole x = is_hole (last (last (sb_mb sb)))"
  shows "\<exists>sb'. sbcompress sb m (sb_mbtail sb) = Inr sb' \<and> sb_data sb' = sb_data sb @ chain_data m"
proof -
  have p: "sb_ptrs sb" using ok by (simp add: sb_ok_def)
  obtain rb r where rs: "sb_mb sb = rb @ [r]" using ne by (cases "sb_mb sb" rule: rev_cases) auto
  obtain pre0 x0 where r: "r = pre0 @ [x0]" using p rs by (cases r rule: rev_cases) (auto simp: sb_ptrs_def)
  have u: "\<forall>x \<in> set m. wf_mbuf x \<and> is_hole x = is_hole x0" "\<forall>x \<in> set (opt (Some x0)). is_hole x = is_hole x0"
    "wf_chain (pre0 @ opt (Some x0) @ m)" "\<forall>x \<in> set (opt (Some x0) @ m). is_hole x = is_hole x0"
    using uni fr rs r ok by (auto simp: fresh_def sb_ok_def)
  from sbcompress_loop_total[OF u(1,2)] obtain sb1 pre n' e l
    where lp: "sbcompress_loop sb m pre0 (Some x0) False False = Inr (sb1, pre, n', e, l)" by blast
  have "n' \<noteq> None" using sbcompress_loop_tail[OF _ _ lp] p rs r by (simp add: sb_ptrs_def)
  then obtain x where n': "n' = Some x" by auto
  have "chain_data (pre @ [x]) = chain_data (pre0 @ x0 # m)"
    using sbcompress_loop_data[OF u(3,4) lp] n' by simp
  with lp n' rs r show ?thesis by (simp add: sbcompress_tail_eq[OF p ne] sb_data_def)
qed

subsection \<open>Appending to an empty buffer\<close>

lemma sb_ok_empty:
  assumes "sb_ok sb" "sb_mb sb = []"
  shows "sb_mbtail sb = None" "sb_lastrecord sb = None" "sb_sndptr sb = None" "sb_sndptroff sb = 0" "sb_counts sb []"
  using assms by (auto simp: sb_ok_def sb_ptrs_def sb_snd_def split: option.splits)

lemma sbcompress_none_run:
  assumes ok: "sb_counts sb []" "sb_mbtail sb = None" "sb_mb sb = []" and wf: "wf_chain m" "holes_data m" "distinct (map m_id m)"
    and run: "sbcompress sb m None = Inr sb'"
  shows "\<exists>r. sb_mb sb' = (if r = [] then [] else [r]) \<and> sb_counts sb' r \<and> holes_data r \<and> wf_chain r \<and>
    distinct (map m_id r) \<and> sb_mbtail sb' = (if r = [] then None else Some (m_id (last r))) \<and>
    sb_sndptr sb' = sb_sndptr sb \<and> sb_sndptroff sb' = sb_sndptroff sb \<and>
    (sb_lastrecord sb = id_of m \<longrightarrow> sb_lastrecord sb' = id_of r)"
proof -
  obtain sb1 pre n' eor linked where lp: "sbcompress_loop sb m [] None False False = Inr (sb1, pre, n', eor, linked)"
    using run by (auto simp: sbcompress_def res_bind_Inr)
  then have sb': "sb' = (case n' of None \<Rightarrow> sb1 | Some x \<Rightarrow> sb1\<lparr>sb_mb := [pre @ [set_eor eor x]]\<rparr>)"
    using run by (auto simp: sbcompress_def split: option.splits if_splits)
  have c: "sb_counts sb1 (pre @ opt n') \<and> holes_data (pre @ opt n') \<and> wf_chain (pre @ opt n')"
    using sbcompress_loop_counts[of sb "[]" "[]" None m, OF _ _ _ lp] ok(1) wf(1,2) by simp
  have t: "sb_mbtail sb1 = (if n' = None then sb_mbtail sb else map_option m_id n')"
    using sbcompress_loop_tail[OF _ _ lp] by simp
  have i: "distinct (map m_id (pre @ opt n'))" using sbcompress_loop_ids[OF _ lp] wf(3) by simp
  note f = sbcompress_loop_frame[OF lp] and l = sbcompress_loop_firstrecord[OF wf(3) _ lp]
  have pre: "n' = None \<Longrightarrow> pre = []"
    by (rule sbcompress_loop_rule[where P = "\<lambda>_ _ p n _ _. n = None \<longrightarrow> p = []", OF _ _ _ _ _ _ lp, THEN mp]) auto
  show ?thesis
  proof (cases n')
    case None
    with c f t sb' ok l pre show ?thesis by (intro exI[of _ "[]"]) auto
  next
    case (Some x)
    have "sb_lastrecord sb = id_of m \<longrightarrow> sb_lastrecord sb' = id_of (pre @ [set_eor eor x])"
      using l Some sb' by (cases pre) auto
    moreover have "sb_counts sb' (pre @ [set_eor eor x])"
      using c Some sb' sb_counts_eor(2)[of _ pre eor x "[]"] by simp
    ultimately show ?thesis using c f t i sb' Some by (intro exI[of _ "pre @ [set_eor eor x]"]) auto
  qed
qed

lemma sbcompress_none_data:
  assumes "sb_mb sb = []" "wf_chain m" "\<forall>x \<in> set m. is_hole x = h"
  shows "\<exists>sb'. sbcompress sb m None = Inr sb' \<and> sb_data sb' = chain_data m"
proof -
  from sbcompress_loop_total[of m h None sb "[]" False False] assms(2,3) obtain sb1 pre n' e l
    where lp: "sbcompress_loop sb m [] None False False = Inr (sb1, pre, n', e, l)" by auto
  have d: "chain_data (pre @ opt n') = chain_data m"
    using sbcompress_loop_data[where pre = "[]" and n = None, OF _ _ lp, of h] assms(2,3) by simp
  have t: "e \<longrightarrow> n' \<noteq> None" using sbcompress_loop_tail[OF _ _ lp] by simp
  have "sb_mb sb1 = []" using sbcompress_loop_frame[OF lp] assms(1) by simp
  moreover have "n' = None \<Longrightarrow> pre = []"
    by (rule sbcompress_loop_rule[where P = "\<lambda>_ _ p n _ _. n = None \<longrightarrow> p = []", OF _ _ _ _ _ _ lp, THEN mp]) auto
  ultimately show ?thesis using lp d t by (auto simp: sbcompress_def sb_data_def split: option.splits)
qed

subsection \<open>The append operations\<close>

lemma mb_id_last: "sb_ptrs sb \<Longrightarrow> length (sb_mb sb) = 1 \<Longrightarrow> mb_id (sb_mb sb) = sb_lastrecord sb"
  by (cases "sb_mb sb") (auto simp: sb_ptrs_def neq_Nil_conv)

lemma sbappendstream_ok:
  assumes ok: "sb_ok sb" and one: "length (sb_mb sb) \<le> 1" and fr: "fresh m sb"
    and run: "sbappendstream_locked sb m = Inr sb'"
  shows "sb_ok sb' \<and> length (sb_mb sb') \<le> 1"
proof -
  obtain sb1 where c: "sbcompress sb m (sb_mbtail sb) = Inr sb1" and sb': "sb' = sb1\<lparr>sb_lastrecord := mb_id (sb_mb sb1)\<rparr>"
    using run by (auto simp: sbappendstream_locked_def res_bind_Inr)
  show ?thesis
  proof (cases "sb_mb sb = []")
    case True
    note e = sb_ok_empty[OF ok True]
    obtain r where "sb_mb sb1 = (if r = [] then [] else [r])" "sb_counts sb1 r" "holes_data r" "wf_chain r"
      "distinct (map m_id r)" "sb_mbtail sb1 = (if r = [] then None else Some (m_id (last r)))"
      "sb_sndptr sb1 = sb_sndptr sb" "sb_sndptroff sb1 = sb_sndptroff sb"
      using sbcompress_none_run[OF e(5,1) True _ _ _ c[unfolded e(1)]] fr by (auto simp: fresh_def)
    then show ?thesis unfolding sb' using e(3,4)
      by (cases r) (auto simp: sb_ok_def sb_ptrs_def sb_snd_def)
  next
    case False
    with sbcompress_tail_ok[OF ok False fr c] one have s1: "sb_ok sb1" "length (sb_mb sb1) = 1"
      by (auto simp: le_Suc_eq)
    then have "mb_id (sb_mb sb1) = sb_lastrecord sb1" by (intro mb_id_last) (auto simp: sb_ok_def)
    then have "sb' = sb1" unfolding sb' by simp
    with s1 show ?thesis by simp
  qed
qed

lemma sbappendstream_data:
  assumes ok: "sb_ok sb" and fr: "fresh m sb"
    and uni: "\<forall>x \<in> set m. is_hole x = h" "sb_mb sb \<noteq> [] \<longrightarrow> is_hole (last (last (sb_mb sb))) = h"
  shows "\<exists>sb'. sbappendstream_locked sb m = Inr sb' \<and> sb_data sb' = sb_data sb @ chain_data m"
proof (cases "sb_mb sb = []")
  case True
  from sbcompress_none_data[OF True _ uni(1)] fr obtain sb1
    where "sbcompress sb m None = Inr sb1" "sb_data sb1 = chain_data m" by (auto simp: fresh_def)
  with sb_ok_empty[OF ok True] True show ?thesis by (simp add: sbappendstream_locked_def sb_data_def)
next
  case False
  with sbcompress_tail_data[OF ok False fr] uni show ?thesis
    by (fastforce simp: sbappendstream_locked_def sb_data_def)
qed

end
