(* ===== verification/Sockbuf_Drop.thy ===== *)
theory Sockbuf_Drop
  imports Sockbuf_Inv
begin

text \<open>
  Taking bytes from the front of a socket buffer: \<open>sbdrop_internal\<close>, \<open>sbflush_internal\<close> and the loop of
  \<open>sbsndptr\<close>, with respect to the invariant of \<open>Sockbuf_Inv\<close>.
\<close>

subsection \<open>Dropping\<close>

text \<open>The send pointer relative to the rest \<open>m\<close> of the first record.\<close>

definition snd_at :: "sockbuf \<Rightarrow> chain \<Rightarrow> bool" where
  "snd_at sb m = (case sb_sndptr sb of None \<Rightarrow> sb_sndptroff sb = 0
     | Some i \<Rightarrow> (case find_in m i of None \<Rightarrow> False | Some (pre, _, _) \<Rightarrow> sb_sndptroff sb = of_nat (chain_len pre)))"

lemma sb_snd_at: "sb_snd sb = snd_at sb (case sb_mb sb of [] \<Rightarrow> [] | r # _ \<Rightarrow> r)"
  by (auto simp: sb_snd_def snd_at_def split: option.splits list.splits)

lemma snd_at_Nil: "snd_at sb [] \<Longrightarrow> snd_at sb m"
  by (auto simp: snd_at_def split: option.splits)

lemma snd_at_upd [simp]: "snd_at (sb\<lparr>sb_mb := x\<rparr>) m = snd_at sb m"
  unfolding snd_at_def by (simp cong: option.case_cong)

lemma sbfree_sndptr:
  "sb_sndptr (sbfree sb m) = (if sb_sndptr sb = Some (m_id m) then None else sb_sndptr sb)"
  "sb_sndptroff (sbfree sb m) = (if sb_sndptr sb = Some (m_id m) then 0
     else if sb_sndptroff sb \<noteq> 0 then sb_sndptroff sb - of_nat (m_len m) else 0)"
  by (auto simp: sbfree_def Let_def)

lemma of_nat_u32_0: "n < 2 ^ 32 \<Longrightarrow> (of_nat n :: u32) = 0 \<longleftrightarrow> n = 0"
  by (auto simp: word_of_nat_eq_0_iff dest: dvd_imp_le)

lemma snd_at_free:
  assumes "snd_at sb (m # ms)" "chain_len (m # ms) < 2 ^ 32"
  shows "snd_at (sbfree sb m) ms"
proof (cases "sb_sndptr sb")
  case None
  with assms show ?thesis by (simp add: snd_at_def sbfree_sndptr)
next
  case (Some i)
  show ?thesis
  proof (cases "i = m_id m")
    case True
    with Some show ?thesis by (simp add: snd_at_def sbfree_sndptr)
  next
    case False
    then obtain pre x post where f: "find_in ms i = Some (pre, x, post)"
      and off: "sb_sndptroff sb = of_nat (m_len m + chain_len pre)"
      using assms(1) Some by (auto simp: snd_at_def split: option.splits)
    have "m_len m + chain_len pre < 2 ^ 32" using assms(2) find_in_Some[OF f] by auto
    then have "sb_sndptroff sb = 0 \<longleftrightarrow> m_len m + chain_len pre = 0" unfolding off by (rule of_nat_u32_0)
    with f off Some False show ?thesis by (auto simp: snd_at_def sbfree_sndptr)
  qed
qed

lemma snd_at_trim:
  assumes "snd_at sb (m # ms)" "chain_len (m # ms) < 2 ^ 32" "len < m_len m"
    "m_id m' = m_id m" "m_len m' = m_len m - len"
  shows "snd_at (sb\<lparr>sb_cc := c, sb_sndptroff := (if sb_sndptroff sb \<noteq> 0 then sb_sndptroff sb - of_nat len else 0), sb_ctl := d\<rparr>)
    (m' # ms)"
proof (cases "sb_sndptr sb")
  case None
  with assms show ?thesis by (simp add: snd_at_def)
next
  case (Some i)
  show ?thesis
  proof (cases "i = m_id m")
    case True
    with Some assms show ?thesis by (simp add: snd_at_def)
  next
    case False
    then obtain pre x post where f: "find_in ms i = Some (pre, x, post)"
      and off: "sb_sndptroff sb = of_nat (m_len m + chain_len pre)"
      using assms(1) Some by (auto simp: snd_at_def split: option.splits)
    have "m_len m + chain_len pre < 2 ^ 32" using assms(2) find_in_Some[OF f] by auto
    then have nz: "sb_sndptroff sb \<noteq> 0" unfolding off using of_nat_u32_0[of "m_len m + chain_len pre"] assms(3) by simp
    have "m_len m + chain_len pre = (m_len m - len + chain_len pre) + len" using assms(3) by simp
    then have "sb_sndptroff sb - of_nat len = of_nat (m_len m - len + chain_len pre)"
      unfolding off by (simp only: of_nat_add) simp
    with f nz Some False assms(4,5) show ?thesis by (auto simp: snd_at_def)
  qed
qed

lemma sb_counts_trim:
  assumes "sb_counts sb (m # ms)" "len \<le> m_len m" "m_type m' = m_type m" "m_flags m' = m_flags m" "m_buf m' = m_buf m"
    "m_len m' = m_len m - len"
  shows "sb_counts (sb\<lparr>sb_cc := sb_cc sb - of_nat len, sb_sndptroff := p,
      sb_ctl := (if is_ctl m then sb_ctl sb - of_nat len else sb_ctl sb)\<rparr>) (m' # ms)"
proof -
  have l: "(of_nat (m_len m - len) :: u32) = of_nat (m_len m) - of_nat len" using assms(2) by (rule of_nat_diff)
  show ?thesis using assms(1) unfolding sb_counts_def mb_size_def
    by (simp add: assms(3-6) l)
qed


definition ids_suffix :: "chain \<Rightarrow> chain \<Rightarrow> bool" where
  "ids_suffix m' m = suffix (map m_id m') (map m_id m)"

lemma ids_suffix_simps [simp]: "ids_suffix ms ms" "ids_suffix ms (m # ms)" "m_id m' = m_id m \<Longrightarrow> ids_suffix (m' # ms) (m # ms)"
  by (auto simp: ids_suffix_def suffix_ConsI)

lemma ids_suffix_Cons: "ids_suffix m' ms \<Longrightarrow> ids_suffix m' (m # ms)"
  by (auto simp: ids_suffix_def suffix_ConsI)

text \<open>\<open>sbdrop_ok sb rs len sb' m' nx'\<close>: what dropping \<open>len\<close> bytes from the records \<open>rs\<close> leaves.\<close>

definition sbdrop_ok :: "sockbuf \<Rightarrow> chain list \<Rightarrow> nat \<Rightarrow> sockbuf \<Rightarrow> chain \<Rightarrow> chain list \<Rightarrow> bool" where
  "sbdrop_ok sb rs len sb' m' nx' = (sb_counts sb' (m' @ concat nx') \<and> snd_at sb' m' \<and>
     chain_data (m' @ concat nx') = drop len (chain_data (concat rs)) \<and>
     wf_chain (m' @ concat nx') \<and> holes_data (m' @ concat nx') \<and>
     m_flags ` set (m' @ concat nx') \<subseteq> m_flags ` set (concat rs) \<and>
     (\<exists>a r. rs = a @ r # nx' \<and> ids_suffix m' r) \<and>
     sb_mb sb' = sb_mb sb \<and> sb_mbtail sb' = sb_mbtail sb \<and> sb_lastrecord sb' = sb_lastrecord sb \<and>
     sb_flags sb' = sb_flags sb \<and> sb_hiwat sb' = sb_hiwat sb)"

lemma sbdrop_loop_spec:
  assumes "sb_counts sb (m @ concat nx)" "snd_at sb m" "chain_len (m @ concat nx) < 2 ^ 32"
    "len \<le> chain_len (m @ concat nx)" "wf_chain (m @ concat nx)" "holes_data (m @ concat nx)"
  shows "\<exists>sb' m' nx'. sbdrop_loop sb m nx len = Inr (sb', m', nx') \<and> sbdrop_ok sb (m # nx) len sb' m' nx'"
  using assms
proof (induction sb m nx len rule: sbdrop_loop.induct)
  case (1 sb nx len)
  show ?case
  proof (cases "0 < len")
    case False
    with 1 show ?thesis by (auto simp: sbdrop_ok_def)
  next
    case True
    with 1 obtain r nx1 where nx: "nx = r # nx1" by (cases nx) auto
    from 1(1)[OF True nx] 1(2-) snd_at_Nil[of sb r] nx obtain sb' m' nx' where
      "sbdrop_loop sb r nx1 len = Inr (sb', m', nx')" "sbdrop_ok sb (r # nx1) len sb' m' nx'" by auto
    then show ?thesis using True nx by (auto simp: sbdrop_ok_def intro: exI[of _ "[] # _"])
  qed
next
  case (2 sb m ms nx len)
  consider (z) "len = 0" | (trim) "0 < len" "len < m_len m" | (free) "0 < len" "m_len m \<le> len" by linarith
  then show ?case
  proof cases
    case z
    with 2 show ?thesis by (auto simp: sbdrop_ok_def intro!: exI[of _ "[]"])
  next
    case trim
    let ?m = "m\<lparr>m_len := m_len m - len, m_off := (if is_hole m then m_off m else m_off m + len)\<rparr>"
    have "sb_counts sb (m # ms @ concat nx)" "wf_mbuf m" using 2(2,6) by simp_all
    moreover have "chain_len (m # ms) < 2 ^ 32" using 2(4) by simp
    ultimately show ?thesis
      using trim 2(2-) sb_counts_trim[of sb m "ms @ concat nx" len ?m]
        snd_at_trim[OF 2(3), of len ?m] mbuf_trim_head[of m len]
      by (auto simp: sbdrop_ok_def intro!: exI[of _ "[]"])
  next
    case free
    have "sb_counts (sbfree sb m) (ms @ concat nx)" using sb_counts_free[of sb "[]" m "ms @ concat nx"] 2(2) by simp
    moreover have "snd_at (sbfree sb m) ms" using snd_at_free[OF 2(3)] 2(4) by simp
    moreover have "\<not> len < m_len m" "chain_len (ms @ concat nx) < 2 ^ 32" "len - m_len m \<le> chain_len (ms @ concat nx)"
      "wf_chain (ms @ concat nx)" "holes_data (ms @ concat nx)"
      using free 2(4-) by simp_all
    ultimately obtain sb' m' nx' where r: "sbdrop_loop (sbfree sb m) ms nx (len - m_len m) = Inr (sb', m', nx')"
      "sbdrop_ok (sbfree sb m) (ms # nx) (len - m_len m) sb' m' nx'"
      using 2(1)[OF free(1)] by blast
    then obtain a r where ar: "ms # nx = a @ r # nx'" "ids_suffix m' r" by (auto simp: sbdrop_ok_def)
    have "\<exists>a r. (m # ms) # nx = a @ r # nx' \<and> ids_suffix m' r"
    proof (cases a)
      case Nil
      with ar show ?thesis by (intro exI[of _ "[]"] exI[of _ "m # ms"]) (auto intro: ids_suffix_Cons)
    next
      case (Cons b bs)
      with ar show ?thesis by (intro exI[of _ "(m # ms) # bs"] exI[of _ r]) auto
    qed
    moreover have "m_flags ` set (m' @ concat nx') \<subseteq> m_flags ` set (concat ((m # ms) # nx))"
      using r(2) unfolding sbdrop_ok_def by (simp add: subset_insertI2)
    moreover have "sbdrop_loop sb (m # ms) nx len = Inr (sb', m', nx')" using r(1) free by simp
    ultimately show ?thesis using r(2) free(2) 2(6) unfolding sbdrop_ok_def by simp
  qed
qed


lemma drop_zeros_spec:
  assumes "sbdrop_ok sb rs len sb1 m1 nx" "chain_len (m1 @ concat nx) < 2 ^ 32" "drop_zeros sb1 m1 = (sb2, m2)"
  shows "sbdrop_ok sb rs len sb2 m2 nx \<and> (m2 = [] \<or> m_len (hd m2) \<noteq> 0)"
  using assms
proof (induction m1 arbitrary: sb1)
  case Nil
  then show ?case by simp
next
  case (Cons x m1)
  show ?case
  proof (cases "m_len x = 0")
    case True
    obtain a r where ar: "rs = a @ r # nx" "ids_suffix (x # m1) r" using Cons.prems(1) by (auto simp: sbdrop_ok_def)
    have "ids_suffix m1 r" using ar(2) suffix_ConsD by (fastforce simp: ids_suffix_def)
    moreover have "sb_counts (sbfree sb1 x) (m1 @ concat nx)"
      using sb_counts_free[of sb1 "[]" x "m1 @ concat nx"] Cons.prems(1) by (simp add: sbdrop_ok_def)
    moreover have "snd_at (sbfree sb1 x) m1"
      using snd_at_free[of sb1 x m1] Cons.prems(1,2) by (simp add: sbdrop_ok_def)
    ultimately have "sbdrop_ok sb rs len (sbfree sb1 x) m1 nx"
      using Cons.prems(1) ar(1) True by (auto simp: sbdrop_ok_def mbuf_data_empty)
    with Cons True show ?thesis by simp
  next
    case False
    with Cons.prems show ?thesis by auto
  qed
qed

lemma suffix_last: "suffix xs ys \<Longrightarrow> xs \<noteq> [] \<Longrightarrow> last xs = last ys"
  by (auto simp: suffix_def)

lemma ids_suffix_last: "ids_suffix m' m \<Longrightarrow> m' \<noteq> [] \<Longrightarrow> m_id (last m') = m_id (last m)"
proof -
  assume a: "ids_suffix m' m" "m' \<noteq> []"
  then have "last (map m_id m') = last (map m_id m)" "m \<noteq> []"
    using suffix_last[of "map m_id m'" "map m_id m"] by (auto simp: ids_suffix_def)
  with a(2) show ?thesis by (simp add: last_map)
qed

definition finish_drop :: "sockbuf \<Rightarrow> chain list \<Rightarrow> sockbuf" where
  "finish_drop sb rs = (case rs of
     [] \<Rightarrow> sb\<lparr>sb_mb := [], sb_mbtail := None, sb_lastrecord := None\<rparr>
   | [r] \<Rightarrow> sb\<lparr>sb_mb := [r], sb_lastrecord := id_of r\<rparr>
   | _ \<Rightarrow> sb\<lparr>sb_mb := rs\<rparr>)"

lemma sb_mb_finish [simp]: "sb_mb (finish_drop sb rs) = rs"
  by (auto simp: finish_drop_def split: list.splits)

lemma finish_drop_ptrs [simp]:
  "sb_mbtail (finish_drop sb rs) = (if rs = [] then None else sb_mbtail sb)"
  "sb_lastrecord (finish_drop sb rs) = (case rs of [] \<Rightarrow> None | [r] \<Rightarrow> id_of r | _ \<Rightarrow> sb_lastrecord sb)"
  "sb_sndptr (finish_drop sb rs) = sb_sndptr sb" "sb_sndptroff (finish_drop sb rs) = sb_sndptroff sb"
  "sb_counts (finish_drop sb rs) ms = sb_counts sb ms"
  by (auto simp: finish_drop_def split: list.splits)

lemma finish_drop_sb_ptrs:
  assumes ok: "sb_ptrs sb" and ar: "rs = a @ r # nx" "ids_suffix m2 r"
    and rs: "rs = (if sb_mb sb = [] then [[]] else sb_mb sb)"
    and sb2: "sb_mbtail sb2 = sb_mbtail sb" "sb_lastrecord sb2 = sb_lastrecord sb"
  defines "rs' \<equiv> if m2 \<noteq> [] then m2 # nx else nx"
  shows "sb_ptrs (finish_drop sb2 rs')"
proof (cases "rs' = []")
  case True
  then show ?thesis by (simp add: sb_ptrs_def)
next
  case ne: False
  have p: "distinct (map m_id (concat (sb_mb sb)))" "\<forall>r \<in> set (sb_mb sb). r \<noteq> []"
    using ok by (auto simp: sb_ptrs_def)
  have mb: "sb_mb sb \<noteq> []"
    using ne ar rs by (auto simp: rs'_def ids_suffix_def Cons_eq_append_conv split: if_splits)
  have crs: "sb_mb sb = a @ r # nx" using rs ar(1) mb by simp
  obtain zs where zs: "map m_id r = zs @ map m_id m2" using ar(2) by (auto simp: ids_suffix_def suffix_def)
  have cat: "concat rs' = m2 @ concat nx" by (simp add: rs'_def)
  have D: "distinct (map m_id (concat rs'))" using p(1) unfolding crs cat by (simp add: zs)
  have N: "\<forall>r \<in> set rs'. r \<noteq> []" using p(2) crs by (auto simp: rs'_def)
  show ?thesis
  proof (cases "nx = []")
    case True
    then have "rs' = [m2]" "m2 \<noteq> []" using ne by (auto simp: rs'_def split: if_splits)
    with D N ids_suffix_last[OF ar(2)] ok crs True sb2 show ?thesis by (auto simp: sb_ptrs_def neq_Nil_conv)
  next
    case False
    then have l: "last rs' = last (sb_mb sb)" using crs by (simp add: rs'_def)
    have "sb_lastrecord (finish_drop sb2 rs') = Some (m_id (hd (last rs')))"
    proof (cases "tl rs' = []")
      case True
      then obtain r' where "rs' = [r']" using ne by (cases rs') auto
      with N show ?thesis by (auto simp: neq_Nil_conv)
    next
      case False
      with ne have "sb_lastrecord (finish_drop sb2 rs') = sb_lastrecord sb" using sb2(2) by (cases rs'; cases "tl rs'") auto
      with l mb ok show ?thesis by (simp add: sb_ptrs_def)
    qed
    with D N l ne mb ok sb2(1) show ?thesis by (simp add: sb_ptrs_def)
  qed
qed

lemma finish_drop_ok:
  assumes ok: "sb_ok sb" and d: "sbdrop_ok sb rs len sb2 m2 nx"
    and rs: "rs = (if sb_mb sb = [] then [[]] else sb_mb sb)"
  defines "rs' \<equiv> if m2 \<noteq> [] then m2 # nx else nx"
  shows "sb_ok (finish_drop sb2 rs') \<and> sb_data (finish_drop sb2 rs') = drop len (sb_data sb)"
proof -
  have cat: "concat rs' = m2 @ concat nx" by (simp add: rs'_def)
  have crs: "concat rs = concat (sb_mb sb)" using rs by simp
  obtain a r where ar: "rs = a @ r # nx" "ids_suffix m2 r" using d by (auto simp: sbdrop_ok_def)
  have "sb_ptrs (finish_drop sb2 rs')" unfolding rs'_def
    by (rule finish_drop_sb_ptrs[OF _ ar rs]) (use ok d in \<open>auto simp: sb_ok_def sbdrop_ok_def\<close>)
  moreover have "snd_at sb2 m2" using d by (simp add: sbdrop_ok_def)
  then have "snd_at sb2 (case rs' of [] \<Rightarrow> [] | r # _ \<Rightarrow> r)"
    using snd_at_Nil[of sb2] by (cases "m2 = []") (auto simp: rs'_def split: list.splits)
  then have "sb_snd (finish_drop sb2 rs')" unfolding sb_snd_at sb_mb_finish snd_at_def finish_drop_ptrs .
  ultimately show ?thesis using d cat crs by (simp add: sb_ok_def sb_data_def sbdrop_ok_def)
qed

lemma sb_mb_hd: "(case sb_mb sb of [] \<Rightarrow> ([], []) | r # rs \<Rightarrow> (r, rs)) = (m, nx) \<Longrightarrow>
    (if sb_mb sb = [] then [[]] else sb_mb sb) = m # nx"
  by (cases "sb_mb sb") auto

lemma sbdrop_internal_run:
  assumes ok: "sb_ok sb" and small: "chain_len (concat (sb_mb sb)) < 2 ^ 32"
    and len: "nat len \<le> chain_len (concat (sb_mb sb))"
  shows "\<exists>sb2 m2 nx. sbdrop_internal sb len = Inr (finish_drop sb2 (if m2 \<noteq> [] then m2 # nx else nx)) \<and>
    sbdrop_ok sb (if sb_mb sb = [] then [[]] else sb_mb sb) (nat len) sb2 m2 nx \<and> (m2 = [] \<or> m_len (hd m2) \<noteq> 0)"
proof -
  obtain m nx where mn: "(case sb_mb sb of [] \<Rightarrow> ([], []) | r # rs \<Rightarrow> (r, rs)) = (m, nx)" by fastforce
  note rs = sb_mb_hd[OF mn]
  have cat: "concat (sb_mb sb) = m @ concat nx" using rs by (auto split: if_splits)
  have m: "m = (case sb_mb sb of [] \<Rightarrow> [] | r # _ \<Rightarrow> r)" using mn by (cases "sb_mb sb") auto
  obtain sb1 m1 nx1 where lp: "sbdrop_loop sb m nx (nat len) = Inr (sb1, m1, nx1)" "sbdrop_ok sb (m # nx) (nat len) sb1 m1 nx1"
    using sbdrop_loop_spec[of sb m nx "nat len"] ok small len cat m by (auto simp: sb_ok_def sb_snd_at)
  obtain sb2 m2 where dz: "drop_zeros sb1 m1 = (sb2, m2)" by fastforce
  have "chain_len (m1 @ concat nx1) \<le> chain_len (m @ concat nx)"
  proof -
    have "chain_len (m1 @ concat nx1) = length (chain_data (m1 @ concat nx1))"
      using lp(2) length_chain_data[of "m1 @ concat nx1"] by (simp add: sbdrop_ok_def)
    also have "\<dots> \<le> length (chain_data (m @ concat nx))" using lp(2) by (simp add: sbdrop_ok_def)
    also have "\<dots> = chain_len (m @ concat nx)" using ok cat length_chain_data[of "m @ concat nx"] by (simp add: sb_ok_def)
    finally show ?thesis .
  qed
  with small cat have "chain_len (m1 @ concat nx1) < 2 ^ 32" by simp
  with drop_zeros_spec[OF lp(2) _ dz] have "sbdrop_ok sb (m # nx) (nat len) sb2 m2 nx1 \<and> (m2 = [] \<or> m_len (hd m2) \<noteq> 0)" by blast
  with mn lp(1) dz show ?thesis unfolding rs
    by (intro exI[of _ sb2] exI[of _ m2] exI[of _ nx1]) (auto simp: sbdrop_internal_def Let_def finish_drop_def)
qed

lemma sbdrop_internal_spec:
  assumes "sb_ok sb" "chain_len (concat (sb_mb sb)) < 2 ^ 32" "nat len \<le> chain_len (concat (sb_mb sb))"
  shows "\<exists>sb'. sbdrop_internal sb len = Inr sb' \<and> sb_ok sb' \<and> sb_data sb' = drop (nat len) (sb_data sb) \<and>
    m_flags ` set (concat (sb_mb sb')) \<subseteq> m_flags ` set (concat (sb_mb sb)) \<and> length (sb_mb sb') \<le> length (sb_mb sb)"
proof -
  let ?rs = "if sb_mb sb = [] then [[]] else sb_mb sb"
  obtain sb2 m2 nx where run: "sbdrop_internal sb len = Inr (finish_drop sb2 (if m2 \<noteq> [] then m2 # nx else nx))"
    and d: "sbdrop_ok sb ?rs (nat len) sb2 m2 nx" using sbdrop_internal_run[OF assms] by blast
  have "concat ?rs = concat (sb_mb sb)" by simp
  then have "m_flags ` set (m2 @ concat nx) \<subseteq> m_flags ` set (concat (sb_mb sb))" using d by (simp add: sbdrop_ok_def)
  moreover obtain a r where ar: "?rs = a @ r # nx" "ids_suffix m2 r" using d by (auto simp: sbdrop_ok_def)
  then have "length (if m2 \<noteq> [] then m2 # nx else nx) \<le> length (sb_mb sb)"
    by (cases "sb_mb sb") (auto simp: ids_suffix_def Cons_eq_append_conv)
  ultimately show ?thesis using run finish_drop_ok[OF assms(1) d refl]
    by (intro exI[of _ "finish_drop sb2 (if m2 \<noteq> [] then m2 # nx else nx)"]) (cases "m2 = []"; simp)
qed

lemma sbdrop_all:
  assumes ok: "sb_ok sb" and small: "chain_len (concat (sb_mb sb)) < 2 ^ 32" and ne: "sb_mb sb \<noteq> []"
  shows "\<exists>sb' a r. sbdrop_internal sb (int (chain_len (concat (sb_mb sb)))) = Inr sb' \<and> sb_ok sb' \<and>
    sb_mb sb = a @ r # sb_mb sb'"
proof -
  let ?n = "chain_len (concat (sb_mb sb))"
  from sbdrop_internal_run[OF ok small, of "int ?n"] ne obtain sb2 m2 nx where
    run: "sbdrop_internal sb (int ?n) = Inr (finish_drop sb2 (if m2 \<noteq> [] then m2 # nx else nx))"
    and d: "sbdrop_ok sb (sb_mb sb) ?n sb2 m2 nx" and z: "m2 = [] \<or> m_len (hd m2) \<noteq> 0" by auto
  have "length (chain_data (concat (sb_mb sb))) = ?n" using ok length_chain_data by (simp add: sb_ok_def)
  then have "chain_data (m2 @ concat nx) = []" using d by (simp add: sbdrop_ok_def)
  moreover have "length (chain_data (m2 @ concat nx)) = chain_len (m2 @ concat nx)"
    using d by (intro length_chain_data) (simp add: sbdrop_ok_def)
  ultimately have "chain_len m2 = 0" by simp
  with z have m2: "m2 = []" by (cases m2) auto
  obtain a r where "sb_mb sb = a @ r # nx" using d by (auto simp: sbdrop_ok_def)
  moreover have "sb_ok (finish_drop sb2 nx)" using finish_drop_ok[OF ok d] ne m2 by simp
  ultimately show ?thesis using run m2 by (intro exI[of _ "finish_drop sb2 nx"]) auto
qed

subsection \<open>Flushing\<close>

lemma sbflush_empty: "sb_ok sb \<Longrightarrow> sb_mb sb = [] \<Longrightarrow> sbflush_loop fuel sb = Inr sb"
  using sb_ok_empty(5)[of sb] by (subst sbflush_loop.simps) (simp add: sb_counts_def)

lemma sbflush_loop_spec:
  assumes "sb_ok sb" "chain_len (concat (sb_mb sb)) < 2 ^ 31" "sum_list (map mb_size (concat (sb_mb sb))) < 2 ^ 32"
    "length (sb_mb sb) \<le> fuel"
  shows "\<exists>sb'. sbflush_loop fuel sb = Inr sb' \<and> sb_ok sb' \<and> sb_mb sb' = []"
  using assms
proof (induction fuel arbitrary: sb)
  case 0
  then show ?case using sbflush_empty[of sb 0] by auto
next
  case (Suc fuel)
  show ?case
  proof (cases "sb_mb sb = []")
    case True
    with Suc sbflush_empty[of sb "Suc fuel"] show ?thesis by auto
  next
    case False
    let ?n = "chain_len (concat (sb_mb sb))"
    have cnt: "sb_counts sb (concat (sb_mb sb))" and p: "\<forall>r \<in> set (sb_mb sb). r \<noteq> []"
      using Suc.prems(1) by (auto simp: sb_ok_def sb_ptrs_def)
    obtain m ms rs where mb: "sb_mb sb = (m # ms) # rs" using False p by (cases "sb_mb sb") (auto simp: neq_Nil_conv)
    have cc: "sb_cc sb = of_nat ?n" using cnt by (simp add: sb_counts_def)
    then have s: "sint (sb_cc sb) = int ?n" using Suc.prems(2) by (simp add: signed_of_nat signed_take_bit_int_eq_self)
    have "sum_list (map mb_size (concat (sb_mb sb))) \<noteq> 0" using mb by (simp add: mb_size_def MSIZE_def)
    then have go1: "sb_mbcnt sb \<noteq> 0" using cnt Suc.prems(3) of_nat_u32_0 by (simp add: sb_counts_def)
    have go2: "sb_cc sb = 0 \<Longrightarrow> m_len m = 0" using cc Suc.prems(2) of_nat_u32_0[of ?n] mb by simp
    obtain sb1 a r where d: "sbdrop_internal sb (int ?n) = Inr sb1" "sb_ok sb1" "sb_mb sb = a @ r # sb_mb sb1"
      using sbdrop_all[OF Suc.prems(1) _ False] Suc.prems(2) by auto
    have "chain_len (concat (sb_mb sb1)) < 2 ^ 31" "sum_list (map mb_size (concat (sb_mb sb1))) < 2 ^ 32"
      "length (sb_mb sb1) \<le> fuel"
      using Suc.prems(2-) unfolding d(3) by simp_all
    with Suc.IH[OF d(2)] obtain sb' where "sbflush_loop fuel sb1 = Inr sb'" "sb_ok sb'" "sb_mb sb' = []" by blast
    then show ?thesis using d(1) go1 go2 s mb by (subst sbflush_loop.simps) auto
  qed
qed

lemma sbflush_internal_spec:
  assumes "sb_ok sb" "chain_len (concat (sb_mb sb)) < 2 ^ 31" "sum_list (map mb_size (concat (sb_mb sb))) < 2 ^ 32"
    "length (sb_mb sb) \<le> fuel"
  shows "\<exists>sb'. sbflush_internal fuel sb = Inr sb' \<and> sb_ok sb' \<and> sb_mb sb' = []"
proof -
  obtain sb' where s: "sbflush_loop fuel sb = Inr sb'" "sb_ok sb'" "sb_mb sb' = []"
    using sbflush_loop_spec[OF assms] by blast
  then show ?thesis using sb_ok_empty(5)[OF s(2,3)] by (simp add: sbflush_internal_def sb_counts_def)
qed

subsection \<open>The send pointer\<close>

lemma sndptr_loop_spec:
  assumes "unat off < chain_len ms" "chain_len ms < 2 ^ 32" "sndptr_loop ms off p = (ms', off', p')"
  shows "\<exists>pre. ms = pre @ ms' \<and> ms' \<noteq> [] \<and> p' = p + of_nat (chain_len pre)"
  using assms
proof (induction ms arbitrary: off p)
  case Nil
  then show ?case by simp
next
  case (Cons m ms)
  have l: "unat (of_nat (m_len m) :: u32) = m_len m" using Cons.prems(2) by (simp add: unat_of_nat take_bit_nat_eq_self)
  show ?case
  proof (cases "0 < off \<and> of_nat (m_len m) \<le> off")
    case False
    with Cons.prems show ?thesis by (intro exI[of _ "[]"]) auto
  next
    case True
    then have "unat (off - of_nat (m_len m)) = unat off - m_len m" using l by (simp add: unat_sub)
    moreover have "m_len m \<le> unat off" using True l by (simp add: word_le_nat_alt)
    ultimately have "unat (off - of_nat (m_len m)) < chain_len ms" using Cons.prems(1) by simp
    from Cons.IH[OF this] Cons.prems(2,3) True obtain pre where
      "ms = pre @ ms'" "ms' \<noteq> []" "p' = p + of_nat (m_len m) + of_nat (chain_len pre)" by auto
    then show ?thesis by (intro exI[of _ "m # pre"]) (simp add: algebra_simps)
  qed
qed

end
