(* ===== verification/Sockbuf_Rec.thy ===== *)
theory Sockbuf_Rec
  imports Sockbuf_Drop
begin

text \<open>
  The send pointer (\<open>sbsndptr\<close>) and the record operations (\<open>sbappendrecord\<close>, \<open>sbappend\<close>,
  \<open>sbappendcontrol\<close>, \<open>sbdroprecord\<close>) with respect to the invariant.
\<close>

subsection \<open>The send pointer\<close>

lemma sbsndptr_spec:
  assumes ok: "sb_ok sb" and mb: "sb_mb sb = r # rs" and small: "chain_len r < 2 ^ 32"
    and rng: "0 < len" "unat off + unat len \<le> chain_len r"
  shows "\<exists>sb' ret moff. sbsndptr sb off len = Inr (sb', ret, moff) \<and> sb_ok sb' \<and> sb_mb sb' = sb_mb sb \<and>
    unat moff \<le> unat off \<and> drop (unat moff) (chain_data ret) = drop (unat off) (chain_data r)"
proof (cases "off < sb_sndptroff sb")
  case True
  with ok mb show ?thesis by (simp add: sbsndptr_def)
next
  case False
  have at: "snd_at sb r" using ok mb by (simp add: sb_ok_def sb_snd_at)
  have wf: "wf_chain r" "distinct (map m_id (concat (sb_mb sb)))" using ok mb by (auto simp: sb_ok_def sb_ptrs_def)
  obtain pre ret where pr: "r = pre @ ret" "ret \<noteq> []" "sb_sndptroff sb = of_nat (chain_len pre)"
    and st: "(case sb_sndptr sb of None \<Rightarrow> Inr r | Some i \<Rightarrow> (case find_mb (sb_mb sb) i of None \<Rightarrow> Inl Use_after_free
       | Some (_, _, x, post, _) \<Rightarrow> Inr (x # post))) = Inr ret"
  proof (cases "sb_sndptr sb")
    case None
    have "r \<noteq> []" using ok mb by (auto simp: sb_ok_def sb_ptrs_def)
    with None at that[of "[]" r] show ?thesis by (simp add: snd_at_def)
  next
    case (Some i)
    then obtain p x q where "find_in r i = Some (p, x, q)" "sb_sndptroff sb = of_nat (chain_len p)"
      using at by (auto simp: snd_at_def split: option.splits)
    with Some mb find_in_Some that[of p "x # q"] show ?thesis by simp
  qed
  let ?p = "chain_len pre"
  have p: "unat (sb_sndptroff sb) = ?p" using pr small by (simp add: unat_of_nat take_bit_nat_eq_self)
  have po: "?p \<le> unat off" using False p by (simp add: word_le_nat_alt not_less)
  have d: "unat (off - sb_sndptroff sb) = unat off - ?p" using False p by (simp add: unat_sub not_less)
  have l0: "0 < unat len" using rng(1) by (simp add: word_greater_zero_iff unat_gt_0)
  have e: "unat (off - sb_sndptroff sb + len - 1) = unat off - ?p + unat len - 1"
  proof -
    have "unat (off - sb_sndptroff sb) + unat len < 2 ^ 32" using d rng small by simp
    then have "unat (off - sb_sndptroff sb + len) = unat off - ?p + unat len"
      using d by (simp add: unat_add_lem[THEN iffD1])
    with l0 show ?thesis by (subst unat_minus_one) (auto simp: unat_eq_zero[symmetric] simp del: unat_eq_zero)
  qed
  have "unat (off - sb_sndptroff sb + len - 1) < chain_len ret"
    using e po rng(2) l0 pr(1) by simp
  moreover obtain ms' off' p' where lp: "sndptr_loop ret (off - sb_sndptroff sb + len - 1) (sb_sndptroff sb) = (ms', off', p')"
    by (metis prod_cases3)
  ultimately obtain q where q: "ret = q @ ms'" "ms' \<noteq> []" "p' = sb_sndptroff sb + of_nat (chain_len q)"
    using sndptr_loop_spec[OF _ _ lp] small pr(1) by auto
  have "find_in r (m_id (hd ms')) = Some (pre @ q, hd ms', tl ms')"
  proof -
    have r: "r = (pre @ q) @ hd ms' # tl ms'" using pr q by simp
    have "distinct (map m_id r)" using wf(2) mb by simp
    then have "m_id (hd ms') \<notin> m_id ` set (pre @ q)" by (subst (asm) r) auto
    from find_in_append[OF this, of "tl ms'"] show ?thesis by (subst r)
  qed
  then have "snd_at (sb\<lparr>sb_sndptr := id_of ms', sb_sndptroff := p'\<rparr>) r"
    using q pr by (cases ms') (auto simp: snd_at_def)
  then have "sb_ok (sb\<lparr>sb_sndptr := id_of ms', sb_sndptroff := p'\<rparr>)"
    using ok mb by (simp add: sb_ok_def sb_ptrs_def sb_snd_at)
  moreover have "drop (unat (off - sb_sndptroff sb)) (chain_data ret) = drop (unat off) (chain_data r)"
    using pr(1) wf(1) po d by simp
  moreover have "sbsndptr sb off len = Inr (sb\<lparr>sb_sndptr := id_of ms', sb_sndptroff := p'\<rparr>, ret, off - sb_sndptroff sb)"
    using False st lp q(2) mb by (simp add: sbsndptr_def)
  ultimately show ?thesis using d by simp
qed


subsection \<open>Records\<close>

lemma link_record_last:
  assumes "rs \<noteq> []" "last rs \<noteq> []" "distinct (map m_id (concat rs))"
  shows "link_record rs (m_id (hd (last rs))) rec = Inr (rs @ [rec])"
  using assms
proof (induction rs)
  case (Cons r rs)
  show ?case
  proof (cases "rs = []")
    case True
    with Cons.prems show ?thesis by (auto simp: neq_Nil_conv)
  next
    case False
    then have "hd (last rs) \<in> set (concat rs)" using Cons.prems by (auto intro!: bexI[of _ "last rs"])
    then have "m_id (hd (last rs)) \<notin> m_id ` set r" using Cons.prems(3) by auto
    then have "id_of r \<noteq> Some (m_id (hd (last rs)))" by (cases r) auto
    with False Cons show ?thesis by simp
  qed
qed simp

lemma SBLINKRECORD_eq:
  assumes "sb_ptrs sb" "sb_mb sb' = sb_mb sb" "sb_lastrecord sb' = sb_lastrecord sb"
  shows "SBLINKRECORD sb' rec = Inr (sb'\<lparr>sb_mb := sb_mb sb @ [rec], sb_lastrecord := id_of rec\<rparr>)"
  using assms link_record_last[of "sb_mb sb" rec] by (auto simp: SBLINKRECORD_def sb_ptrs_def)

lemma sb_counts_alloc_list: "sb_counts sb ms \<Longrightarrow> sb_counts (foldl sballoc sb rec) (ms @ rec)"
proof (induction rec arbitrary: sb ms)
  case (Cons m rec)
  from Cons.IH[OF sb_counts_alloc[of sb ms "[]" m]] Cons.prems show ?case by simp
qed simp

lemma foldl_sballoc_fields:
  "sb_mb (foldl sballoc sb rec) = sb_mb sb \<and> sb_mbtail (foldl sballoc sb rec) = sb_mbtail sb \<and>
   sb_lastrecord (foldl sballoc sb rec) = sb_lastrecord sb \<and> sb_sndptr (foldl sballoc sb rec) = sb_sndptr sb \<and>
   sb_sndptroff (foldl sballoc sb rec) = sb_sndptroff sb"
  by (induction rec arbitrary: sb) auto

lemma link_record_ok:
  assumes ok: "sb_ok sb" and rec: "rec \<noteq> []" "fresh rec sb"
    and sb': "sb_counts sb' (concat (sb_mb sb) @ rec)" "sb_mb sb' = sb_mb sb @ [rec]" "sb_lastrecord sb' = id_of rec"
      "sb_mbtail sb' = Some (m_id (last rec))" "sb_sndptr sb' = sb_sndptr sb" "sb_sndptroff sb' = sb_sndptroff sb"
  shows "sb_ok sb'"
proof -
  have "sb_snd sb'"
  proof (cases "sb_mb sb = []")
    case True
    with sb_ok_empty[OF ok] sb' show ?thesis by (simp add: sb_snd_def)
  next
    case False
    then obtain r rs where "sb_mb sb = r # rs" by (cases "sb_mb sb") auto
    with ok sb' show ?thesis unfolding sb_ok_def sb_snd_def by (simp cong: option.case_cong)
  qed
  moreover have "distinct (map m_id (concat (sb_mb sb) @ rec))"
    using ok rec(2) unfolding map_append distinct_append set_map sb_ok_def sb_ptrs_def fresh_def by (simp add: Int_commute)
  then have "sb_ptrs sb'" using ok rec(1) sb' by (cases rec) (auto simp: sb_ok_def sb_ptrs_def)
  ultimately show ?thesis using ok rec sb' by (auto simp: sb_ok_def fresh_def)
qed

lemma sbappend_list_ok:
  assumes "sb_ok sb" "rec \<noteq> []" "fresh rec sb"
  shows "\<exists>sb1. SBLINKRECORD (foldl sballoc sb rec) rec = Inr sb1 \<and> sb_ok (sb1\<lparr>sb_mbtail := Some (m_id (last rec))\<rparr>) \<and>
    sb_mb sb1 = sb_mb sb @ [rec]"
proof -
  note f = foldl_sballoc_fields[of sb rec]
  have l: "SBLINKRECORD (foldl sballoc sb rec) rec =
      Inr ((foldl sballoc sb rec)\<lparr>sb_mb := sb_mb sb @ [rec], sb_lastrecord := id_of rec\<rparr>)"
    by (rule SBLINKRECORD_eq) (use assms f in \<open>auto simp: sb_ok_def\<close>)
  have "sb_counts sb (concat (sb_mb sb))" using assms(1) by (simp add: sb_ok_def)
  from sb_counts_alloc_list[OF this, of rec] l f show ?thesis
    by (auto intro!: link_record_ok[OF assms])
qed

lemma sbappendcontrol_ok:
  assumes "sb_ok sb" "control \<noteq> []" "fresh (control @ m0) sb"
  shows "\<exists>b sb'. sbappendcontrol_locked sb m0 control = Inr (b, sb') \<and> sb_ok sb' \<and>
    sb_mb sb' = (if b then sb_mb sb @ [control @ m0] else sb_mb sb)"
  using sbappend_list_ok[OF assms(1) _ assms(3)] assms(1,2) by (auto simp: sbappendcontrol_locked_def Let_def)

lemma sbappendrecord_ok:
  assumes ok: "sb_ok sb" and fr: "fresh m sb" and run: "sbappendrecord_locked sb m = Inr sb'"
  shows "sb_ok sb'"
proof (cases m)
  case Nil
  with ok run show ?thesis by (simp add: sbappendrecord_locked_def)
next
  case (Cons m0 ms)
  define mv where "mv \<longleftrightarrow> ms \<noteq> [] \<and> M_EOR \<in> m_flags m0"
  define m0' where "m0' = (if mv then m0\<lparr>m_flags := m_flags m0 - {M_EOR}\<rparr> else m0)"
  define ms' where "ms' = (case ms of [] \<Rightarrow> []
                    | m # r \<Rightarrow> set_eor mv m # r)"
  have m0': "m_id m0' = m_id m0" "wf_mbuf m0' = wf_mbuf m0" "is_hole m0' = is_hole m0" "m_type m0' = m_type m0"
    "sb_counts sb1 (xs @ [m0']) = sb_counts sb1 (xs @ [m0])" for sb1 xs
    by (auto simp: m0'_def)
  have ms': "map m_id ms' = map m_id ms" "wf_chain ms' = wf_chain ms" "holes_data ms' = holes_data ms"
    by (cases ms; simp add: ms'_def)+
  have set': "m_id ` set ms' = m_id ` set ms" using ms'(1) by (metis list.set_map)
  have cnt: "sb_counts (sballoc sb m0) (concat (sb_mb sb) @ [m0'])"
    unfolding m0' using sb_counts_alloc[of sb "concat (sb_mb sb)" "[]" m0] ok by (simp add: sb_ok_def)
  let ?sb1 = "(sballoc sb m0)\<lparr>sb_mb := sb_mb sb @ [[m0']], sb_lastrecord := Some (m_id m0), sb_mbtail := Some (m_id m0)\<rparr>"
  have l: "SBLINKRECORD (sballoc sb m0) [m0'] = Inr ((sballoc sb m0)\<lparr>sb_mb := sb_mb sb @ [[m0']], sb_lastrecord := Some (m_id m0)\<rparr>)"
    using SBLINKRECORD_eq[of sb "sballoc sb m0" "[m0']"] ok m0' by (simp add: sb_ok_def)
  have ok1: "sb_ok ?sb1"
    by (rule link_record_ok[OF ok, of "[m0']"]) (use fr Cons m0' cnt in \<open>auto simp: fresh_def\<close>)
  have fr1: "fresh ms' ?sb1" using fr Cons m0'(1) ms' set' by (auto simp: fresh_def)
  have eq: "sbappendrecord_locked sb m = res_bind (SBLINKRECORD (sballoc sb m0) [m0'])
      (\<lambda>sb1. sbcompress (sb1\<lparr>sb_mbtail := Some (m_id m0)\<rparr>) ms' (Some (m_id m0)))"
    unfolding sbappendrecord_locked_def Cons list.case Let_def m0'_def ms'_def mv_def set_eor_def by (rule refl)
  have "sbcompress ?sb1 ms' (sb_mbtail ?sb1) = Inr sb'"
    using run unfolding eq l by simp
  with sbcompress_tail_ok[OF ok1 _ fr1] show ?thesis by simp
qed

lemma sbappend_ok:
  assumes ok: "sb_ok sb" and fr: "fresh m sb" and run: "sbappend_locked sb m = Inr sb'"
  shows "sb_ok sb'"
proof (cases "sb_mb sb = []")
  case True
  note e = sb_ok_empty[OF ok True]
  show ?thesis
  proof (cases "m = []")
    case True
    with run ok show ?thesis by (simp add: sbappend_locked_def)
  next
    case False
    with run True e have c: "sbcompress (sb\<lparr>sb_lastrecord := id_of m\<rparr>) m None = Inr sb'" by (simp add: sbappend_locked_def)
    obtain r where "sb_mb sb' = (if r = [] then [] else [r])" "sb_counts sb' r" "holes_data r" "wf_chain r"
      "distinct (map m_id r)" "sb_mbtail sb' = (if r = [] then None else Some (m_id (last r)))"
      "sb_sndptr sb' = None" "sb_sndptroff sb' = 0" "sb_lastrecord sb' = id_of r"
      using sbcompress_none_run[OF _ _ _ _ _ _ c] fr e True by (auto simp: fresh_def)
    then show ?thesis by (cases r) (auto simp: sb_ok_def sb_ptrs_def sb_snd_def)
  qed
next
  case False
  then have l: "last (sb_mb sb) \<noteq> []" "sb_mbtail sb = Some (m_id (last (last (sb_mb sb))))"
    using ok by (auto simp: sb_ok_def sb_ptrs_def)
  have "m = [] \<Longrightarrow> ?thesis" using run ok by (simp add: sbappend_locked_def)
  moreover have "m \<noteq> [] \<Longrightarrow> ?thesis"
    using run False l sbappendrecord_ok[OF ok fr] sbcompress_tail_ok[OF ok False fr]
    by (auto simp: sbappend_locked_def Let_def split: if_splits)
  ultimately show ?thesis by blast
qed

lemma sb_free_list:
  assumes "sb_counts sb (r @ ms)" "snd_at sb r" "chain_len r < 2 ^ 32"
  shows "sb_counts (foldl sbfree sb r) ms \<and> snd_at (foldl sbfree sb r) [] \<and> sb_mb (foldl sbfree sb r) = sb_mb sb \<and>
    sb_mbtail (foldl sbfree sb r) = sb_mbtail sb \<and> sb_lastrecord (foldl sbfree sb r) = sb_lastrecord sb"
  using assms
proof (induction r arbitrary: sb)
  case (Cons m r)
  from Cons.IH[of "sbfree sb m"] sb_counts_free[of sb "[]" m "r @ ms"] snd_at_free[OF Cons.prems(2)] Cons.prems
  show ?case by simp
qed simp

lemma sbdroprecord_ok:
  assumes ok: "sb_ok sb" and small: "chain_len (concat (sb_mb sb)) < 2 ^ 32"
  shows "sb_ok (sbdroprecord_locked sb) \<and> sb_mb (sbdroprecord_locked sb) = tl (sb_mb sb)"
proof (cases "sb_mb sb")
  case Nil
  then show ?thesis using ok sb_ok_empty[OF ok Nil]
    by (simp add: sbdroprecord_locked_def SB_EMPTY_FIXUP_def sb_ok_def sb_ptrs_def sb_snd_def)
next
  case (Cons r rs)
  let ?sb = "foldl sbfree (sb\<lparr>sb_mb := rs\<rparr>) r"
  have f: "sb_counts ?sb (concat rs)" "snd_at ?sb []" "sb_mb ?sb = rs" "sb_mbtail ?sb = sb_mbtail sb" "sb_lastrecord ?sb = sb_lastrecord sb"
    using sb_free_list[of "sb\<lparr>sb_mb := rs\<rparr>" r "concat rs"] ok small Cons by (auto simp: sb_ok_def sb_snd_at)
  from f(2) snd_at_Nil[OF f(2)] have snd: "sb_snd ?sb" by (simp add: sb_snd_at)
  have dr: "sbdroprecord_locked sb = SB_EMPTY_FIXUP ?sb" using Cons by (simp add: sbdroprecord_locked_def)
  show ?thesis
  proof (cases "rs = []")
    case True
    have "sb_sndptr ?sb = None" "sb_sndptroff ?sb = 0" using f(2) by (auto simp: snd_at_def split: option.splits)
    then show ?thesis unfolding dr SB_EMPTY_FIXUP_def f(3) using True f Cons
      by (simp add: sb_ok_def sb_ptrs_def sb_snd_def)
  next
    case False
    then show ?thesis unfolding dr SB_EMPTY_FIXUP_def f(3) using f ok Cons snd
      by (simp add: sb_ok_def sb_ptrs_def)
  qed
qed

end
