(* ===== verification/Byte_Queue.thy ===== *)
theory Byte_Queue
  imports Prelude
begin

text \<open>
  The contract of a byte stream buffer: bytes go in at one end in chunks and leave at the other.  The TCP
  input and output paths rely on nothing else of a socket buffer.  A client trace is any interleaving of
  insertions and removals; the contents are always the bytes put in so far without the bytes taken out.
\<close>

text \<open>\<open>q_trace \<dots> s w k s'\<close>: from \<open>s\<close>, insertions of the bytes \<open>w\<close> in total and removals of \<open>k\<close> bytes in
  total lead to \<open>s'\<close>.\<close>

inductive q_trace :: "('s \<Rightarrow> 'm \<Rightarrow> bool) \<Rightarrow> ('s \<Rightarrow> 'm \<Rightarrow> 's res) \<Rightarrow> ('s \<Rightarrow> nat \<Rightarrow> 's res) \<Rightarrow> ('s \<Rightarrow> byte list) \<Rightarrow>
    ('m \<Rightarrow> byte list) \<Rightarrow> 's \<Rightarrow> byte list \<Rightarrow> nat \<Rightarrow> 's \<Rightarrow> bool"
  for may put get contents bytes s where
  q_refl: "q_trace may put get contents bytes s [] 0 s"
| q_put: "q_trace may put get contents bytes s w k s1 \<Longrightarrow> may s1 m \<Longrightarrow> put s1 m = Inr s2 \<Longrightarrow>
    q_trace may put get contents bytes s (w @ bytes m) k s2"
| q_get: "q_trace may put get contents bytes s w k s1 \<Longrightarrow> n \<le> length (contents s1) \<Longrightarrow> get s1 n = Inr s2 \<Longrightarrow>
    q_trace may put get contents bytes s w (k + n) s2"

locale byte_queue =
  fixes inv :: "'s \<Rightarrow> bool" and contents :: "'s \<Rightarrow> byte list" and may :: "'s \<Rightarrow> 'm \<Rightarrow> bool"
    and put :: "'s \<Rightarrow> 'm \<Rightarrow> 's res" and get :: "'s \<Rightarrow> nat \<Rightarrow> 's res" and bytes :: "'m \<Rightarrow> byte list"
  assumes put_law: "inv s \<Longrightarrow> may s m \<Longrightarrow> \<exists>s'. put s m = Inr s' \<and> inv s' \<and> contents s' = contents s @ bytes m"
    and get_law: "inv s \<Longrightarrow> n \<le> length (contents s) \<Longrightarrow>
      \<exists>s'. get s n = Inr s' \<and> inv s' \<and> contents s' = drop n (contents s)"
begin

lemma put_run: "inv s \<Longrightarrow> may s m \<Longrightarrow> put s m = Inr s' \<Longrightarrow> inv s' \<and> contents s' = contents s @ bytes m"
  using put_law by fastforce

lemma get_run: "inv s \<Longrightarrow> n \<le> length (contents s) \<Longrightarrow> get s n = Inr s' \<Longrightarrow> inv s' \<and> contents s' = drop n (contents s)"
  using get_law by fastforce

text \<open>First in, first out.\<close>

lemma trace_fifo:
  assumes "q_trace may put get contents bytes s w k s'" "inv s"
  shows "inv s' \<and> contents s' = drop k (contents s @ w) \<and> k \<le> length (contents s) + length w"
  using assms
proof (induction rule: q_trace.induct)
  case q_refl
  then show ?case by simp
next
  case (q_put w k s1 m s2)
  with put_run[of s1 m s2] show ?case by simp
next
  case (q_get w k s1 n s2)
  then have s1: "inv s1" "contents s1 = drop k (contents s @ w)" and k: "k \<le> length (contents s @ w)" by simp_all
  from get_run[OF s1(1) q_get.hyps(2,3)] have "inv s2" "contents s2 = drop (k + n) (contents s @ w)"
    unfolding s1(2) drop_drop add.commute[of n k] by simp_all
  moreover have "n \<le> length (contents s @ w) - k" using q_get.hyps(2) unfolding s1(2) length_drop .
  ultimately show ?case using k by simp
qed

text \<open>The queue never gets stuck: the next legal operation succeeds.\<close>

lemma trace_live:
  assumes "q_trace may put get contents bytes s w k s'" "inv s"
  shows "may s' m \<Longrightarrow> \<exists>s''. put s' m = Inr s''" and "n \<le> length (contents s') \<Longrightarrow> \<exists>s''. get s' n = Inr s''"
  using trace_fifo[OF assms] put_law[of s' m] get_law[of s' n] by auto

end

end
