(* ===== verification/Sockbuf_Props.thy ===== *)
theory Sockbuf_Props
  imports Sockbuf_Rec Byte_Queue
begin

text \<open>
  The socket buffer as a whole: it implements the byte queue interface, every operation keeps the
  invariant, and the reservation of buffer space is accounted for exactly.
\<close>

subsection \<open>The stream buffer is a byte queue\<close>

lemma sbcompress_loop_holes:
  assumes "\<forall>x \<in> set (pre @ opt n @ ms). is_hole x = h"
    and run: "sbcompress_loop sb ms pre n eor linked = Inr (sb', pre', n', eor', linked')"
  shows "\<forall>x \<in> set (pre' @ opt n'). is_hole x = h"
proof -
  have "\<forall>x \<in> set (pre' @ opt n' @ []). is_hole x = h"
    by (rule sbcompress_loop_rule[where P = "\<lambda>_ ms pre n _ _. \<forall>x \<in> set (pre @ opt n @ ms). is_hole x = h",
      OF assms(1) _ _ _ _ _ run]) (auto split: option.splits)
  then show ?thesis by simp
qed

text \<open>A receive or send buffer of a stream socket: one record at most, no holes, and a length below the
  range of \<open>sb_cc\<close>.\<close>

definition stream_inv :: "sockbuf \<Rightarrow> bool" where
  "stream_inv sb = (sb_ok sb \<and> length (sb_mb sb) \<le> 1 \<and> (\<forall>m \<in> set (concat (sb_mb sb)). \<not> is_hole m) \<and>
     chain_len (concat (sb_mb sb)) < 2 ^ 32)"

definition stream_may :: "sockbuf \<Rightarrow> chain \<Rightarrow> bool" where
  "stream_may sb m = (fresh m sb \<and> (\<forall>x \<in> set m. \<not> is_hole x) \<and> chain_len (concat (sb_mb sb)) + chain_len m < 2 ^ 32)"

lemma sb_data_length: "sb_ok sb \<Longrightarrow> length (sb_data sb) = chain_len (concat (sb_mb sb))"
  unfolding sb_data_def by (rule length_chain_data) (simp add: sb_ok_def)

lemma sbcompress_no_holes:
  assumes ok: "sb_ok sb" and fr: "fresh m sb" and nh: "\<forall>x \<in> set (concat (sb_mb sb) @ m). \<not> is_hole x"
    and run: "sbcompress sb m (sb_mbtail sb) = Inr sb'"
  shows "\<forall>x \<in> set (concat (sb_mb sb')). \<not> is_hole x"
proof (cases "sb_mb sb = []")
  case True
  note e = sb_ok_empty[OF ok True]
  obtain sb1 pre n' eor linked where lp: "sbcompress_loop sb m [] None False False = Inr (sb1, pre, n', eor, linked)"
    using run e by (auto simp: sbcompress_def res_bind_Inr)
  have "\<forall>x \<in> set (pre @ opt n'). is_hole x = False" by (rule sbcompress_loop_holes[OF _ lp]) (use nh in auto)
  moreover have "sb_mb sb1 = []" using sbcompress_loop_frame[OF lp] True by simp
  ultimately show ?thesis using run lp e by (auto simp: sbcompress_def split: option.splits if_splits)
next
  case False
  from ok False fr run show ?thesis
  proof (cases rule: sbcompress_tail_run)
    case (1 rb pre0 x0 sb1 pre x eor linked)
    have "\<forall>x \<in> set (pre @ opt (Some x)). is_hole x = False"
      by (rule sbcompress_loop_holes[OF _ 1(2)]) (use nh 1(1) in auto)
    with 1 nh show ?thesis by auto
  qed
qed

lemma stream_put:
  assumes "stream_inv sb" "stream_may sb m"
  shows "\<exists>sb'. sbappendstream_locked sb m = Inr sb' \<and> stream_inv sb' \<and> sb_data sb' = sb_data sb @ chain_data m"
proof -
  have ok: "sb_ok sb" "length (sb_mb sb) \<le> 1" "fresh m sb" and nh: "\<forall>x \<in> set (concat (sb_mb sb) @ m). \<not> is_hole x"
    using assms by (auto simp: stream_inv_def stream_may_def)
  have "sb_mb sb \<noteq> [] \<longrightarrow> is_hole (last (last (sb_mb sb))) = False"
  proof
    assume "sb_mb sb \<noteq> []"
    then have "last (last (sb_mb sb)) \<in> set (concat (sb_mb sb))"
      using ok(1) by (auto simp: sb_ok_def sb_ptrs_def intro!: bexI[of _ "last (sb_mb sb)"])
    with nh show "is_hole (last (last (sb_mb sb))) = False" by auto
  qed
  with sbappendstream_data[OF ok(1,3), of False] nh obtain sb' where
    r: "sbappendstream_locked sb m = Inr sb'" "sb_data sb' = sb_data sb @ chain_data m" by auto
  have ok': "sb_ok sb'" "length (sb_mb sb') \<le> 1" using sbappendstream_ok[OF ok r(1)] by auto
  obtain sb1 where c: "sbcompress sb m (sb_mbtail sb) = Inr sb1" and sb': "sb_mb sb' = sb_mb sb1"
    using r(1) by (auto simp: sbappendstream_locked_def res_bind_Inr)
  have "\<forall>x \<in> set (concat (sb_mb sb')). \<not> is_hole x" unfolding sb' by (rule sbcompress_no_holes[OF ok(1,3) nh c])
  moreover have "chain_len (concat (sb_mb sb')) = chain_len (concat (sb_mb sb)) + chain_len m"
    using sb_data_length[OF ok'(1)] sb_data_length[OF ok(1)] r(2) length_chain_data[of m] ok(3) by (simp add: fresh_def)
  ultimately show ?thesis using r ok' assms(2) by (simp add: stream_inv_def stream_may_def)
qed

lemma stream_get:
  assumes "stream_inv sb" "n \<le> length (sb_data sb)"
  shows "\<exists>sb'. sbdrop_internal sb (int n) = Inr sb' \<and> stream_inv sb' \<and> sb_data sb' = drop n (sb_data sb)"
proof -
  have ok: "sb_ok sb" "chain_len (concat (sb_mb sb)) < 2 ^ 32" using assms by (auto simp: stream_inv_def)
  have "nat (int n) \<le> chain_len (concat (sb_mb sb))" using assms(2) sb_data_length[OF ok(1)] by simp
  from sbdrop_internal_spec[OF ok this] obtain sb' where r: "sbdrop_internal sb (int n) = Inr sb'" "sb_ok sb'"
    "sb_data sb' = drop n (sb_data sb)" "m_flags ` set (concat (sb_mb sb')) \<subseteq> m_flags ` set (concat (sb_mb sb))"
    "length (sb_mb sb') \<le> length (sb_mb sb)" by auto
  have "\<not> is_hole x" if "x \<in> set (concat (sb_mb sb'))" for x
  proof -
    from that r(4) have "m_flags x \<in> m_flags ` set (concat (sb_mb sb))" by blast
    with assms(1) show ?thesis by (auto simp: stream_inv_def)
  qed
  moreover have "chain_len (concat (sb_mb sb')) < 2 ^ 32"
    using sb_data_length[OF r(2)] sb_data_length[OF ok(1)] r(3) ok(2) by simp
  ultimately show ?thesis using r assms(1) by (auto simp: stream_inv_def)
qed

interpretation sbq: byte_queue stream_inv sb_data stream_may sbappendstream_locked "\<lambda>sb n. sbdrop_internal sb (int n)" chain_data
  by unfold_locales (rule stream_put stream_get; assumption)+

subsection \<open>Reachable socket buffers\<close>

text \<open>A fresh socket buffer, as \<open>socreate\<close> leaves it after \<open>soreserve\<close>.\<close>

definition sb_init :: "u32 \<Rightarrow> u32 \<Rightarrow> u32 \<Rightarrow> sbflag set \<Rightarrow> sockbuf" where
  "sb_init hiwat mbmax lowat fl = \<lparr>sb_state = {}, sb_mb = [], sb_mbtail = None, sb_lastrecord = None, sb_sndptr = None,
     sb_sndptroff = 0, sb_cc = 0, sb_hiwat = hiwat, sb_mbcnt = 0, sb_mcnt = 0, sb_ccnt = 0, sb_mbmax = mbmax,
     sb_ctl = 0, sb_lowat = lowat, sb_timeo = 0, sb_flags = fl\<rparr>"

inductive sb_reach :: "sockbuf \<Rightarrow> bool" where
  reach_init: "sb_reach (sb_init hiwat mbmax lowat fl)"
| reach_stream: "sb_reach sb \<Longrightarrow> length (sb_mb sb) \<le> 1 \<Longrightarrow> fresh m sb \<Longrightarrow>
    sbappendstream_locked sb m = Inr sb' \<Longrightarrow> sb_reach sb'"
| reach_append: "sb_reach sb \<Longrightarrow> fresh m sb \<Longrightarrow> sbappend_locked sb m = Inr sb' \<Longrightarrow> sb_reach sb'"
| reach_record: "sb_reach sb \<Longrightarrow> fresh m sb \<Longrightarrow> sbappendrecord_locked sb m = Inr sb' \<Longrightarrow> sb_reach sb'"
| reach_control: "sb_reach sb \<Longrightarrow> control \<noteq> [] \<Longrightarrow> fresh (control @ m) sb \<Longrightarrow>
    sbappendcontrol_locked sb m control = Inr (b, sb') \<Longrightarrow> sb_reach sb'"
| reach_addr: "sb_reach sb \<Longrightarrow> fresh (control @ m) sb \<Longrightarrow>
    (\<And>a junk as'. as = Some (a, junk) # as' \<Longrightarrow> a \<notin> m_id ` set (control @ m @ concat (sb_mb sb))) \<Longrightarrow>
    sbappendaddr_locked as sb sa m control = Inr (b, sb', as'') \<Longrightarrow> sb_reach sb'"
| reach_drop: "sb_reach sb \<Longrightarrow> chain_len (concat (sb_mb sb)) < 2 ^ 32 \<Longrightarrow> nat len \<le> chain_len (concat (sb_mb sb)) \<Longrightarrow>
    sbdrop_internal sb len = Inr sb' \<Longrightarrow> sb_reach sb'"
| reach_droprecord: "sb_reach sb \<Longrightarrow> chain_len (concat (sb_mb sb)) < 2 ^ 32 \<Longrightarrow> sb_reach (sbdroprecord_locked sb)"
| reach_sndptr: "sb_reach sb \<Longrightarrow> sb_mb sb = r # rs \<Longrightarrow> chain_len r < 2 ^ 32 \<Longrightarrow> 0 < len \<Longrightarrow>
    unat off + unat len \<le> chain_len r \<Longrightarrow> sbsndptr sb off len = Inr (sb', ret, moff) \<Longrightarrow> sb_reach sb'"

lemma sb_ok_init: "sb_ok (sb_init hiwat mbmax lowat fl)"
  by (simp add: sb_ok_def sb_init_def sb_counts_def sb_ptrs_def sb_snd_def)

lemma sbappendaddr_ok:
  assumes ok: "sb_ok sb" and fr: "fresh (control @ m0) sb"
    and new: "\<And>a junk as'. as = Some (a, junk) # as' \<Longrightarrow> a \<notin> m_id ` set (control @ m0 @ concat (sb_mb sb))"
    and run: "sbappendaddr_locked as sb sa m0 control = Inr (b, sb', as'')"
  shows "sb_ok sb'"
proof (cases "sb' = sb")
  case True
  with ok show ?thesis by simp
next
  case False
  then obtain a junk as' where as: "as = Some (a, junk) # as'" and sa: "length sa \<le> MLEN"
    using run by (cases as; cases "hd as")
      (auto simp: sbappendaddr_locked_def Let_def split: if_splits)
  define x where "x = (m_init a junk MLEN MT_SONAME {})\<lparr>m_len := length sa, m_buf := poke 0 sa (m_buf (m_init a junk MLEN MT_SONAME {}))\<rparr>"
  have x: "m_id x = a" "m_flags x = {}" "wf_mbuf x"
    using sa by (simp_all add: x_def m_init_def wf_mbuf_def)
  have "fresh (x # control @ m0) sb" using fr new[OF as] x by (auto simp: fresh_def)
  from sbappend_list_ok[OF ok _ this] obtain sb1 where l: "SBLINKRECORD (foldl sballoc sb (x # control @ m0)) (x # control @ m0) = Inr sb1"
    "sb_ok (sb1\<lparr>sb_mbtail := Some (m_id (last (x # control @ m0)))\<rparr>)" by auto
  have "sb' = sb1\<lparr>sb_mbtail := Some (m_id (last (x # control @ m0)))\<rparr>"
    using run False l(1) unfolding as sbappendaddr_locked_def Let_def m_get.simps x_def[symmetric] option.case prod.case
    by (simp split: if_splits)
  with l(2) show ?thesis by (simp only:)
qed

lemma sb_reach_ok: "sb_reach sb \<Longrightarrow> sb_ok sb"
proof (induction rule: sb_reach.induct)
  case (reach_init hiwat mbmax lowat fl)
  then show ?case by (rule sb_ok_init)
next
  case (reach_stream sb m sb')
  from sbappendstream_ok[OF reach_stream.IH reach_stream.hyps(2-)] show ?case by (rule conjunct1)
next
  case (reach_append sb m sb')
  show ?case by (rule sbappend_ok[OF reach_append.IH reach_append.hyps(2-)])
next
  case (reach_record sb m sb')
  show ?case by (rule sbappendrecord_ok[OF reach_record.IH reach_record.hyps(2-)])
next
  case (reach_control sb control m b sb')
  with sbappendcontrol_ok[OF reach_control.IH reach_control.hyps(2,3)] show ?case by auto
next
  case (reach_addr sb control m as sa b sb' as'')
  show ?case by (rule sbappendaddr_ok[OF reach_addr.IH reach_addr.hyps(2-)])
next
  case (reach_drop sb len sb')
  with sbdrop_internal_spec[OF reach_drop.IH reach_drop.hyps(2,3)] show ?case by auto
next
  case (reach_droprecord sb)
  from sbdroprecord_ok[OF reach_droprecord.IH reach_droprecord.hyps(2)] show ?case by (rule conjunct1)
next
  case (reach_sndptr sb r rs len off sb' ret moff)
  with sbsndptr_spec[OF reach_sndptr.IH reach_sndptr.hyps(2-5)] show ?case by auto
qed

subsection \<open>Holes in a stream buffer\<close>

lemma sbcompress_one:
  assumes ok: "sb_ok sb" and mb: "sb_mb sb = [pre @ [n]]" and m: "0 < m_len m" "M_EOR \<notin> m_flags m"
    and co: "may_coalesce sb n m"
  shows "is_hole n \<Longrightarrow> \<exists>sb'. sbappendstream_locked sb [m] = Inr sb' \<and> sb_mb sb' = [pre @ [n\<lparr>m_len := m_len n + m_len m\<rparr>]]"
    and "\<not> is_hole n \<Longrightarrow> m_len m \<le> MCLBYTES div 4 \<Longrightarrow> m_off m + m_len m \<le> length (m_buf m) \<Longrightarrow>
      \<exists>sb'. sbappendstream_locked sb [m] = Inr sb' \<and> sb_mb sb' = [pre @ [n\<lparr>m_buf := poke (m_off n + m_len n) (m_bytes m 0 (m_len m)) (m_buf n),
         m_len := m_len n + m_len m\<rparr>]]"
proof -
  have p: "sb_ptrs sb" using ok by (simp add: sb_ok_def)
  have eq: "sbappendstream_locked sb [m] = res_bind (sbcompress sb [m] (sb_mbtail sb)) (\<lambda>sb'. Inr (sb'\<lparr>sb_lastrecord := mb_id (sb_mb sb')\<rparr>))"
    by (simp add: sbappendstream_locked_def)
  have nd: "\<not> drop_empty False m [] (Some n)" using m by (simp add: drop_empty_def)
  show "\<exists>sb'. sbappendstream_locked sb [m] = Inr sb' \<and> sb_mb sb' = [pre @ [n\<lparr>m_len := m_len n + m_len m\<rparr>]]" if "is_hole n"
    using that m co nd mb unfolding eq sbcompress_tail_eq[OF p] by (simp add: sbcompress_tail_eq[OF p] Let_def set_eor_def)
  show "\<exists>sb'. sbappendstream_locked sb [m] = Inr sb' \<and> sb_mb sb' = [pre @ [n\<lparr>m_buf := poke (m_off n + m_len n) (m_bytes m 0 (m_len m)) (m_buf n),
         m_len := m_len n + m_len m\<rparr>]]"
    if "\<not> is_hole n" "m_len m \<le> MCLBYTES div 4" "m_off m + m_len m \<le> length (m_buf m)"
    using that m co nd mb unfolding eq by (simp add: sbcompress_tail_eq[OF p] Let_def set_eor_def)
qed

lemma sbappend_hole_absorbs:
  assumes "sb_ok sb" "sb_mb sb = [pre @ [n]]" "0 < m_len m" "M_EOR \<notin> m_flags m" "may_coalesce sb n m" "is_hole n"
  shows "\<exists>sb'. sbappendstream_locked sb [m] = Inr sb' \<and> sb_data sb' = sb_data sb @ replicate (m_len m) 0"
  using sbcompress_one(1)[OF assms] assms(2,6)
  by (auto simp: sb_data_def mbuf_data_def replicate_add)

lemma sbappend_hole_storage:
  assumes "sb_ok sb" "sb_mb sb = [pre @ [n]]" "0 < m_len m" "M_EOR \<notin> m_flags m" "may_coalesce sb n m" "\<not> is_hole n"
    "m_len m \<le> MCLBYTES div 4" "m_off m + m_len m \<le> length (m_buf m)"
  shows "\<exists>sb'. sbappendstream_locked sb [m] = Inr sb' \<and> sb_data sb' = sb_data sb @ m_bytes m 0 (m_len m)"
proof -
  have wf: "wf_mbuf n" using assms(1,2) by (simp add: sb_ok_def)
  have l: "length (m_bytes m 0 (m_len m)) = m_len m" using assms(8) by (simp add: length_m_bytes)
  have "mbuf_data (n\<lparr>m_buf := poke (m_off n + m_len n) (m_bytes m 0 (m_len m)) (m_buf n), m_len := m_len n + m_len m\<rparr>)
      = mbuf_data n @ m_bytes m 0 (m_len m)"
    using mbuf_extend(1)[OF wf assms(6), of "m_bytes m 0 (m_len m)"] may_coalesce_room(1)[OF assms(5) wf assms(6)] unfolding l by simp
  with sbcompress_one(2)[OF assms(1-5,6-8)] assms(2) show ?thesis by (auto simp: sb_data_def)
qed

subsection \<open>Reservations\<close>

lemma chgsbsize_eq:
  assumes "unat hiwat < 2 ^ 31" "unat to < 2 ^ 31"
  shows "chgsbsize ui hiwat to lim =
    (if hiwat < to \<and> lim < ui + (ucast to - ucast hiwat) then None else Some (ui + (ucast to - ucast hiwat), to))"
proof -
  have s: "sint (to - hiwat) = uint to - uint hiwat"
  proof -
    have a: "uint to < 2147483648" "uint hiwat < 2147483648" using assms unfolding unat_eq_nat_uint nat_less_iff[OF uint_ge_0] by simp_all
    have b: "- 2147483648 \<le> uint to - uint hiwat" "uint to - uint hiwat < 2147483648"
      using a uint_ge_0[of to] uint_ge_0[of hiwat] by linarith+
    have "to - hiwat = word_of_int (uint to - uint hiwat)" by (simp only: of_int_diff word_of_int_uint)
    then have "sint (to - hiwat) = signed_take_bit (LENGTH(32) - 1) (uint to - uint hiwat)" by (simp only: sint_sbintrunc')
    also have "\<dots> = uint to - uint hiwat" by (rule signed_take_bit_int_eq_self) (use b in simp_all)
    finally show ?thesis .
  qed
  have u: "(of_int (uint w) :: u64) = ucast w" for w :: u32 by (rule ucast_eq[symmetric])
  show ?thesis unfolding chgsbsize_def Let_def s of_int_diff u by (simp add: word_less_def)
qed

lemma sbdrop_loop_hiwat: "sbdrop_loop sb m nx len = Inr (sb', m', nx') \<Longrightarrow> sb_hiwat sb' = sb_hiwat sb"
  by (induction sb m nx len rule: sbdrop_loop.induct) (auto split: if_splits list.splits)

lemma drop_zeros_hiwat: "drop_zeros sb m = (sb', m') \<Longrightarrow> sb_hiwat sb' = sb_hiwat sb"
  by (induction sb m rule: drop_zeros.induct) (auto split: if_splits)

lemma finish_drop_hiwat [simp]: "sb_hiwat (finish_drop sb rs) = sb_hiwat sb"
  by (auto simp: finish_drop_def split: list.splits)

lemma sbdrop_internal_hiwat:
  assumes "sbdrop_internal sb len = Inr sb'"
  shows "sb_hiwat sb' = sb_hiwat sb"
proof -
  obtain m nx where mn: "(case sb_mb sb of [] \<Rightarrow> ([], []) | r # rs \<Rightarrow> (r, rs)) = (m, nx)" by fastforce
  obtain sb1 m1 nx1 where lp: "sbdrop_loop sb m nx (nat len) = Inr (sb1, m1, nx1)"
    using assms unfolding sbdrop_internal_def mn by (auto simp: res_bind_Inr)
  obtain sb2 m2 where dz: "drop_zeros sb1 m1 = (sb2, m2)" by fastforce
  have "sb' = finish_drop sb2 (if m2 \<noteq> [] then m2 # nx1 else nx1)"
    using assms unfolding sbdrop_internal_def mn finish_drop_def by (simp add: lp dz Let_def)
  then show ?thesis using sbdrop_loop_hiwat[OF lp] drop_zeros_hiwat[OF dz] by simp
qed

lemma sbflush_loop_hiwat: "sbflush_loop fuel sb = Inr sb' \<Longrightarrow> sb_hiwat sb' = sb_hiwat sb"
proof (induction fuel arbitrary: sb)
  case 0
  then show ?case by (subst (asm) sbflush_loop.simps) (auto split: if_splits)
next
  case (Suc fuel)
  then show ?case
    by (subst (asm) (2) sbflush_loop.simps) (auto simp: res_bind_Inr split: if_splits dest: sbdrop_internal_hiwat)
qed

lemma unat_ucast_64: "unat (ucast w :: u64) = unat (w :: u32)"
  using unsigned_less[of w, where 'a = nat] by (simp add: unsigned_ucast_eq take_bit_nat_eq_self)

text \<open>Whether a reservation of \<open>cc\<close> bytes is granted: the size is at most the adjusted maximum, and a raise keeps the charge within the limit.\<close>

definition charge_fits :: "u64 \<Rightarrow> u64 \<Rightarrow> u64 \<Rightarrow> u64 \<Rightarrow> sockbuf \<Rightarrow> bool" where
  "charge_fits sb_max ui lim cc sb \<longleftrightarrow> cc \<le> sb_max_adj_of sb_max \<and> (ucast (sb_hiwat sb) < cc \<longrightarrow> ui + (cc - ucast (sb_hiwat sb)) \<le> lim)"

lemma sbreserve_eq:
  assumes "unat (sb_hiwat sb) < 2 ^ 31" "unat (sb_max_adj_of sb_max) < 2 ^ 31"
  shows "sbreserve_locked sb_max ui (Some lim) cc sb =
    (if charge_fits sb_max ui lim cc sb
     then Some (ui + (cc - ucast (sb_hiwat sb)), sb\<lparr>sb_hiwat := ucast cc, sb_mbmax := min (ucast (cc * sb_efficiency)) (ucast sb_max),
       sb_lowat := min (sb_lowat sb) (ucast cc)\<rparr>)
     else None)"
proof (cases "cc \<le> sb_max_adj_of sb_max")
  case True
  then have "unat cc < 2 ^ 31" using assms(2) by (simp add: word_le_nat_alt)
  then have c: "unat (ucast cc :: u32) = unat cc" "unat (ucast cc :: u32) < 2 ^ 31" by (simp_all add: unsigned_ucast_eq take_bit_nat_eq_self)
  have h: "unat (ucast (sb_hiwat sb) :: u64) = unat (sb_hiwat sb)" by (rule unat_ucast_64)
  have e: "(ucast (ucast cc :: u32) :: u64) = cc" using c(1) by (simp add: word_unat_eq_iff unat_ucast_64)
  have l: "sb_hiwat sb < ucast cc \<longleftrightarrow> ucast (sb_hiwat sb) < cc" using c(1) h by (simp add: word_less_nat_alt)
  note ch = chgsbsize_eq[OF assms(1) c(2), unfolded e l]
  have lw: "(if ucast cc < sb_lowat sb1 then sb1\<lparr>sb_lowat := ucast cc\<rparr> else sb1) = sb1\<lparr>sb_lowat := min (sb_lowat sb1) (ucast cc)\<rparr>" for sb1
    by (simp add: min_def not_less)
  show ?thesis
  proof (cases "ucast (sb_hiwat sb) < cc \<and> lim < ui + (cc - ucast (sb_hiwat sb))")
    case no: True
    have "chgsbsize ui (sb_hiwat sb) (ucast cc) lim = None" unfolding ch using no by (rule if_P)
    moreover have "\<not> charge_fits sb_max ui lim cc sb" using no by (simp add: charge_fits_def not_le)
    ultimately show ?thesis using True by (simp add: sbreserve_locked_def not_less)
  next
    case yes: False
    have "chgsbsize ui (sb_hiwat sb) (ucast cc) lim = Some (ui + (cc - ucast (sb_hiwat sb)), ucast cc)" unfolding ch using yes by (rule if_not_P)
    moreover have "charge_fits sb_max ui lim cc sb" using yes True unfolding charge_fits_def by (metis not_less)
    ultimately show ?thesis using True unfolding sbreserve_locked_def Let_def lw by (simp add: not_less)
  qed
qed (simp add: sbreserve_locked_def charge_fits_def not_le)

lemma sbrelease_spec:
  assumes "sb_ok sb" "chain_len (concat (sb_mb sb)) < 2 ^ 31" "sum_list (map mb_size (concat (sb_mb sb))) < 2 ^ 32"
    "length (sb_mb sb) \<le> fuel" "unat (sb_hiwat sb) < 2 ^ 31"
  shows "\<exists>sb'. sbrelease_internal fuel ui sb = Inr (ui - ucast (sb_hiwat sb), sb') \<and> sb_mb sb' = [] \<and> sb_hiwat sb' = 0 \<and> sb_mbmax sb' = 0"
proof -
  obtain sb1 where f: "sbflush_internal fuel sb = Inr sb1" "sb_mb sb1 = []" using sbflush_internal_spec[OF assms(1-4)] by blast
  have h: "sb_hiwat sb1 = sb_hiwat sb"
    using f(1) sbflush_loop_hiwat by (auto simp: sbflush_internal_def res_bind_Inr split: if_splits)
  show ?thesis using f chgsbsize_eq[of "sb_hiwat sb1" 0 ui RLIM_INFINITY] assms(5) h by (simp add: sbrelease_internal_def)
qed

lemma sb_ok_reserve: "sb_ok (sb\<lparr>sb_hiwat := a, sb_mbmax := b, sb_lowat := c\<rparr>) = sb_ok sb"
  by (simp add: sb_ok_def sb_counts_def sb_ptrs_def sb_snd_def split: option.split list.split)

subsection \<open>Properties\<close>

text \<open>A sample buffer and an mbuf to append.\<close>

definition sb_sample :: sockbuf where "sb_sample = sb_init 65536 262144 1 {}"

definition mb_sample :: mbuf where "mb_sample = data_mb 1 {} [1, 2, 3] 5"

lemma fresh_sample: "fresh [mb_sample] sb_sample"
  by (simp add: fresh_def sb_sample_def mb_sample_def sb_init_def data_mb_def wf_mbuf_def mbuf_consts)

lemma stream_sample: "stream_inv sb_sample" "stream_may sb_sample [mb_sample]"
  using sb_ok_init[of 65536 262144 1 "{}"] fresh_sample
  by (simp_all add: stream_inv_def stream_may_def sb_sample_def mb_sample_def sb_init_def data_mb_def)

text \<open>C2: A stream socket buffer without holes is a FIFO byte queue: after any interleaving of
  \<open>sbappendstream\<close> and \<open>sbdrop\<close>, it holds exactly the bytes appended without the bytes dropped, in order.\<close>

theorem sb_stream_fifo:
  assumes "stream_inv sb"
    and "q_trace stream_may sbappendstream_locked (\<lambda>sb n. sbdrop_internal sb (int n)) sb_data chain_data sb w k sb'"
  shows "stream_inv sb' \<and> sb_data sb' = drop k (sb_data sb @ w) \<and> k \<le> length (sb_data sb) + length w"
  by (rule sbq.trace_fifo[OF assms(2,1)])

theorem sb_stream_fifo_witness:
  "\<exists>sb'. q_trace stream_may sbappendstream_locked (\<lambda>sb n. sbdrop_internal sb (int n)) sb_data chain_data
     sb_sample [1, 2, 3] 1 sb' \<and> sb_data sb' = [2, 3]"
proof -
  let ?tr = "q_trace stream_may sbappendstream_locked (\<lambda>sb n. sbdrop_internal sb (int n)) sb_data chain_data sb_sample"
  obtain sb1 where 1: "sbappendstream_locked sb_sample [mb_sample] = Inr sb1" "stream_inv sb1"
    "sb_data sb1 = sb_data sb_sample @ chain_data [mb_sample]" using stream_put[OF stream_sample] by blast
  have d: "chain_data [mb_sample] = [1, 2, 3]" "sb_data sb_sample = []"
    by (simp_all add: mb_sample_def sb_sample_def sb_init_def sb_data_def data_mb_def mbuf_data_def m_bytes_def)
  obtain sb2 where 2: "sbdrop_internal sb1 (int 1) = Inr sb2" using stream_get[OF 1(2), of 1] 1(3) d by auto
  have "?tr ([] @ chain_data [mb_sample]) 0 sb1" by (rule q_put, rule q_refl) (rule stream_sample(2) 1(1))+
  then have "?tr ([] @ chain_data [mb_sample]) (0 + 1) sb2" by (rule q_get) (use 1(3) d 2 in simp_all)
  then have tr: "?tr [1, 2, 3] 1 sb2" using d by simp
  from sb_stream_fifo[OF stream_sample(1) tr] d tr show ?thesis by auto
qed

text \<open>C8: Every socket buffer reachable from a fresh one through \<open>sbappendstream\<close>, \<open>sbappend\<close>,
  \<open>sbappendrecord\<close>, \<open>sbappendcontrol\<close>, \<open>sbappendaddr\<close>, \<open>sbdrop\<close>, \<open>sbdroprecord\<close> and \<open>sbsndptr\<close> keeps its
  invariant: counters equal to what the chains hold, \<open>sb_mbtail\<close>, \<open>sb_lastrecord\<close> and \<open>sb_sndptr\<close> pointing
  where the code assumes; and the consistency check \<open>sbcheck\<close> passes while the counts fit their words.\<close>

theorem sb_reachable_invariant:
  assumes "sb_reach sb"
  shows "sb_counts sb (concat (sb_mb sb)) \<and> sb_ptrs sb \<and> sb_snd sb \<and> wf_chain (concat (sb_mb sb)) \<and>
    (chain_len (concat (sb_mb sb)) < 2 ^ 32 \<and> sum_list (map mb_size (concat (sb_mb sb))) < 2 ^ 32 \<longrightarrow> sbcheck sb)"
proof -
  have ok: "sb_ok sb" by (rule sb_reach_ok[OF assms])
  have "mb_size = (\<lambda>m. MSIZE + (if is_ext m then length (m_buf m) else 0))" by (auto simp: mb_size_def)
  then show ?thesis using ok
    by (auto simp: sb_ok_def sb_counts_def sbcheck_def Let_def unat_of_nat take_bit_nat_eq_self)
qed

theorem sb_reachable_invariant_witness:
  "\<exists>sb'. sbappendstream_locked sb_sample [mb_sample] = Inr sb' \<and> sb_counts sb' (concat (sb_mb sb')) \<and> sb_ptrs sb' \<and> sb_snd sb'"
proof -
  obtain sb' where r: "sbappendstream_locked sb_sample [mb_sample] = Inr sb'" using stream_put[OF stream_sample] by blast
  have "sb_reach sb_sample" unfolding sb_sample_def by (rule reach_init)
  then have "sb_reach sb'" by (rule reach_stream[OF _ _ fresh_sample r]) (simp add: sb_sample_def sb_init_def)
  from sb_reachable_invariant[OF this] r show ?thesis by blast
qed

text \<open>C22: \<open>sbdrop\<close> of at most the bytes present succeeds, keeps the invariant and removes exactly that many
  bytes from the front, across mbufs and records.\<close>

theorem sbdrop_drops:
  assumes "sb_ok sb" "chain_len (concat (sb_mb sb)) < 2 ^ 32" "nat len \<le> chain_len (concat (sb_mb sb))"
  shows "\<exists>sb'. sbdrop_internal sb len = Inr sb' \<and> sb_ok sb' \<and> sb_data sb' = drop (nat len) (sb_data sb)"
  using sbdrop_internal_spec[OF assms] by blast

theorem sbdrop_drops_witness:
  "\<exists>sb sb'. sbappendstream_locked sb_sample [mb_sample] = Inr sb \<and> sbdrop_internal sb 2 = Inr sb' \<and> sb_data sb' = [3]"
proof -
  obtain sb where 1: "sbappendstream_locked sb_sample [mb_sample] = Inr sb" "stream_inv sb"
    "sb_data sb = sb_data sb_sample @ chain_data [mb_sample]" using stream_put[OF stream_sample] by blast
  have d: "sb_data sb = [1, 2, 3]" unfolding 1(3)
    by (simp add: mb_sample_def sb_sample_def sb_init_def sb_data_def data_mb_def mbuf_data_def m_bytes_def)
  have ok: "sb_ok sb" using 1(2) by (simp add: stream_inv_def)
  have "chain_len (concat (sb_mb sb)) = 3" using sb_data_length[OF ok] d by simp
  with sbdrop_drops[OF ok, of 2] d 1(1) show ?thesis by auto
qed

text \<open>C24: \<open>sbflush\<close> terminates and leaves an empty buffer without panicking, in at most as many rounds as
  there are records, as long as the byte count fits an \<open>int\<close> and the storage count a 32-bit word.\<close>

theorem sbflush_terminates:
  assumes "sb_ok sb" "chain_len (concat (sb_mb sb)) < 2 ^ 31" "sum_list (map mb_size (concat (sb_mb sb))) < 2 ^ 32"
    "length (sb_mb sb) \<le> fuel"
  shows "\<exists>sb'. sbflush_internal fuel sb = Inr sb' \<and> sb_mb sb' = [] \<and> sb_cc sb' = 0 \<and> sb_mbcnt sb' = 0"
proof -
  obtain sb' where r: "sbflush_internal fuel sb = Inr sb'" "sb_ok sb'" "sb_mb sb' = []"
    using sbflush_internal_spec[OF assms] by blast
  with sb_ok_empty(5)[OF r(2,3)] show ?thesis by (simp add: sb_counts_def)
qed

theorem sbflush_terminates_witness:
  "\<exists>sb sb'. sbappendstream_locked sb_sample [mb_sample] = Inr sb \<and> sbflush_internal 1 sb = Inr sb' \<and> sb_mb sb' = []"
proof -
  obtain sb where 1: "sbappendstream_locked sb_sample [mb_sample] = Inr sb" "stream_inv sb" using stream_put[OF stream_sample] by blast
  have mb: "sb_mb sb = [[mb_sample]]" using 1(1)
    by (simp add: sbappendstream_locked_def sbcompress_def sb_sample_def sb_init_def mb_sample_def data_mb_def drop_empty_def
        set_eor_def sballoc_def Let_def)
       (auto simp: sballoc_def Let_def)
  have "sb_ok sb" using 1(2) by (simp add: stream_inv_def)
  with sbflush_terminates[of sb 1] mb 1(1) show ?thesis
    by (auto simp: mb_sample_def data_mb_def mb_size_def mbuf_consts)
qed

text \<open>C25: \<open>sbsndptr\<close> returns an mbuf and an offset at which the stream reads as at offset \<open>off\<close> from the
  front, and keeps the cached send pointer consistent.\<close>

theorem sbsndptr_position:
  assumes "sb_ok sb" "sb_mb sb = r # rs" "chain_len r < 2 ^ 32" "0 < len" "unat off + unat len \<le> chain_len r"
  shows "\<exists>sb' ret moff. sbsndptr sb off len = Inr (sb', ret, moff) \<and> sb_ok sb' \<and> sb_mb sb' = sb_mb sb \<and>
    drop (unat moff) (chain_data ret) = drop (unat off) (chain_data r)"
  using sbsndptr_spec[OF assms] by blast

theorem sbsndptr_position_witness:
  "\<exists>sb sb' ret moff. sbappendstream_locked sb_sample [mb_sample] = Inr sb \<and> sbsndptr sb 1 2 = Inr (sb', ret, moff) \<and>
     drop (unat moff) (chain_data ret) = [2, 3]"
proof -
  obtain sb where 1: "sbappendstream_locked sb_sample [mb_sample] = Inr sb" "stream_inv sb" using stream_put[OF stream_sample] by blast
  have mb: "sb_mb sb = [[mb_sample]]" using 1(1)
    by (simp add: sbappendstream_locked_def sbcompress_def sb_sample_def sb_init_def mb_sample_def data_mb_def drop_empty_def
        set_eor_def sballoc_def Let_def)
       (auto simp: sballoc_def Let_def)
  have l: "chain_len [mb_sample] = 3" "chain_data [mb_sample] = [1, 2, 3]"
    by (simp_all add: mb_sample_def data_mb_def mbuf_data_def m_bytes_def)
  have "sb_ok sb" using 1(2) by (simp add: stream_inv_def)
  from sbsndptr_position[OF this mb, of 2 1] l 1(1) show ?thesis by auto
qed

text \<open>C33: Data appended behind a hole is lost: when the last mbuf of a stream buffer is a hole that may be
  coalesced into, \<open>sbappendstream\<close> adds the length of the new data to the hole and frees the data, so the
  stream continues with zeros.\<close>

theorem sbappendstream_hole_absorbs:
  assumes "sb_ok sb" "sb_mb sb = [pre @ [n]]" "is_hole n" "may_coalesce sb n m"
    and "\<not> is_hole m" "0 < m_len m" "M_EOR \<notin> m_flags m"
  shows "\<exists>sb'. sbappendstream_locked sb [m] = Inr sb' \<and> sb_data sb' = sb_data sb @ replicate (m_len m) 0"
  by (rule sbappend_hole_absorbs[OF assms(1,2,6,7,4,3)])

theorem sbappendstream_hole_absorbs_witness:
  "\<exists>sb sb'. sbappendstream_locked sb_sample [hole_mb 9 2] = Inr sb \<and>
     sbappendstream_locked sb [mb_sample] = Inr sb' \<and> sb_data sb' = [0, 0] @ [0, 0, 0] \<and> chain_data [mb_sample] = [1, 2, 3]"
proof -
  have fr: "fresh [hole_mb 9 2] sb_sample"
    by (simp add: fresh_def sb_sample_def hole_mb_def sb_init_def wf_mbuf_def mbuf_consts)
  have ok0: "sb_ok sb_sample" "length (sb_mb sb_sample) \<le> 1" using stream_sample(1) by (simp_all add: stream_inv_def)
  have "\<forall>x \<in> set [hole_mb 9 2]. is_hole x = True" "sb_mb sb_sample \<noteq> [] \<longrightarrow> is_hole (last (last (sb_mb sb_sample))) = True"
    by (simp_all add: hole_mb_def sb_sample_def sb_init_def)
  from sbappendstream_data[OF ok0(1) fr this] obtain sb where 1: "sbappendstream_locked sb_sample [hole_mb 9 2] = Inr sb"
    "sb_data sb = sb_data sb_sample @ chain_data [hole_mb 9 2]" by blast
  have ok: "sb_ok sb" using sbappendstream_ok[OF ok0 fr 1(1)] by blast
  have mb: "sb_mb sb = [[] @ [hole_mb 9 2]]" "SB_NOCOALESCE \<notin> sb_flags sb" using 1(1)
    by (simp_all add: sbappendstream_locked_def sbcompress_def sb_sample_def sb_init_def hole_mb_def drop_empty_def
        set_eor_def sballoc_def Let_def)
       (auto simp: sballoc_def Let_def)
  have d: "sb_data sb = [0, 0]" "chain_data [mb_sample] = [1, 2, 3]" unfolding 1(2)
    by (simp_all add: sb_sample_def sb_init_def sb_data_def hole_mb_def mbuf_data_def mb_sample_def data_mb_def m_bytes_def numeral_eq_Suc)
  have "\<exists>sb'. sbappendstream_locked sb [mb_sample] = Inr sb' \<and> sb_data sb' = sb_data sb @ replicate (m_len mb_sample) 0"
    by (rule sbappendstream_hole_absorbs[OF ok mb(1)])
      (simp_all add: hole_mb_def mb_sample_def data_mb_def may_coalesce_def M_WRITABLE_def M_TRAILINGSPACE_def mbuf_consts mb(2))
  moreover have "replicate (m_len mb_sample) (0 :: byte) = [0, 0, 0]" by (simp add: mb_sample_def data_mb_def numeral_eq_Suc)
  ultimately show ?thesis using 1(1) d by auto
qed

text \<open>C34: A short hole appended behind a writable data mbuf with room is copied from the storage of the hole,
  which was never initialised, instead of as zeros.\<close>

theorem sbappendstream_hole_storage:
  assumes "sb_ok sb" "sb_mb sb = [pre @ [n]]" "\<not> is_hole n" "may_coalesce sb n m"
    and "is_hole m" "0 < m_len m" "M_EOR \<notin> m_flags m" "m_len m \<le> MCLBYTES div 4" "m_off m + m_len m \<le> length (m_buf m)"
  shows "\<exists>sb'. sbappendstream_locked sb [m] = Inr sb' \<and> sb_data sb' = sb_data sb @ m_bytes m 0 (m_len m)"
  by (rule sbappend_hole_storage[OF assms(1,2,6,7,4,3,8,9)])

theorem sbappendstream_hole_storage_witness:
  "\<exists>sb sb'. sbappendstream_locked sb_sample [mb_sample] = Inr sb \<and>
     sbappendstream_locked sb [data_mb 9 {M_HOLE} [170, 187] 0] = Inr sb' \<and> sb_data sb' = [1, 2, 3, 170, 187]"
proof -
  let ?h = "data_mb 9 {M_HOLE} [170, 187] 0"
  obtain sb where 1: "sbappendstream_locked sb_sample [mb_sample] = Inr sb" "stream_inv sb"
    "sb_data sb = sb_data sb_sample @ chain_data [mb_sample]" using stream_put[OF stream_sample] by blast
  have mb: "sb_mb sb = [[] @ [mb_sample]]" "SB_NOCOALESCE \<notin> sb_flags sb" using 1(1)
    by (simp_all add: sbappendstream_locked_def sbcompress_def sb_sample_def sb_init_def mb_sample_def data_mb_def drop_empty_def
        set_eor_def sballoc_def Let_def)
       (auto simp: sballoc_def Let_def)
  have d: "sb_data sb = [1, 2, 3]" unfolding 1(3)
    by (simp add: mb_sample_def sb_sample_def sb_init_def sb_data_def data_mb_def mbuf_data_def m_bytes_def)
  have ok: "sb_ok sb" using 1(2) by (simp add: stream_inv_def)
  have "\<exists>sb'. sbappendstream_locked sb [?h] = Inr sb' \<and> sb_data sb' = sb_data sb @ m_bytes ?h 0 (m_len ?h)"
    by (rule sbappendstream_hole_storage[OF ok mb(1)])
      (simp_all add: mb_sample_def data_mb_def may_coalesce_def M_WRITABLE_def M_TRAILINGSPACE_def mbuf_consts mb(2))
  moreover have "m_bytes ?h 0 (m_len ?h) = [170, 187]" by (simp add: data_mb_def m_bytes_def)
  ultimately show ?thesis using 1(1) d by auto
qed

text \<open>C26: \<open>soreserve\<close> returns on every path, and the charge of the user is exact on each.  If the send buffer is refused nothing
  changes.  If only the receive buffer is refused, the send buffer is released: its bytes, its marks and everything it was charged are gone.
  Otherwise the charge changes by the change of the two high-water marks, which are the sizes asked for, and no byte is lost.\<close>

theorem soreserve_accounts:
  assumes "sb_ok so_snd" "chain_len (concat (sb_mb so_snd)) < 2 ^ 31" "sum_list (map mb_size (concat (sb_mb so_snd))) < 2 ^ 32"
    "length (sb_mb so_snd) \<le> fuel"
    and "unat (sb_hiwat so_snd) < 2 ^ 31" "unat (sb_hiwat so_rcv) < 2 ^ 31" "unat (sb_max_adj_of sb_max) < 2 ^ 31"
  shows "let r = soreserve fuel sb_max ui lim so_snd so_rcv sndcc rcvcc; ui1 = ui + (sndcc - ucast (sb_hiwat so_snd))
    in if \<not> charge_fits sb_max ui lim sndcc so_snd then r = Inr (False, ui, so_snd, so_rcv)
       else if \<not> charge_fits sb_max ui1 lim rcvcc so_rcv then
         \<exists>s. r = Inr (False, ui - ucast (sb_hiwat so_snd), s, so_rcv) \<and> sb_mb s = [] \<and> sb_hiwat s = 0 \<and> sb_mbmax s = 0
       else \<exists>s v. r = Inr (True, ui1 + (rcvcc - ucast (sb_hiwat so_rcv)), s, v) \<and>
         sb_hiwat s = ucast sndcc \<and> sb_hiwat v = ucast rcvcc \<and> sb_mb s = sb_mb so_snd \<and> sb_mb v = sb_mb so_rcv \<and>
         0 < sb_lowat v \<and> sb_lowat s \<le> sb_hiwat s"
proof -
  let ?s1 = "so_snd\<lparr>sb_hiwat := ucast sndcc, sb_mbmax := min (ucast (sndcc * sb_efficiency)) (ucast sb_max),
    sb_lowat := min (sb_lowat so_snd) (ucast sndcc)\<rparr>"
  define ui1 where "ui1 = ui + (sndcc - ucast (sb_hiwat so_snd))"
  note snd = sbreserve_eq[OF assms(5,7), of ui lim sndcc, folded ui1_def] and rcv = sbreserve_eq[OF assms(6,7), of ui1 lim rcvcc]
  have rel: "\<exists>s. sbrelease_internal fuel ui1 ?s1 = Inr (ui - ucast (sb_hiwat so_snd), s) \<and> sb_mb s = [] \<and> sb_hiwat s = 0 \<and> sb_mbmax s = 0"
    if "charge_fits sb_max ui lim sndcc so_snd"
  proof -
    have "unat sndcc < 2 ^ 31" using that assms(7) by (simp add: charge_fits_def word_le_nat_alt)
    then have "unat (ucast sndcc :: u32) = unat sndcc" by (simp add: unsigned_ucast_eq take_bit_nat_eq_self)
    moreover from this have e: "(ucast (ucast sndcc :: u32) :: u64) = sndcc" by (simp add: word_unat_eq_iff unat_ucast_64)
    ultimately have c: "unat (sb_hiwat ?s1) < 2 ^ 31" "ui1 - ucast (sb_hiwat ?s1) = ui - ucast (sb_hiwat so_snd)"
      using \<open>unat sndcc < 2 ^ 31\<close> by (simp_all add: ui1_def e)
    show ?thesis using sbrelease_spec[of ?s1 fuel ui1] assms(1-4) c by (simp add: sb_ok_reserve)
  qed
  let ?r = "soreserve fuel sb_max ui lim so_snd so_rcv sndcc rcvcc"
  consider (no) "\<not> charge_fits sb_max ui lim sndcc so_snd"
    | (half) "charge_fits sb_max ui lim sndcc so_snd" "\<not> charge_fits sb_max ui1 lim rcvcc so_rcv"
    | (both) "charge_fits sb_max ui lim sndcc so_snd" "charge_fits sb_max ui1 lim rcvcc so_rcv" by blast
  then show ?thesis
  proof cases
    case no
    then have "?r = Inr (False, ui, so_snd, so_rcv)" by (simp add: soreserve_def snd)
    with no show ?thesis by simp
  next
    case half
    obtain s where s: "sbrelease_internal fuel ui1 ?s1 = Inr (ui - ucast (sb_hiwat so_snd), s)" "sb_mb s = []" "sb_hiwat s = 0" "sb_mbmax s = 0"
      using rel[OF half(1)] by blast
    have "?r = Inr (False, ui - ucast (sb_hiwat so_snd), s, so_rcv)"
      unfolding soreserve_def snd if_P[OF half(1)] option.case prod.case rcv if_not_P[OF half(2)] s(1) by simp
    with half s(2-4) show ?thesis by (simp add: ui1_def)
  next
    case both
    have "\<exists>s v. ?r = Inr (True, ui1 + (rcvcc - ucast (sb_hiwat so_rcv)), s, v) \<and> sb_hiwat s = ucast sndcc \<and> sb_hiwat v = ucast rcvcc \<and>
        sb_mb s = sb_mb so_snd \<and> sb_mb v = sb_mb so_rcv \<and> 0 < sb_lowat v \<and> sb_lowat s \<le> sb_hiwat s"
      unfolding soreserve_def snd if_P[OF both(1)] option.case prod.case rcv if_P[OF both(2)] Let_def
      by (intro exI conjI, rule refl) (simp_all add: word_gt_0 not_less)
    with both show ?thesis by (simp add: ui1_def)
  qed
qed

theorem soreserve_accounts_witness:
  "\<exists>s. soreserve 0 SB_MAX 0 40000 (sb_init 0 0 0 {}) (sb_init 0 0 0 {}) 32768 16384 = Inr (False, 0, s, sb_init 0 0 0 {}) \<and>
     sb_mb s = [] \<and> sb_hiwat s = 0 \<and> sb_mbmax s = 0"
proof -
  have ok: "sb_ok (sb_init 0 0 0 {})" by (rule sb_ok_init)
  have h: "sb_hiwat (sb_init 0 0 0 {}) = 0" "sb_mb (sb_init 0 0 0 {}) = []" by (simp_all add: sb_init_def)
  have m: "sb_max_adj_of SB_MAX = 1864135" by (simp add: sb_max_adj_of_def SB_MAX_def mbuf_consts)
  have f: "charge_fits SB_MAX 0 40000 32768 (sb_init 0 0 0 {})" "\<not> charge_fits SB_MAX (0 + (32768 - ucast (0 :: u32))) 40000 16384 (sb_init 0 0 0 {})"
    by (simp_all add: charge_fits_def m h)
  show ?thesis
    using soreserve_accounts[OF ok, of 0 "sb_init 0 0 0 {}" SB_MAX 0 40000 32768 16384] f by (simp add: h m)
qed

end
