(* ===== verification/Tcp_Seq.thy ===== *)
theory Tcp_Seq
  imports Prelude
begin

text \<open>
  Sequence numbers and connection states: \<open>sys/netinet/tcp_seq.h\<close> and \<open>sys/netinet/tcp_fsm.h\<close>.  A sequence
  number is a 32-bit word; the comparison macros look at the sign of the difference.  They order numbers
  consistently as long as these lie within half the sequence space of a common base.
\<close>

definition SEQ_LT :: "u32 \<Rightarrow> u32 \<Rightarrow> bool" where "SEQ_LT a b \<longleftrightarrow> sint (a - b) < 0"
definition SEQ_LEQ :: "u32 \<Rightarrow> u32 \<Rightarrow> bool" where "SEQ_LEQ a b \<longleftrightarrow> sint (a - b) \<le> 0"
definition SEQ_GT :: "u32 \<Rightarrow> u32 \<Rightarrow> bool" where "SEQ_GT a b \<longleftrightarrow> sint (a - b) > 0"
definition SEQ_GEQ :: "u32 \<Rightarrow> u32 \<Rightarrow> bool" where "SEQ_GEQ a b \<longleftrightarrow> sint (a - b) \<ge> 0"
definition SEQ_MIN :: "u32 \<Rightarrow> u32 \<Rightarrow> u32" where "SEQ_MIN a b = (if SEQ_LT a b then a else b)"
definition SEQ_MAX :: "u32 \<Rightarrow> u32 \<Rightarrow> u32" where "SEQ_MAX a b = (if SEQ_GT a b then a else b)"

datatype tcps = TCPS_CLOSED | TCPS_LISTEN | TCPS_SYN_SENT | TCPS_SYN_RECEIVED | TCPS_ESTABLISHED
  | TCPS_CLOSE_WAIT | TCPS_FIN_WAIT_1 | TCPS_CLOSING | TCPS_LAST_ACK | TCPS_FIN_WAIT_2 | TCPS_TIME_WAIT

definition TCPS_HAVEESTABLISHED :: "tcps \<Rightarrow> bool" where
  "TCPS_HAVEESTABLISHED s \<longleftrightarrow> s \<notin> {TCPS_CLOSED, TCPS_LISTEN, TCPS_SYN_SENT, TCPS_SYN_RECEIVED}"

definition TCPS_HAVERCVDSYN :: "tcps \<Rightarrow> bool" where
  "TCPS_HAVERCVDSYN s \<longleftrightarrow> s \<notin> {TCPS_CLOSED, TCPS_LISTEN, TCPS_SYN_SENT}"

definition TCPS_HAVERCVDFIN :: "tcps \<Rightarrow> bool" where
  "TCPS_HAVERCVDFIN s \<longleftrightarrow> s = TCPS_TIME_WAIT"

subsection \<open>Positions relative to a base\<close>

text \<open>\<open>pos b s\<close> is how far \<open>s\<close> lies after the base \<open>b\<close> on the circle.\<close>

definition pos :: "u32 \<Rightarrow> u32 \<Rightarrow> nat" where
  "pos b s = unat (s - b)"

lemma pos_less [simp]: "pos b s < 4294967296"
  using unsigned_less[of "s - b"] by (simp add: pos_def)

lemma pos_self [simp]: "pos b b = 0"
  by (simp add: pos_def)

lemma pos_eq_iff: "pos b s = pos b t \<longleftrightarrow> s = t"
  unfolding pos_def using word_unat_eq_iff[of "s - b" "t - b"] by simp

lemma pos_add: "pos b s + n < 4294967296 \<Longrightarrow> pos b (s + of_nat n) = pos b s + n"
proof -
  assume a: "pos b s + n < 4294967296"
  have e: "s + of_nat n - b = (s - b) + of_nat n" by simp
  have "unat (of_nat n :: u32) = n" using a by (simp add: unat_of_nat take_bit_nat_eq_self)
  then show ?thesis using a unat_add_lem[of "s - b" "of_nat n"] unfolding pos_def e by simp
qed

lemma word_diff_pos: "a - c = (of_int (int (pos b a) - int (pos b c)) :: u32)"
  by (simp add: pos_def)

lemma sint_diff_pos:
  assumes "pos b a < pos b c + 2147483648" "pos b c \<le> pos b a + 2147483648"
  shows "sint (a - c) = int (pos b a) - int (pos b c)"
proof -
  have "sint (a - c) = signed_take_bit (LENGTH(32) - 1) (int (pos b a) - int (pos b c))"
    unfolding word_diff_pos[of a c b] by (rule sint_sbintrunc')
  also have "\<dots> = int (pos b a) - int (pos b c)"
    by (rule signed_take_bit_int_eq_self) (use assms in simp_all)
  finally show ?thesis .
qed

text \<open>Within half the circle after the base, the macros compare positions.\<close>

lemma SEQ_pos:
  assumes "pos b a < 2147483648" "pos b c < 2147483648"
  shows "SEQ_LT a c \<longleftrightarrow> pos b a < pos b c" "SEQ_LEQ a c \<longleftrightarrow> pos b a \<le> pos b c"
    "SEQ_GT a c \<longleftrightarrow> pos b c < pos b a" "SEQ_GEQ a c \<longleftrightarrow> pos b c \<le> pos b a"
  using sint_diff_pos[of b a c] assms
  by (auto simp: SEQ_LT_def SEQ_LEQ_def SEQ_GT_def SEQ_GEQ_def)

end
