(* ===== verification/Tcp_Timer.thy ===== *)
theory Tcp_Timer
  imports Tcp_Seq
begin

text \<open>
  The callouts of a connection: \<open>tcp_timer_activate\<close> and \<open>tcp_timer_active\<close> of
  \<open>sys/netinet/tcp_timer.c\<close>.  A callout that is not active is \<open>None\<close>; an active one carries the delay in
  ticks it was last started with.
\<close>

datatype tt_type = TT_DELACK | TT_REXMT | TT_PERSIST | TT_KEEP | TT_2MSL | TT_REASSDL

type_synonym tcp_timers = "tt_type \<Rightarrow> u32 option"

definition tcp_timer_activate :: "tcp_timers \<Rightarrow> tt_type \<Rightarrow> u32 \<Rightarrow> tcp_timers" where
  "tcp_timer_activate tm timer_type delta = tm(timer_type := (if delta = 0 then None else Some delta))"

definition tcp_timer_active :: "tcp_timers \<Rightarrow> tt_type \<Rightarrow> bool" where
  "tcp_timer_active tm timer_type = (tm timer_type \<noteq> None)"

end
