(* ===== verification/Tcp_Reass.thy ===== *)
theory Tcp_Reass
  imports Sockbuf_Props Tcp_Timer
begin

text \<open>
  Segment reassembly: \<open>sys/netinet/tcp_reass.c\<close>.

  The state is the part of \<open>struct tcpcb\<close>, its socket and its inpcb that the file touches.  Every queued
  segment is linked on two lists: \<open>t_segq\<close>, in sequence order, and \<open>t_segageq\<close>, in order of arrival.  The
  model keeps the entries in \<open>t_segq\<close> and their addresses in \<open>t_segageq\<close>; \<open>t_zone\<close> holds the entries
  that are allocated from \<open>V_tcp_reass_zone\<close>.  When the zone is exhausted the code uses the variable
  \<open>tqs\<close> of its own stack frame as the entry, the address \<open>TQS\<close>.  List operations that would write through a link into a
  freed entry are \<open>Inl Use_after_free\<close>, linking an entry that is on the list already is \<open>Inl Linked_twice\<close>; returning while \<open>tqs\<close> is still queued is \<open>Inl Stack_escape\<close>.

  \<open>ticks\<close> is the clock at the call; \<open>int\<close> differences of it are compared with the \<open>uint32_t\<close> deadline
  as unsigned numbers, as the C conversions do.  Statistics, logging and wakeups are not modelled.
\<close>

subsection \<open>State\<close>

datatype tqe_ref = ZENT nat | TQS

record tseg_qent =
  tqe_addr :: tqe_ref
  th_seq :: u32
  th_fin :: bool
  tqe_len :: nat
  tqe_m :: chain
  tqe_ticks :: u32

record reass =
  t_segq :: "tseg_qent list"
  t_segageq :: "tqe_ref list"
  t_segqlen :: int
  t_zone :: "nat list"
  rcv_nxt :: u32
  t_state :: tcps
  t_maxseg :: u32
  t_reassdl :: u32
  t_starttime :: u32
  t_rcvoopack :: u32
  t_timers :: tcp_timers
  inp_passive :: bool
  so_rcv :: sockbuf

definition TP_REASSDL :: "reass \<Rightarrow> u32 \<Rightarrow> u32" where
  "TP_REASSDL tp tcp_reassdl = (if t_reassdl tp \<noteq> 0 then t_reassdl tp else tcp_reassdl)"

subsection \<open>The age queue\<close>

fun entry_live :: "nat list \<Rightarrow> tqe_ref \<Rightarrow> bool" where
  "entry_live zone (ZENT a) = (a \<in> set zone)"
| "entry_live zone TQS = True"

text \<open>\<open>TAILQ_INSERT_TAIL\<close> writes to the link of the last entry.  An entry that is on the list already is linked a second time and the
  list becomes cyclic.\<close>

definition ageq_insert_tail :: "nat list \<Rightarrow> tqe_ref list \<Rightarrow> tqe_ref \<Rightarrow> tqe_ref list res" where
  "ageq_insert_tail zone q a =
     (if q \<noteq> [] \<and> \<not> entry_live zone (last q) then Inl Use_after_free
      else if a \<in> set q then Inl Linked_twice else Inr (q @ [a]))"

text \<open>\<open>TAILQ_REMOVE\<close> writes to the links of both neighbours; so does the pair of \<open>TAILQ_INSERT_AFTER\<close> and
  \<open>TAILQ_REMOVE\<close> that puts \<open>b\<close> in the place of \<open>a\<close>.\<close>

definition ageq_subst :: "nat list \<Rightarrow> tqe_ref \<Rightarrow> tqe_ref list \<Rightarrow> tqe_ref list \<Rightarrow> tqe_ref list res" where
  "ageq_subst zone a bs q =
     (let pre = takeWhile (\<lambda>x. x \<noteq> a) q; post = tl (dropWhile (\<lambda>x. x \<noteq> a) q)
      in if a \<notin> set q \<or> (pre \<noteq> [] \<and> \<not> entry_live zone (last pre)) \<or> (post \<noteq> [] \<and> \<not> entry_live zone (hd post))
         then Inl Use_after_free else Inr (pre @ bs @ post))"

definition ageq_remove :: "nat list \<Rightarrow> tqe_ref \<Rightarrow> tqe_ref list \<Rightarrow> tqe_ref list res" where
  "ageq_remove zone a q = ageq_subst zone a [] q"

definition uma_zfree :: "nat list \<Rightarrow> tqe_ref \<Rightarrow> nat list" where
  "uma_zfree zone r = (case r of ZENT a \<Rightarrow> remove1 a zone | TQS \<Rightarrow> zone)"

definition seg_at :: "tseg_qent list \<Rightarrow> tqe_ref \<Rightarrow> tseg_qent option" where
  "seg_at q a = find (\<lambda>e. tqe_addr e = a) q"

definition tcp_reass_next_hole_deadline :: "u32 \<Rightarrow> u32 \<Rightarrow> reass \<Rightarrow> u32 res" where
  "tcp_reass_next_hole_deadline ticks tcp_reassdl tp =
     (case t_segageq tp of [] \<Rightarrow> Inr 0
      | a # _ \<Rightarrow> (case seg_at (t_segq tp) a of None \<Rightarrow> Inl Use_after_free
          | Some q \<Rightarrow> (let delta = ticks - tqe_ticks q in
               Inr (if delta < TP_REASSDL tp tcp_reassdl then TP_REASSDL tp tcp_reassdl - delta else 1))))"

subsection \<open>Flushing\<close>

fun tcp_reass_flush :: "tseg_qent list \<Rightarrow> reass \<Rightarrow> reass" where
  "tcp_reass_flush [] tp = tp"
| "tcp_reass_flush (qe # q) tp =
     tcp_reass_flush q (tp\<lparr>t_segq := q, t_zone := uma_zfree (t_zone tp) (tqe_addr qe), t_segqlen := t_segqlen tp - 1\<rparr>)"

subsection \<open>Delivery\<close>

text \<open>A hole of \<open>hole_size\<close> bytes is appended as one mbuf without storage.  The code stores the length
  through the pointer before it looks whether the allocation succeeded.\<close>

definition append_hole :: "alloc \<Rightarrow> sockbuf \<Rightarrow> int \<Rightarrow> (sockbuf \<times> alloc) res" where
  "append_hole as sb hole_size =
     (case m_gethole as MT_DATA of (None, _) \<Rightarrow> Inl Null_deref
      | (Some m_hole, as') \<Rightarrow>
          if hole_size < 0 then Inl Negative_len
          else res_bind (sbappendstream_locked sb [m_hole\<lparr>m_len := nat hole_size\<rparr>]) (\<lambda>sb'. Inr (sb', as')))"

definition append_seg :: "sockbuf \<Rightarrow> chain \<Rightarrow> sockbuf res" where
  "append_seg sb m = (if SBS_CANTRCVMORE \<in> sb_state sb then Inr sb else sbappendstream_locked sb m)"

definition fin_state :: "u32 \<Rightarrow> reass \<Rightarrow> reass" where
  "fin_state ticks tp =
     (case t_state tp of
        TCPS_SYN_RECEIVED \<Rightarrow> tp\<lparr>t_starttime := ticks, t_state := TCPS_CLOSE_WAIT\<rparr>
      | TCPS_ESTABLISHED \<Rightarrow> tp\<lparr>t_state := TCPS_CLOSE_WAIT\<rparr>
      | TCPS_FIN_WAIT_1 \<Rightarrow> tp\<lparr>t_state := TCPS_CLOSING\<rparr>
      | _ \<Rightarrow> tp)"

definition find_expired :: "u32 \<Rightarrow> u32 \<Rightarrow> tseg_qent list \<Rightarrow> tqe_ref option" where
  "find_expired ticks dl q = foldl (\<lambda>p e. if dl \<le> ticks - tqe_ticks e then Some (tqe_addr e) else p) None q"

fun deliver_loop :: "u32 \<Rightarrow> tqe_ref \<Rightarrow> alloc \<Rightarrow> reass \<Rightarrow> bool \<Rightarrow> tseg_qent list \<Rightarrow> (reass \<times> alloc) res" where
  "deliver_loop ticks p as tp contiguous [] = Inr (tp, as)"
| "deliver_loop ticks p as tp contiguous (q # qtmp) =
     (if contiguous \<and> th_seq q \<noteq> rcv_nxt tp then Inr (tp, as)
      else res_bind (if SBS_CANTRCVMORE \<notin> sb_state (so_rcv tp) \<and> sint (th_seq q - rcv_nxt tp) \<noteq> 0
                     then append_hole as (so_rcv tp) (sint (th_seq q - rcv_nxt tp)) else Inr (so_rcv tp, as))
        (\<lambda>(sb, as). res_bind (ageq_remove (t_zone tp) (tqe_addr q) (t_segageq tp)) (\<lambda>age.
          res_bind (append_seg sb (tqe_m q)) (\<lambda>sb.
            let tp = tp\<lparr>rcv_nxt := th_seq q + of_nat (tqe_len q), t_segq := qtmp, t_segageq := age, so_rcv := sb\<rparr>;
                tp = (if th_fin q then fin_state ticks (tp\<lparr>so_rcv := socantrcvmore_locked (so_rcv tp), rcv_nxt := rcv_nxt tp + 1\<rparr>) else tp);
                tp = tp\<lparr>t_segqlen := t_segqlen tp - 1, t_zone := uma_zfree (t_zone tp) (tqe_addr q)\<rparr>
            in deliver_loop ticks p as tp (contiguous \<or> tqe_addr q = p) qtmp))))"

definition tcp_reass_deliver_holes :: "u32 \<Rightarrow> u32 \<Rightarrow> alloc \<Rightarrow> reass \<Rightarrow> (reass \<times> alloc) res" where
  "tcp_reass_deliver_holes ticks tcp_reassdl as tp =
     (case find_expired ticks (TP_REASSDL tp tcp_reassdl) (t_segq tp) of None \<Rightarrow> Inr (tp, as)
      | Some p \<Rightarrow> res_bind (deliver_loop ticks p as tp False (t_segq tp)) (\<lambda>(tp, as).
          res_bind (tcp_reass_next_hole_deadline ticks tcp_reassdl tp) (\<lambda>d.
            Inr (tp\<lparr>t_timers := tcp_timer_activate (t_timers tp) TT_REASSDL d\<rparr>, as))))"

subsection \<open>Insertion\<close>

text \<open>The queue split before the first segment that begins after \<open>seq\<close>.\<close>

fun find_seg :: "u32 \<Rightarrow> tseg_qent list \<Rightarrow> tseg_qent list \<times> tseg_qent list" where
  "find_seg seq [] = ([], [])"
| "find_seg seq (q # qs) = (if SEQ_GT (th_seq q) seq then ([], q # qs) else map_prod (Cons q) id (find_seg seq qs))"

text \<open>What the preceding segment leaves of the new one: \<open>None\<close> when it provides all of it.  Both calls of \<open>m_adj\<close> are made with
  a positive length, so each is the part of \<open>m_adj\<close> that trims from the head.\<close>

definition trim_new :: "tseg_qent list \<Rightarrow> u32 \<Rightarrow> nat \<Rightarrow> chain \<Rightarrow> (u32 \<times> nat \<times> chain) option" where
  "trim_new pre seq tlen m =
     (if pre = [] then Some (seq, tlen, m)
      else let p = last pre; i = sint (th_seq p + of_nat (tqe_len p) - seq) in
        if i > 0 then (if i \<ge> int tlen then None else Some (seq + of_int i, tlen - nat i, m_adj_front m i))
        else Some (seq, tlen, m))"

fun trim_succ :: "u32 \<Rightarrow> nat \<Rightarrow> tseg_qent list \<Rightarrow> nat list \<Rightarrow> int \<Rightarrow> tseg_qent list \<times> nat list \<times> int" where
  "trim_succ seq tlen [] zone len = ([], zone, len)"
| "trim_succ seq tlen (q # qs) zone len =
     (let i = sint (seq + of_nat tlen - th_seq q) in
      if i \<le> 0 then (q # qs, zone, len)
      else if i < int (tqe_len q) then
        (q\<lparr>th_seq := th_seq q + of_int i, tqe_len := tqe_len q - nat i, tqe_m := m_adj_front (tqe_m q) i\<rparr> # qs, zone, len)
      else trim_succ seq tlen qs (uma_zfree zone (tqe_addr q)) (len - 1))"

text \<open>The \<open>do\<close>/\<open>while\<close> loop that hands the head of the queue to the socket.\<close>

fun present_loop :: "reass \<Rightarrow> bool \<Rightarrow> nat option \<Rightarrow> tseg_qent list \<Rightarrow> (reass \<times> bool \<times> bool \<times> nat option) res" where
  "present_loop tp repl reclaimed [] = Inl Null_deref"
| "present_loop tp repl reclaimed (q # nq) =
     res_bind (ageq_remove (t_zone tp) (tqe_addr q) (t_segageq tp)) (\<lambda>age.
     res_bind (append_seg (so_rcv tp) (tqe_m q)) (\<lambda>sb.
       let keep = (tqe_addr q \<noteq> TQS \<and> repl \<and> reclaimed = None);
           tp' = tp\<lparr>rcv_nxt := rcv_nxt tp + of_nat (tqe_len q), t_segq := nq, t_segageq := age, so_rcv := sb,
                    t_segqlen := t_segqlen tp - 1,
                    t_zone := (if keep then t_zone tp else uma_zfree (t_zone tp) (tqe_addr q))\<rparr>;
           repl' = (repl \<and> tqe_addr q \<noteq> TQS);
           reclaimed' = (if keep then (case tqe_addr q of ZENT a \<Rightarrow> Some a | TQS \<Rightarrow> None) else reclaimed)
       in if nq \<noteq> [] \<and> th_seq (hd nq) = rcv_nxt tp' then present_loop tp' repl' reclaimed' nq
          else Inr (tp', th_fin q, repl', reclaimed')))"

text \<open>The entry \<open>tqs\<close> of the stack frame moves into the reclaimed entry.\<close>

definition replace_tqs :: "nat option \<Rightarrow> reass \<Rightarrow> reass res" where
  "replace_tqs reclaimed tp =
     (case reclaimed of None \<Rightarrow> Inl Null_deref
      | Some a \<Rightarrow> res_bind (ageq_subst (t_zone tp) TQS [ZENT a] (t_segageq tp)) (\<lambda>age.
          Inr (tp\<lparr>t_segageq := age,
                  t_segq := map (\<lambda>e. if tqe_addr e = TQS then e\<lparr>tqe_addr := ZENT a\<rparr> else e) (t_segq tp)\<rparr>)))"

definition reass_return :: "reass \<Rightarrow> bool \<Rightarrow> nat \<Rightarrow> alloc \<Rightarrow> (bool \<times> nat \<times> reass \<times> alloc) res" where
  "reass_return tp fin tlen as =
     (if TQS \<in> tqe_addr ` set (t_segq tp) then Inl Stack_escape else Inr (fin, tlen, tp, as))"

definition reass_present :: "u32 \<Rightarrow> u32 \<Rightarrow> alloc \<Rightarrow> reass \<Rightarrow> bool \<Rightarrow> bool \<Rightarrow> nat \<Rightarrow> (bool \<times> nat \<times> reass \<times> alloc) res" where
  "reass_present ticks tcp_reassdl as tp leading repl tlen =
     (if \<not> TCPS_HAVEESTABLISHED (t_state tp) then reass_return tp False tlen as
      else case t_segq tp of
        [] \<Rightarrow> reass_return tp False tlen as
      | q # _ \<Rightarrow>
          if th_seq q \<noteq> rcv_nxt tp \<and> \<not> leading then
            (if inp_passive tp then
               res_bind (tcp_reass_next_hole_deadline ticks tcp_reassdl tp) (\<lambda>d.
                 reass_return (tp\<lparr>t_timers := tcp_timer_activate (t_timers tp) TT_REASSDL d\<rparr>) False tlen as)
             else reass_return tp False tlen as)
          else
            res_bind (if leading \<and> SBS_CANTRCVMORE \<notin> sb_state (so_rcv tp)
                      then append_hole as (so_rcv tp) (sint (th_seq q - rcv_nxt tp)) else Inr (so_rcv tp, as))
              (\<lambda>(sb, as). res_bind (present_loop (tp\<lparr>so_rcv := sb, rcv_nxt := (if leading then th_seq q else rcv_nxt tp)\<rparr>) repl None (t_segq tp))
                (\<lambda>(tp, fin, repl, reclaimed). res_bind (if repl then replace_tqs reclaimed tp else Inr tp)
                  (\<lambda>tp. res_bind (tcp_reass_next_hole_deadline ticks tcp_reassdl tp) (\<lambda>d.
                    reass_return (if \<not> tcp_timer_active (t_timers tp) TT_REASSDL \<or> d = 0
                        then tp\<lparr>t_timers := tcp_timer_activate (t_timers tp) TT_REASSDL d\<rparr> else tp) fin tlen as)))))"

definition reass_insert :: "u32 \<Rightarrow> reass \<Rightarrow> tqe_ref \<Rightarrow> tseg_qent list \<Rightarrow> tseg_qent list \<Rightarrow> u32 \<Rightarrow> bool \<Rightarrow> nat \<Rightarrow> chain \<Rightarrow> reass res" where
  "reass_insert ticks tp te pre post seq fin tlen m =
     (let (post', zone, len) = trim_succ seq tlen post (t_zone tp) (t_segqlen tp) in
      res_bind (ageq_insert_tail zone (t_segageq tp) te) (\<lambda>age.
        Inr (tp\<lparr>t_segq := pre @ \<lparr>tqe_addr = te, th_seq = seq, th_fin = fin, tqe_len = tlen, tqe_m = m, tqe_ticks = ticks\<rparr> # post',
                t_segageq := age, t_zone := zone, t_segqlen := len, t_rcvoopack := t_rcvoopack tp + 1\<rparr>)))"

text \<open>The test for too many segments, for \<open>t_maxseg\<close> not 0.\<close>

definition reass_over_limit :: "reass \<Rightarrow> bool" where
  "reass_over_limit tp \<longleftrightarrow> sb_hiwat (so_rcv tp) div t_maxseg tp + 1 \<le> of_int (t_segqlen tp)"

text \<open>\<open>zalloc\<close> is what \<open>uma_zalloc\<close> returns, \<open>None\<close> the call with \<open>th == NULL\<close>.\<close>

fun tcp_reass :: "u32 \<Rightarrow> u32 \<Rightarrow> nat option \<Rightarrow> alloc \<Rightarrow> reass \<Rightarrow> (u32 \<times> bool) option \<Rightarrow> nat \<Rightarrow> chain \<Rightarrow>
    (bool \<times> nat \<times> reass \<times> alloc) res" where
  "tcp_reass ticks tcp_reassdl zalloc as tp None tlen m = reass_present ticks tcp_reassdl as tp False False tlen"
| "tcp_reass ticks tcp_reassdl zalloc as tp (Some (seq, fin)) tlen m =
     (let missing = (seq \<noteq> rcv_nxt tp \<or> \<not> TCPS_HAVEESTABLISHED (t_state tp));
          short = (missing \<and> reass_over_limit tp);
          te = (case zalloc of Some a \<Rightarrow> ZENT a | None \<Rightarrow> TQS)
      in if missing \<and> t_maxseg tp = 0 then Inl Div_by_zero
         else if short \<and> \<not> inp_passive tp then Inr (False, 0, tp, as)
         else if zalloc = None \<and> missing \<and> \<not> inp_passive tp then Inr (False, 0, tp, as)
         else let leading = (short \<or> zalloc = None \<and> missing);
                  (pre, post) = find_seg seq (t_segq tp)
           in case trim_new pre seq tlen m of
                None \<Rightarrow> reass_present ticks tcp_reassdl as tp leading False tlen
              | Some (seq', tlen', m') \<Rightarrow>
                  res_bind (reass_insert ticks (tp\<lparr>t_segqlen := t_segqlen tp + 1,
                        t_zone := (case zalloc of Some a \<Rightarrow> a # t_zone tp | None \<Rightarrow> t_zone tp)\<rparr>) te pre post seq' fin tlen' m')
                    (\<lambda>tp. reass_present ticks tcp_reassdl as tp leading (inp_passive tp \<and> te = TQS \<and> pre \<noteq> []) tlen'))"

end
