(* ===== verification/Tcp_Reass_Inv.thy ===== *)
theory Tcp_Reass_Inv
  imports Tcp_Reass
begin

text \<open>
  Lemmas on segment reassembly.  \<open>data_inv\<close> says that the queue is sorted, its segments do not overlap and each is
  a stretch of the peer's byte stream; \<open>age_inv\<close> says that the queue, the age queue and the allocated
  entries agree.  The first is kept by every call, the second by every call that covers no queued segment.
\<close>

subsection \<open>What an append leaves alone\<close>

lemma sbcompress_loop_state:
  assumes run: "sbcompress_loop sb ms pre n eor linked = Inr (sb', pre', n', eor', linked')"
  shows "sb_state sb' = sb_state sb"
  by (rule sbcompress_loop_rule[where P = "\<lambda>sb' _ _ _ _ _. sb_state sb' = sb_state sb", OF _ _ _ _ _ _ run])
    (simp_all add: sballoc_def Let_def)

lemma sbappendstream_frame:
  assumes ok: "sb_ok sb" and fr: "fresh m sb" and run: "sbappendstream_locked sb m = Inr sb'"
  shows "sb_state sb' = sb_state sb \<and> sb_hiwat sb' = sb_hiwat sb \<and>
    m_id ` set (concat (sb_mb sb')) \<subseteq> m_id ` set (concat (sb_mb sb)) \<union> m_id ` set m"
proof -
  obtain sb1 where c: "sbcompress sb m (sb_mbtail sb) = Inr sb1" and sb': "sb' = sb1\<lparr>sb_lastrecord := mb_id (sb_mb sb1)\<rparr>"
    using run by (auto simp: sbappendstream_locked_def res_bind_Inr)
  have "sb_state sb1 = sb_state sb \<and> sb_hiwat sb1 = sb_hiwat sb \<and>
    m_id ` set (concat (sb_mb sb1)) \<subseteq> m_id ` set (concat (sb_mb sb)) \<union> m_id ` set m"
  proof (cases "sb_mb sb = []")
    case True
    note e = sb_ok_empty[OF ok True]
    obtain sb2 pre n' eor linked where lp: "sbcompress_loop sb m [] None False False = Inr (sb2, pre, n', eor, linked)"
      using c e by (auto simp: sbcompress_def res_bind_Inr)
    have sb1: "sb1 = (case n' of None \<Rightarrow> sb2 | Some x \<Rightarrow> sb2\<lparr>sb_mb := [pre @ [set_eor eor x]]\<rparr>)"
      using c lp e by (auto simp: sbcompress_def split: option.splits if_splits)
    from fr have "distinct (map m_id ([] @ opt None @ m))" by (simp add: fresh_def)
    from sbcompress_loop_ids[OF this lp] sbcompress_loop_frame[OF lp] sbcompress_loop_state[OF lp] True
    show ?thesis unfolding sb1 by (cases n') (auto simp: set_eor_def)
  next
    case False
    from ok False fr c show ?thesis
    proof (cases rule: sbcompress_tail_run)
      case (1 rb pre0 x0 sb2 pre x eor linked)
      have "distinct (map m_id (pre0 @ opt (Some x0) @ m))" using ok by (intro tail_ids[OF _ 1(1) fr]) (simp add: sb_ok_def)
      from sbcompress_loop_ids[OF this 1(2)] sbcompress_loop_frame[OF 1(2)] sbcompress_loop_state[OF 1(2)] 1(1)
      show ?thesis unfolding 1(3) by (auto simp: set_eor_def)
    qed
  qed
  then show ?thesis by (simp add: sb')
qed

subsection \<open>Stretches of the peer's stream\<close>

text \<open>\<open>S\<close> gives the byte the peer sent at each sequence number.\<close>

definition stretch :: "(u32 \<Rightarrow> byte) \<Rightarrow> u32 \<Rightarrow> nat \<Rightarrow> byte list" where
  "stretch S s n = map (\<lambda>k. S (s + of_nat k)) [0..<n]"

lemma length_stretch [simp]: "length (stretch S s n) = n"
  by (simp add: stretch_def)

lemma stretch_0 [simp]: "stretch S s 0 = []"
  by (simp add: stretch_def)

lemma stretch_add: "stretch S s (a + b) = stretch S s a @ stretch S (s + of_nat a) b"
  by (rule nth_equalityI) (auto simp: stretch_def nth_append algebra_simps)

lemma drop_stretch: "d \<le> n \<Longrightarrow> drop d (stretch S s n) = stretch S (s + of_nat d) (n - d)"
  using stretch_add[of S s d "n - d"] by simp

lemma pos_rebase: "pos b c \<le> pos b s \<Longrightarrow> pos c s = pos b s - pos b c"
proof -
  assume a: "pos b c \<le> pos b s"
  have "s - c = (s - b) - (c - b)" by simp
  moreover have "unat ((s - b) - (c - b)) = unat (s - b) - unat (c - b)"
    by (rule unat_sub) (use a in \<open>simp add: pos_def word_le_nat_alt\<close>)
  ultimately show ?thesis by (simp only: pos_def)
qed

subsection \<open>The invariant on the data\<close>

definition seg_ok :: "(u32 \<Rightarrow> byte) \<Rightarrow> u32 \<Rightarrow> tseg_qent \<Rightarrow> bool" where
  "seg_ok S b e \<longleftrightarrow> pos b (th_seq e) + tqe_len e < 2147483648 \<and> wf_chain (tqe_m e) \<and>
     (\<forall>x \<in> set (tqe_m e). \<not> is_hole x) \<and> chain_data (tqe_m e) = stretch S (th_seq e) (tqe_len e)"

definition before :: "u32 \<Rightarrow> tseg_qent \<Rightarrow> tseg_qent \<Rightarrow> bool" where
  "before b e f \<longleftrightarrow> pos b (th_seq e) + tqe_len e \<le> pos b (th_seq f)"

definition segs_ok :: "(u32 \<Rightarrow> byte) \<Rightarrow> u32 \<Rightarrow> tseg_qent list \<Rightarrow> bool" where
  "segs_ok S b q \<longleftrightarrow> (\<forall>e \<in> set q. seg_ok S b e) \<and> sorted_wrt (before b) q"

definition q_ids :: "tseg_qent list \<Rightarrow> nat list" where
  "q_ids q = map m_id (concat (map tqe_m q))"

abbreviation sb_ids :: "sockbuf \<Rightarrow> nat set" where
  "sb_ids sb \<equiv> m_id ` set (concat (sb_mb sb))"

definition data_inv :: "(u32 \<Rightarrow> byte) \<Rightarrow> reass \<Rightarrow> bool" where
  "data_inv S tp \<longleftrightarrow> segs_ok S (rcv_nxt tp) (t_segq tp) \<and> stream_inv (so_rcv tp) \<and>
     distinct (q_ids (t_segq tp)) \<and> set (q_ids (t_segq tp)) \<inter> sb_ids (so_rcv tp) = {} \<and>
     length (sb_data (so_rcv tp)) + sum_list (map tqe_len (t_segq tp)) < 2 ^ 32 \<and>
     SBS_CANTRCVMORE \<notin> sb_state (so_rcv tp)"

lemma q_ids_simps [simp]: "q_ids [] = []" "q_ids (e # q) = map m_id (tqe_m e) @ q_ids q" "q_ids (q @ r) = q_ids q @ q_ids r"
  by (simp_all add: q_ids_def)

lemma seg_len: "seg_ok S b e \<Longrightarrow> chain_len (tqe_m e) = tqe_len e"
  using length_chain_data[of "tqe_m e"] by (simp add: seg_ok_def)

subsection \<open>Finding the place\<close>

lemma find_seg_spec:
  assumes "find_seg seq q = (pre, post)"
  shows "q = pre @ post \<and> (\<forall>e \<in> set pre. \<not> SEQ_GT (th_seq e) seq) \<and> (post \<noteq> [] \<longrightarrow> SEQ_GT (th_seq (hd post)) seq)"
  using assms
proof (induction q arbitrary: pre)
  case (Cons e q)
  obtain p r where r: "find_seg seq q = (p, r)" by fastforce
  from Cons.IH[of p] Cons.prems r show ?case by (auto split: if_splits)
qed simp

lemma m_adj_head_ids: "m_adj_head ms len = (ms', l) \<Longrightarrow> map m_id ms' = map m_id ms \<and> map m_flags ms' = map m_flags ms"
  by (induction ms len arbitrary: ms' l rule: m_adj_head.induct) (auto split: if_splits prod.splits)

lemma m_adj_ids: "map m_id (m_adj_front mp req) = map m_id mp \<and> map m_flags (m_adj_front mp req) = map m_flags mp"
proof -
  obtain r l where r: "m_adj_head mp (nat req) = (r, l)" by fastforce
  then have a: "m_adj_front mp req = upd_hdr_len (\<lambda>x. x - (req - int l)) r" by (simp add: m_adj_front_def)
  have "map m_id (upd_hdr_len f r) = map m_id r \<and> map m_flags (upd_hdr_len f r) = map m_flags r" for f
    by (simp add: upd_hdr_len_def split: list.splits)
  with m_adj_head_ids[OF r] show ?thesis unfolding a by simp
qed

lemma flags_holes: "map m_flags ms' = map m_flags ms \<Longrightarrow> (\<forall>x \<in> set ms'. \<not> is_hole x) = (\<forall>x \<in> set ms. \<not> is_hole x)"
proof -
  assume "map m_flags ms' = map m_flags ms"
  then have "set (map m_flags ms') = set (map m_flags ms)" by simp
  then have "(\<forall>f \<in> m_flags ` set ms'. M_HOLE \<notin> f) = (\<forall>f \<in> m_flags ` set ms. M_HOLE \<notin> f)" by simp
  then show ?thesis by simp
qed

lemma m_adj_stretch:
  assumes "wf_chain m" "\<forall>x \<in> set m. \<not> is_hole x" "chain_data m = stretch S s n" "d \<le> n"
  shows "wf_chain (m_adj_front m (int d)) \<and> (\<forall>x \<in> set (m_adj_front m (int d)). \<not> is_hole x) \<and>
    chain_data (m_adj_front m (int d)) = stretch S (s + of_nat d) (n - d) \<and> map m_id (m_adj_front m (int d)) = map m_id m"
proof -
  have "map m_flags (m_adj_front m (int d)) = map m_flags m" using m_adj_ids[of m "int d"] by simp
  from flags_holes[OF this] m_adj_front_spec[OF assms(1), of "int d"] m_adj_ids[of m "int d"] assms show ?thesis by (simp add: drop_stretch)
qed

text \<open>The overlap the code computes is the difference of positions.\<close>

lemma overlap:
  assumes "pos b s + n < 2147483648" "pos b t < 2147483648"
  shows "sint (s + of_nat n - t) = int (pos b s + n) - int (pos b t)"
proof -
  have "pos b (s + of_nat n) = pos b s + n" by (rule pos_add) (use assms in simp)
  with sint_diff_pos[of b "s + of_nat n" t] assms show ?thesis by simp
qed

definition new_ok :: "(u32 \<Rightarrow> byte) \<Rightarrow> u32 \<Rightarrow> u32 \<Rightarrow> nat \<Rightarrow> chain \<Rightarrow> bool" where
  "new_ok S b seq tlen m \<longleftrightarrow> pos b seq + tlen < 2147483648 \<and> wf_chain m \<and> (\<forall>x \<in> set m. \<not> is_hole x) \<and>
     chain_data m = stretch S seq tlen"

lemma new_ok_seg: "seg_ok S b \<lparr>tqe_addr = a, th_seq = seq, th_fin = fin, tqe_len = tlen, tqe_m = m, tqe_ticks = t\<rparr> \<longleftrightarrow> new_ok S b seq tlen m"
  by (simp add: seg_ok_def new_ok_def)

lemma new_ok_trim:
  assumes "new_ok S b seq tlen m" "d \<le> tlen"
  shows "new_ok S b (seq + of_nat d) (tlen - d) (m_adj_front m (int d)) \<and> pos b (seq + of_nat d) = pos b seq + d"
proof -
  have "pos b (seq + of_nat d) = pos b seq + d" by (rule pos_add) (use assms in \<open>simp add: new_ok_def\<close>)
  with m_adj_stretch[of m S seq tlen d] assms show ?thesis by (simp add: new_ok_def)
qed

lemma trim_new_spec:
  assumes pre: "\<forall>e \<in> set pre. seg_ok S b e" and new: "new_ok S b seq tlen m"
    and run: "trim_new pre seq tlen m = Some (seq', tlen', m')"
  shows "new_ok S b seq' tlen' m' \<and> map m_id m' = map m_id m \<and> tlen' \<le> tlen \<and> pos b seq \<le> pos b seq' \<and>
    (pre \<noteq> [] \<longrightarrow> pos b (th_seq (last pre)) + tqe_len (last pre) \<le> pos b seq') \<and>
    (pos b seq' = pos b seq \<or> pre \<noteq> [] \<and> pos b seq' = pos b (th_seq (last pre)) + tqe_len (last pre))"
proof (cases "pre = []")
  case True
  with run new show ?thesis by (simp add: trim_new_def)
next
  case False
  define p where "p = last pre"
  have p: "pos b (th_seq p) + tqe_len p < 2147483648" using pre False by (simp add: seg_ok_def p_def)
  have n: "pos b seq < 2147483648" using new by (simp add: new_ok_def)
  note i = overlap[OF p n]
  show ?thesis
  proof (cases "pos b (th_seq p) + tqe_len p \<le> pos b seq")
    case True
    with run new False show ?thesis by (simp add: trim_new_def Let_def i p_def[symmetric])
  next
    case over: False
    define d where "d = pos b (th_seq p) + tqe_len p - pos b seq"
    have id: "sint (th_seq p + of_nat (tqe_len p) - seq) = int d" "0 < d" using over i by (simp_all add: d_def)
    have d: "d < tlen" "seq' = seq + of_nat d" "tlen' = tlen - d" "m' = m_adj_front m (int d)"
      using run False id(2) by (simp_all add: trim_new_def Let_def p_def[symmetric] id(1) split: if_splits)
    from new_ok_trim[OF new, of d] d m_adj_ids[of m "int d"] False over show ?thesis
      by (simp add: p_def[symmetric]) (simp add: d_def)
  qed
qed

definition trim_seg :: "nat \<Rightarrow> tseg_qent \<Rightarrow> tseg_qent" where
  "trim_seg d q = q\<lparr>th_seq := th_seq q + of_nat d, tqe_len := tqe_len q - d, tqe_m := m_adj_front (tqe_m q) (int d)\<rparr>"

lemma seg_ok_trim:
  assumes "seg_ok S b q" "d < tqe_len q"
  shows "seg_ok S b (trim_seg d q) \<and> pos b (th_seq (trim_seg d q)) = pos b (th_seq q) + d \<and>
    map m_id (tqe_m (trim_seg d q)) = map m_id (tqe_m q) \<and> tqe_addr (trim_seg d q) = tqe_addr q"
proof -
  have "pos b (th_seq q + of_nat d) = pos b (th_seq q) + d" by (rule pos_add) (use assms in \<open>simp add: seg_ok_def\<close>)
  with m_adj_stretch[of "tqe_m q" S "th_seq q" "tqe_len q" d] assms m_adj_ids[of "tqe_m q" "int d"] show ?thesis
    by (simp add: trim_seg_def seg_ok_def)
qed

text \<open>A succeeding segment is covered when the new one reaches its end.\<close>

definition covered :: "u32 \<Rightarrow> nat \<Rightarrow> tseg_qent \<Rightarrow> bool" where
  "covered seq tlen q \<longleftrightarrow> 0 < sint (seq + of_nat tlen - th_seq q) \<and> int (tqe_len q) \<le> sint (seq + of_nat tlen - th_seq q)"

lemma trim_succ_Cons:
  assumes "seg_ok S b q" "pos b seq + tlen < 2147483648" "pos b seq \<le> pos b (th_seq q)"
  shows "trim_succ seq tlen (q # qs) zone len =
    (if pos b seq + tlen \<le> pos b (th_seq q) then (q # qs, zone, len)
     else if pos b seq + tlen < pos b (th_seq q) + tqe_len q
       then (trim_seg (pos b seq + tlen - pos b (th_seq q)) q # qs, zone, len)
     else trim_succ seq tlen qs (uma_zfree zone (tqe_addr q)) (len - 1))"
    "covered seq tlen q \<longleftrightarrow> pos b (th_seq q) < pos b seq + tlen \<and> pos b (th_seq q) + tqe_len q \<le> pos b seq + tlen"
proof -
  have "pos b (th_seq q) < 2147483648" using assms(1) by (simp add: seg_ok_def)
  note i = overlap[OF assms(2) this]
  have e: "of_int (int n - int k) = (of_nat (n - k) :: u32)" "nat (int n - int k) = n - k" "int n - int k = int (n - k)" if "\<not> n \<le> k" for n k
    using that by (simp_all add: of_nat_diff)
  show "trim_succ seq tlen (q # qs) zone len =
    (if pos b seq + tlen \<le> pos b (th_seq q) then (q # qs, zone, len)
     else if pos b seq + tlen < pos b (th_seq q) + tqe_len q
       then (trim_seg (pos b seq + tlen - pos b (th_seq q)) q # qs, zone, len)
     else trim_succ seq tlen qs (uma_zfree zone (tqe_addr q)) (len - 1))"
    using e[of "pos b seq + tlen" "pos b (th_seq q)"] unfolding trim_succ.simps Let_def i trim_seg_def by auto
  show "covered seq tlen q \<longleftrightarrow> pos b (th_seq q) < pos b seq + tlen \<and> pos b (th_seq q) + tqe_len q \<le> pos b seq + tlen"
    unfolding covered_def i by auto
qed

lemma trim_succ_spec:
  assumes "segs_ok S b post" "pos b seq + tlen < 2147483648" "\<forall>f \<in> set post. pos b seq \<le> pos b (th_seq f)"
    "trim_succ seq tlen post zone len = (post', zone', len')"
  shows "segs_ok S b post' \<and> (\<forall>f \<in> set post'. pos b seq + tlen \<le> pos b (th_seq f)) \<and>
    (distinct (q_ids post) \<longrightarrow> distinct (q_ids post')) \<and> set (q_ids post') \<subseteq> set (q_ids post) \<and>
    sum_list (map tqe_len post') \<le> sum_list (map tqe_len post)"
  using assms
proof (induction post arbitrary: zone len)
  case (Cons q qs)
  have q: "seg_ok S b q" "segs_ok S b qs" "\<forall>f \<in> set qs. before b q f" "pos b seq \<le> pos b (th_seq q)"
    using Cons.prems by (auto simp: segs_ok_def)
  define d where "d = pos b seq + tlen - pos b (th_seq q)"
  note run = Cons.prems(4)[unfolded trim_succ_Cons(1)[OF q(1) Cons.prems(2) q(4)] d_def[symmetric]]
  consider "pos b seq + tlen \<le> pos b (th_seq q)"
    | "\<not> pos b seq + tlen \<le> pos b (th_seq q)" "pos b seq + tlen < pos b (th_seq q) + tqe_len q"
    | "\<not> pos b seq + tlen \<le> pos b (th_seq q)" "\<not> pos b seq + tlen < pos b (th_seq q) + tqe_len q" by blast
  then show ?case
  proof cases
    case 1
    have "pos b seq + tlen \<le> pos b (th_seq f)" if "f \<in> set qs" for f
      using q(3) that 1 by (fastforce simp: before_def)
    with 1 run Cons.prems(1) show ?thesis by auto
  next
    case 2
    have d: "d < tqe_len q" "pos b (th_seq q) + d = pos b seq + tlen" using 2 by (simp_all add: d_def)
    note t = seg_ok_trim[OF q(1) d(1)]
    have l: "tqe_len (trim_seg d q) = tqe_len q - d" by (simp add: trim_seg_def)
    have "before b (trim_seg d q) f" if "f \<in> set qs" for f
      using q(3) that t l d by (auto simp: before_def)
    moreover have "pos b seq + tlen \<le> pos b (th_seq f)" if "f \<in> set qs" for f
      using q(3) that 2 by (fastforce simp: before_def)
    moreover have "post' = trim_seg d q # qs" using run 2 by simp
    moreover have "set (map m_id (tqe_m (trim_seg d q))) = set (map m_id (tqe_m q))" using t by simp
    ultimately show ?thesis using t q(2) d l by (simp add: segs_ok_def)
  next
    case 3
    with run have "trim_succ seq tlen qs (uma_zfree zone (tqe_addr q)) (len - 1) = (post', zone', len')" by simp
    from Cons.IH[OF q(2) Cons.prems(2) _ this] Cons.prems(3) show ?thesis by auto
  qed
qed (simp add: segs_ok_def)

subsection \<open>Insertion keeps the queue sorted\<close>

lemma segs_ok_append:
  "segs_ok S b (p @ q) \<longleftrightarrow> segs_ok S b p \<and> segs_ok S b q \<and> (\<forall>e \<in> set p. \<forall>f \<in> set q. before b e f)"
  by (auto simp: segs_ok_def sorted_wrt_append)

lemma segs_ok_Cons: "segs_ok S b (e # q) \<longleftrightarrow> seg_ok S b e \<and> segs_ok S b q \<and> (\<forall>f \<in> set q. before b e f)"
  by (auto simp: segs_ok_def)

lemma segs_ok_last:
  assumes "segs_ok S b p" "e \<in> set p"
  shows "pos b (th_seq e) + tqe_len e \<le> pos b (th_seq (last p)) + tqe_len (last p)"
proof -
  from assms(2) have "p \<noteq> []" by auto
  then obtain r x where r: "p = r @ [x]" by (cases p rule: rev_cases) auto
  with assms show ?thesis by (cases "e = x") (auto simp: segs_ok_append before_def)
qed

lemma insert_sorted:
  assumes q: "segs_ok S b (pre @ post)" and place: "post \<noteq> [] \<longrightarrow> SEQ_GT (th_seq (hd post)) seq"
    and new: "new_ok S b seq tlen m"
    and tn: "trim_new pre seq tlen m = Some (seq', tlen', m')"
    and ts: "trim_succ seq' tlen' post zone len = (post', zone', len')"
  shows "segs_ok S b (pre @ \<lparr>tqe_addr = a, th_seq = seq', th_fin = fin, tqe_len = tlen', tqe_m = m', tqe_ticks = t\<rparr> # post') \<and>
    map m_id m' = map m_id m \<and> tlen' \<le> tlen \<and> (distinct (q_ids post) \<longrightarrow> distinct (q_ids post')) \<and>
    set (q_ids post') \<subseteq> set (q_ids post) \<and> sum_list (map tqe_len post') \<le> sum_list (map tqe_len post)"
proof -
  have pre: "segs_ok S b pre" "\<forall>e \<in> set pre. seg_ok S b e" and post: "segs_ok S b post" and cross: "\<forall>e \<in> set pre. \<forall>f \<in> set post. before b e f"
    using q unfolding segs_ok_append by (auto simp: segs_ok_def)
  note t = trim_new_spec[OF pre(2) new tn]
  have after: "pos b seq' \<le> pos b (th_seq f)" if f: "f \<in> set post" for f
  proof (cases "pos b seq' = pos b seq")
    case True
    obtain g r where g: "post = g # r" using f by (cases post) auto
    have "seg_ok S b g" "f = g \<or> before b g f" using post f unfolding g segs_ok_Cons by auto
    moreover have "pos b seq < pos b (th_seq g)"
      using place new \<open>seg_ok S b g\<close> SEQ_pos(3)[of b "th_seq g" seq] by (simp add: g seg_ok_def new_ok_def)
    ultimately show ?thesis using True by (auto simp: before_def)
  next
    case False
    with t have "pre \<noteq> []" "pos b seq' = pos b (th_seq (last pre)) + tqe_len (last pre)" by auto
    with cross f show ?thesis by (auto simp: before_def)
  qed
  have b: "pos b seq' + tlen' < 2147483648" using t by (simp add: new_ok_def)
  from after have a: "\<forall>f \<in> set post. pos b seq' \<le> pos b (th_seq f)" by blast
  note s = trim_succ_spec[OF post b a ts]
  have e: "pos b (th_seq e) + tqe_len e \<le> pos b seq'" if "e \<in> set pre" for e
    using segs_ok_last[OF pre(1) that] t that by fastforce
  moreover have "pos b (th_seq e) + tqe_len e \<le> pos b (th_seq f)" if "e \<in> set pre" "f \<in> set post'" for e f
    using e[OF that(1)] s that(2) by fastforce
  ultimately show ?thesis using t s pre(1) unfolding segs_ok_append segs_ok_Cons new_ok_seg
    by (simp add: before_def)
qed

subsection \<open>Delivery\<close>

lemma segs_ok_advance:
  assumes "segs_ok S b (q # nq)" "th_seq q = b"
  shows "segs_ok S (b + of_nat (tqe_len q)) nq"
proof -
  have q: "tqe_len q < 2147483648" using assms by (simp add: segs_ok_Cons seg_ok_def)
  have c: "pos b (b + of_nat (tqe_len q)) = tqe_len q" using pos_add[of b b "tqe_len q"] q by simp
  have le: "tqe_len q \<le> pos b (th_seq f)" if "f \<in> set nq" for f
    using assms that by (auto simp: segs_ok_Cons before_def)
  have p: "pos (b + of_nat (tqe_len q)) (th_seq f) = pos b (th_seq f) - tqe_len q" if "f \<in> set nq" for f
    using pos_rebase[of b "b + of_nat (tqe_len q)" "th_seq f"] c le[OF that] by simp
  have "seg_ok S (b + of_nat (tqe_len q)) f" if "f \<in> set nq" for f
    using assms that p[OF that] by (auto simp: segs_ok_Cons segs_ok_def seg_ok_def)
  moreover have "sorted_wrt (before (b + of_nat (tqe_len q))) nq"
  proof (rule sorted_wrt_mono_rel[of _ "before b"])
    show "before (b + of_nat (tqe_len q)) e f" if "e \<in> set nq" "f \<in> set nq" "before b e f" for e f
      using that le[of e] by (simp add: before_def p)
    show "sorted_wrt (before b) nq" using assms by (simp add: segs_ok_def)
  qed
  ultimately show ?thesis by (simp add: segs_ok_def)
qed

lemma data_inv_may:
  assumes inv: "data_inv S tp" and q: "t_segq tp = q # nq"
  shows "stream_may (so_rcv tp) (tqe_m q)"
proof -
  have s: "seg_ok S (rcv_nxt tp) q" "sb_ok (so_rcv tp)" using inv q by (simp_all add: data_inv_def segs_ok_Cons stream_inv_def)
  have "m_id ` set (tqe_m q) \<inter> sb_ids (so_rcv tp) = {}" "distinct (map m_id (tqe_m q))"
    using inv q unfolding data_inv_def by (auto simp del: set_concat)
  moreover have "chain_len (concat (sb_mb (so_rcv tp))) + tqe_len q < 2 ^ 32"
    using inv q sb_data_length[OF s(2)] by (simp add: data_inv_def)
  ultimately show ?thesis using s(1) seg_len[OF s(1)] unfolding stream_may_def fresh_def
    by (simp add: seg_ok_def del: set_concat)
qed

lemma append_seg_step:
  assumes inv: "data_inv S tp" and q: "t_segq tp = q # nq" and at: "th_seq q = rcv_nxt tp"
  shows "\<exists>sb. append_seg (so_rcv tp) (tqe_m q) = Inr sb \<and> sb_data sb = sb_data (so_rcv tp) @ stretch S (rcv_nxt tp) (tqe_len q) \<and>
    data_inv S (tp\<lparr>rcv_nxt := rcv_nxt tp + of_nat (tqe_len q), t_segq := nq, t_segageq := age, so_rcv := sb, t_segqlen := l, t_zone := z\<rparr>)"
proof -
  have si: "stream_inv (so_rcv tp)" "SBS_CANTRCVMORE \<notin> sb_state (so_rcv tp)" using inv by (simp_all add: data_inv_def)
  note may = data_inv_may[OF inv q]
  from stream_put[OF si(1) may] obtain sb where r: "sbappendstream_locked (so_rcv tp) (tqe_m q) = Inr sb" "stream_inv sb"
    "sb_data sb = sb_data (so_rcv tp) @ chain_data (tqe_m q)" by auto
  have "sb_ok (so_rcv tp)" "fresh (tqe_m q) (so_rcv tp)" using si may by (simp_all add: stream_inv_def stream_may_def)
  note fr = sbappendstream_frame[OF this r(1)]
  have d: "chain_data (tqe_m q) = stretch S (rcv_nxt tp) (tqe_len q)"
    using inv q at by (simp add: data_inv_def segs_ok_Cons seg_ok_def)
  have ids: "set (q_ids nq) \<inter> sb_ids (so_rcv tp) = {}" "set (q_ids nq) \<inter> m_id ` set (tqe_m q) = {}" "distinct (q_ids nq)"
    using inv unfolding data_inv_def q by (auto simp del: set_concat)
  have "set (q_ids nq) \<inter> sb_ids sb = {}"
    using ids(1,2) fr by blast
  moreover have "segs_ok S (rcv_nxt tp + of_nat (tqe_len q)) nq"
    using inv q at by (intro segs_ok_advance) (simp_all add: data_inv_def)
  moreover have "length (sb_data sb) + sum_list (map tqe_len nq) < 2 ^ 32"
    using inv r(3) d by (simp add: data_inv_def q)
  ultimately show ?thesis using r fr ids si(2) d by (simp add: append_seg_def data_inv_def del: set_concat)
qed

lemma present_loop_data:
  assumes "data_inv S tp" "t_segq tp = q # nq" "th_seq q = rcv_nxt tp"
    "present_loop tp repl rcl (q # nq) = Inr (tp', fin, repl', rcl')"
  shows "\<exists>n. data_inv S tp' \<and> rcv_nxt tp' = rcv_nxt tp + of_nat n \<and> n \<le> sum_list (map tqe_len (q # nq)) \<and>
    sb_data (so_rcv tp') = sb_data (so_rcv tp) @ stretch S (rcv_nxt tp) n \<and>
    (t_segq tp' = [] \<or> th_seq (hd (t_segq tp')) \<noteq> rcv_nxt tp') \<and> suffix (t_segq tp') nq"
  using assms
proof (induction nq arbitrary: tp q repl rcl)
  case Nil
  obtain age sb where r: "ageq_remove (t_zone tp) (tqe_addr q) (t_segageq tp) = Inr age" "append_seg (so_rcv tp) (tqe_m q) = Inr sb"
    using Nil.prems(4) by (auto simp: res_bind_Inr)
  define z where "z = t_zone tp'"
  from append_seg_step[OF Nil.prems(1-3), where age = age and l = "t_segqlen tp - 1" and z = z] r Nil.prems(4)
  show ?case by (intro exI[of _ "tqe_len q"]) (auto simp: Let_def z_def)
next
  case (Cons q2 nq)
  obtain age sb where r: "ageq_remove (t_zone tp) (tqe_addr q) (t_segageq tp) = Inr age" "append_seg (so_rcv tp) (tqe_m q) = Inr sb"
    using Cons.prems(4) by (auto simp: res_bind_Inr)
  define keep where "keep \<longleftrightarrow> tqe_addr q \<noteq> TQS \<and> repl \<and> rcl = None"
  define z where "z = (if keep then t_zone tp else uma_zfree (t_zone tp) (tqe_addr q))"
  define tp1 where "tp1 = tp\<lparr>rcv_nxt := rcv_nxt tp + of_nat (tqe_len q), t_segq := q2 # nq, t_segageq := age, so_rcv := sb,
    t_segqlen := t_segqlen tp - 1, t_zone := z\<rparr>"
  have i1: "data_inv S tp1" "sb_data (so_rcv tp1) = sb_data (so_rcv tp) @ stretch S (rcv_nxt tp) (tqe_len q)"
    "t_segq tp1 = q2 # nq" "rcv_nxt tp1 = rcv_nxt tp + of_nat (tqe_len q)"
    using append_seg_step[OF Cons.prems(1-3), where age = age and l = "t_segqlen tp - 1" and z = z] r(2) by (auto simp: tp1_def)
  show ?case
  proof (cases "th_seq q2 = rcv_nxt tp1")
    case True
    with Cons.prems(4) r have run: "present_loop tp1 (repl \<and> tqe_addr q \<noteq> TQS)
        (if keep then (case tqe_addr q of ZENT a \<Rightarrow> Some a | TQS \<Rightarrow> None) else rcl) (q2 # nq) = Inr (tp', fin, repl', rcl')"
      by (simp del: present_loop.simps add: present_loop.simps(2)[of tp] Let_def tp1_def z_def keep_def)
    from Cons.IH[OF i1(1,3) True run] obtain n where n: "data_inv S tp'" "rcv_nxt tp' = rcv_nxt tp1 + of_nat n"
      "n \<le> sum_list (map tqe_len (q2 # nq))" "sb_data (so_rcv tp') = sb_data (so_rcv tp1) @ stretch S (rcv_nxt tp1) n"
      "t_segq tp' = [] \<or> th_seq (hd (t_segq tp')) \<noteq> rcv_nxt tp'" "suffix (t_segq tp') nq" by auto
    then show ?thesis using i1 by (intro exI[of _ "tqe_len q + n"]) (auto simp: stretch_add suffix_ConsI)
  next
    case False
    with Cons.prems(4) r have "tp' = tp1"
      by (auto simp del: present_loop.simps simp: present_loop.simps(2)[of tp] Let_def tp1_def z_def keep_def)
    with i1 False show ?thesis by (intro exI[of _ "tqe_len q"]) auto
  qed
qed

subsection \<open>Whole calls\<close>

text \<open>Only the sequence of the queue, not the addresses of its entries, matters to the data.\<close>

lemma segs_ok_addr:
  assumes "\<And>e. th_seq (f e) = th_seq e \<and> tqe_len (f e) = tqe_len e \<and> tqe_m (f e) = tqe_m e"
  shows "segs_ok S b (map f q) = segs_ok S b q" "q_ids (map f q) = q_ids q" "map tqe_len (map f q) = map tqe_len q"
  using assms by (simp_all add: segs_ok_def seg_ok_def before_def[abs_def] sorted_wrt_map q_ids_def comp_def)

definition delivers :: "(u32 \<Rightarrow> byte) \<Rightarrow> reass \<Rightarrow> reass \<Rightarrow> bool" where
  "delivers S tp tp' \<longleftrightarrow> (\<exists>n. rcv_nxt tp' = rcv_nxt tp + of_nat n \<and> n < 2 ^ 32 \<and>
     sb_data (so_rcv tp') = sb_data (so_rcv tp) @ stretch S (rcv_nxt tp) n)"

definition drained :: "reass \<Rightarrow> bool" where
  "drained tp \<longleftrightarrow> t_segq tp = [] \<or> th_seq (hd (t_segq tp)) \<noteq> rcv_nxt tp"

lemma delivers_refl: "rcv_nxt tp' = rcv_nxt tp \<Longrightarrow> so_rcv tp' = so_rcv tp \<Longrightarrow> delivers S tp tp'"
  unfolding delivers_def by (intro exI[of _ 0]) simp

lemma data_inv_timers [simp]: "data_inv S (tp\<lparr>t_timers := x\<rparr>) = data_inv S tp"
  by (simp add: data_inv_def)

lemma present_data_loop:
  assumes inv: "data_inv S tp" and q: "t_segq tp = q # nq" and at: "th_seq q = rcv_nxt tp"
    and lp: "present_loop tp repl None (q # nq) = Inr (tp1, fin1, repl1, rcl)"
    and rp: "(if repl1 then replace_tqs rcl tp1 else Inr tp1) = Inr tp2"
    and tp': "tp' = tp2\<lparr>t_timers := x\<rparr>"
  shows "data_inv S tp' \<and> delivers S tp tp' \<and> drained tp'"
proof -
  from present_loop_data[OF inv q at lp] obtain n where n: "data_inv S tp1" "rcv_nxt tp1 = rcv_nxt tp + of_nat n"
    "n \<le> sum_list (map tqe_len (q # nq))" "sb_data (so_rcv tp1) = sb_data (so_rcv tp) @ stretch S (rcv_nxt tp) n" "drained tp1"
    by (auto simp: drained_def)
  have "n < 2 ^ 32" using n(3) inv q by (simp add: data_inv_def)
  define g where "g a e = (if tqe_addr e = TQS then e\<lparr>tqe_addr := ZENT a\<rparr> else e)" for a :: nat and e :: tseg_qent
  have g: "th_seq (g a e) = th_seq e \<and> tqe_len (g a e) = tqe_len e \<and> tqe_m (g a e) = tqe_m e" for a e by (simp add: g_def)
  have "tp2 = tp1 \<or> (\<exists>a age. tp2 = tp1\<lparr>t_segageq := age, t_segq := map (g a) (t_segq tp1)\<rparr>)"
    using rp by (auto simp: replace_tqs_def res_bind_Inr g_def[abs_def] split: if_splits option.splits)
  moreover have "data_inv S (tp1\<lparr>t_segageq := age, t_segq := map (g a) (t_segq tp1)\<rparr>)" for a age
    using n(1) segs_ok_addr[of "g a", OF g] by (simp add: data_inv_def del: map_map set_concat)
  moreover have "drained (tp1\<lparr>t_segageq := age, t_segq := map (g a) (t_segq tp1)\<rparr>)" for a age
    using n(5) g by (cases "t_segq tp1") (simp_all add: drained_def)
  ultimately have "data_inv S tp2 \<and> rcv_nxt tp2 = rcv_nxt tp1 \<and> so_rcv tp2 = so_rcv tp1 \<and> drained tp2"
    using n(1,5) by auto
  with n \<open>n < 2 ^ 32\<close> show ?thesis unfolding tp' by (auto simp: delivers_def drained_def)
qed

lemma reass_return_Inr:
  "reass_return tp f t a = Inr (fin, tl', tp', as') \<Longrightarrow> tp' = tp \<and> fin = f \<and> tl' = t \<and> as' = a \<and> TQS \<notin> tqe_addr ` set (t_segq tp)"
  by (simp add: reass_return_def split: if_splits)

lemma reass_present_run:
  assumes est: "TCPS_HAVEESTABLISHED (t_state tp)" and q: "t_segq tp = q # nq" "th_seq q = rcv_nxt tp"
    and run: "reass_present ticks dl as tp False repl tlen = Inr (fin, tl', tp', as')"
  obtains tp1 fin1 repl1 rcl tp2 x where "present_loop tp repl None (q # nq) = Inr (tp1, fin1, repl1, rcl)"
    "(if repl1 then replace_tqs rcl tp1 else Inr tp1) = Inr tp2" "tp' = tp2\<lparr>t_timers := x\<rparr>"
proof -
  have e: "tp\<lparr>so_rcv := so_rcv tp, rcv_nxt := rcv_nxt tp\<rparr> = tp" by simp
  define K where "K fin1 tp = res_bind (tcp_reass_next_hole_deadline ticks dl tp) (\<lambda>d.
     reass_return (if \<not> tcp_timer_active (t_timers tp) TT_REASSDL \<or> d = 0
       then tp\<lparr>t_timers := tcp_timer_activate (t_timers tp) TT_REASSDL d\<rparr> else tp) fin1 tlen as)" for fin1 tp
  have "reass_present ticks dl as tp False repl tlen = res_bind (present_loop (tp\<lparr>so_rcv := so_rcv tp, rcv_nxt := rcv_nxt tp\<rparr>) repl None (q # nq))
     (\<lambda>(tp, fin1, repl1, rcl). res_bind (if repl1 then replace_tqs rcl tp else Inr tp) (K fin1))"
    using est unfolding reass_present_def q list.case K_def by (simp del: present_loop.simps)
  note run = run[unfolded this e]
  obtain p where p: "present_loop tp repl None (q # nq) = Inr p"
    using run by (cases "present_loop tp repl None (q # nq)") (simp_all del: present_loop.simps)
  obtain tp1 fin1 repl1 rcl where p': "p = (tp1, fin1, repl1, rcl)" by (cases p) auto
  obtain tp2 where r: "(if repl1 then replace_tqs rcl tp1 else Inr tp1) = Inr tp2" and k: "K fin1 tp2 = Inr (fin, tl', tp', as')"
    using run unfolding p p' res_bind.simps prod.case res_bind_Inr by blast
  obtain d where ret: "reass_return (if \<not> tcp_timer_active (t_timers tp2) TT_REASSDL \<or> d = 0
       then tp2\<lparr>t_timers := tcp_timer_activate (t_timers tp2) TT_REASSDL d\<rparr> else tp2) fin1 tlen as = Inr (fin, tl', tp', as')"
    using k unfolding K_def res_bind_Inr by blast
  have "tp' = (if \<not> tcp_timer_active (t_timers tp2) TT_REASSDL \<or> d = 0
       then tp2\<lparr>t_timers := tcp_timer_activate (t_timers tp2) TT_REASSDL d\<rparr> else tp2)"
    using reass_return_Inr[OF ret] by (rule conjunct1)
  then have "tp' = tp2\<lparr>t_timers := t_timers tp'\<rparr>" by simp
  with p p' r show ?thesis by (intro that) auto
qed

lemma reass_present_idle:
  assumes idle: "\<not> TCPS_HAVEESTABLISHED (t_state tp) \<or> drained tp"
    and run: "reass_present ticks dl as tp False repl tlen = Inr (fin, tl', tp', as')"
  shows "\<exists>x. tp' = tp\<lparr>t_timers := x\<rparr>"
proof -
  have e: "tp = tp\<lparr>t_timers := t_timers tp\<rparr>" by simp
  have ret: "\<exists>x. tp' = tp\<lparr>t_timers := x\<rparr>" if "reass_return (tp\<lparr>t_timers := y\<rparr>) f t a = Inr (fin, tl', tp', as')" for y f t a
    using that by (auto simp: reass_return_def split: if_splits)
  show ?thesis using run idle ret[of "t_timers tp"] ret
    by (cases "t_segq tp") (auto simp: reass_present_def res_bind_Inr drained_def split: if_splits)
qed

lemma reass_present_data:
  assumes inv: "data_inv S tp" and run: "reass_present ticks dl as tp False repl tlen = Inr (fin, tl', tp', as')"
  shows "data_inv S tp' \<and> delivers S tp tp' \<and> (TCPS_HAVEESTABLISHED (t_state tp) \<longrightarrow> drained tp')"
proof (cases "TCPS_HAVEESTABLISHED (t_state tp) \<and> \<not> drained tp")
  case True
  then obtain q nq where q: "t_segq tp = q # nq" "th_seq q = rcv_nxt tp" by (cases "t_segq tp") (auto simp: drained_def)
  from True have "TCPS_HAVEESTABLISHED (t_state tp)" by simp
  from reass_present_run[OF this q run] present_data_loop[OF inv q] show ?thesis by metis
next
  case False
  then have "\<exists>x. tp' = tp\<lparr>t_timers := x\<rparr>" by (intro reass_present_idle[OF _ run]) auto
  with False inv show ?thesis by (auto simp: drained_def intro: delivers_refl)
qed

text \<open>The new segment: a stretch of the stream in its own mbufs, within half the sequence space of
  \<open>rcv_nxt\<close>, and all queued data still fits the counters of the socket buffer.\<close>

definition arrives :: "(u32 \<Rightarrow> byte) \<Rightarrow> reass \<Rightarrow> u32 \<Rightarrow> nat \<Rightarrow> chain \<Rightarrow> bool" where
  "arrives S tp seq tlen m \<longleftrightarrow> new_ok S (rcv_nxt tp) seq tlen m \<and> distinct (map m_id m) \<and>
     m_id ` set m \<inter> (set (q_ids (t_segq tp)) \<union> sb_ids (so_rcv tp)) = {} \<and>
     length (sb_data (so_rcv tp)) + sum_list (map tqe_len (t_segq tp)) + tlen < 2 ^ 32"

lemma reass_insert_data:
  assumes inv: "data_inv S tp" and new: "arrives S tp seq tlen m"
    and fs: "find_seg seq (t_segq tp) = (pre, post)" and tn: "trim_new pre seq tlen m = Some (seq', tlen', m')"
    and run: "reass_insert ticks (tp\<lparr>t_segqlen := l, t_zone := z\<rparr>) te pre post seq' fin tlen' m' = Inr tp'"
  shows "data_inv S tp' \<and> rcv_nxt tp' = rcv_nxt tp \<and> so_rcv tp' = so_rcv tp \<and> t_state tp' = t_state tp"
proof -
  obtain post' zone' len' where ts: "trim_succ seq' tlen' post z l = (post', zone', len')" by (cases "trim_succ seq' tlen' post z l") auto
  note f = find_seg_spec[OF fs]
  have q: "segs_ok S (rcv_nxt tp) (pre @ post)" and n: "new_ok S (rcv_nxt tp) seq tlen m"
    using inv new f by (simp_all add: data_inv_def arrives_def)
  define e where "e = \<lparr>tqe_addr = te, th_seq = seq', th_fin = fin, tqe_len = tlen', tqe_m = m', tqe_ticks = ticks\<rparr>"
  have i: "segs_ok S (rcv_nxt tp) (pre @ e # post')" "map m_id m' = map m_id m" "tlen' \<le> tlen"
    "distinct (q_ids post) \<longrightarrow> distinct (q_ids post')" "set (q_ids post') \<subseteq> set (q_ids post)"
    "sum_list (map tqe_len post') \<le> sum_list (map tqe_len post)"
    using insert_sorted[OF q _ n tn ts] f unfolding e_def by blast+
  obtain age where tp': "tp' = tp\<lparr>t_segq := pre @ e # post', t_segageq := age, t_zone := zone', t_segqlen := len', t_rcvoopack := t_rcvoopack tp + 1\<rparr>"
    using run by (auto simp: reass_insert_def ts res_bind_Inr e_def)
  have "set (map m_id m') = set (map m_id m)" by (simp only: i(2))
  then have ids: "distinct (q_ids (pre @ e # post'))" "set (q_ids (pre @ e # post')) \<subseteq> set (q_ids (t_segq tp)) \<union> m_id ` set m"
    using inv new i(2,4,5) f by (auto simp: data_inv_def arrives_def e_def simp del: set_concat)
  have "set (q_ids (pre @ e # post')) \<inter> sb_ids (so_rcv tp) = {}"
    using ids(2) inv new unfolding data_inv_def arrives_def by blast
  moreover have "length (sb_data (so_rcv tp)) + sum_list (map tqe_len (pre @ e # post')) < 2 ^ 32"
    using new i(3,6) f by (simp add: arrives_def e_def)
  ultimately show ?thesis using inv i(1) ids(1) unfolding tp' data_inv_def by (simp del: set_concat)
qed

lemma tcp_reass_data:
  assumes inv: "data_inv S tp" and new: "arrives S tp seq tlen m"
    and res: "inp_passive tp \<longrightarrow> zalloc \<noteq> None \<and> \<not> reass_over_limit tp"
    and run: "tcp_reass ticks dl zalloc as tp (Some (seq, fin)) tlen m = Inr (fin', tl', tp', as')"
  shows "data_inv S tp' \<and> delivers S tp tp' \<and> (tp' = tp \<or> (TCPS_HAVEESTABLISHED (t_state tp) \<longrightarrow> drained tp'))"
proof (cases "tp' = tp")
  case True
  with inv show ?thesis by (auto intro: delivers_refl)
next
  case False
  obtain pre post where fs: "find_seg seq (t_segq tp) = (pre, post)" by fastforce
  show ?thesis
  proof (cases "trim_new pre seq tlen m")
    case None
    with run fs False res have "reass_present ticks dl as tp False False tlen = Inr (fin', tl', tp', as')"
      by (auto simp: Let_def split: if_splits)
    from reass_present_data[OF inv this] show ?thesis by simp
  next
    case (Some t)
    then obtain seq' tlen' m' where tn: "trim_new pre seq tlen m = Some (seq', tlen', m')" by (cases t) auto
    from run fs False res tn obtain tp1 l z te repl where
      r: "reass_insert ticks (tp\<lparr>t_segqlen := l, t_zone := z\<rparr>) te pre post seq' fin tlen' m' = Inr tp1"
      "reass_present ticks dl as tp1 False repl tlen' = Inr (fin', tl', tp', as')"
      by (auto simp: Let_def res_bind_Inr split: if_splits)
    note i = reass_insert_data[OF inv new fs tn r(1)]
    with reass_present_data[of S tp1, OF _ r(2)] show ?thesis by (auto simp: delivers_def)
  qed
qed

subsection \<open>The two lists agree\<close>

text \<open>Every queued segment is on the age queue, nothing else is, and exactly the queued entries are
  allocated.\<close>

definition age_inv :: "reass \<Rightarrow> bool" where
  "age_inv tp \<longleftrightarrow> distinct (map tqe_addr (t_segq tp)) \<and> distinct (t_segageq tp) \<and>
     set (t_segageq tp) = tqe_addr ` set (t_segq tp) \<and> ZENT ` set (t_zone tp) = tqe_addr ` set (t_segq tp) \<and>
     distinct (t_zone tp) \<and> t_segqlen tp = int (length (t_segq tp))"

lemma entry_live_iff: "entry_live zone x \<longleftrightarrow> x = TQS \<or> x \<in> ZENT ` set zone"
  by (cases x) auto

lemma age_inv_live: "age_inv tp \<Longrightarrow> x \<in> set (t_segageq tp) \<Longrightarrow> entry_live (t_zone tp) x"
  by (simp add: age_inv_def entry_live_iff)

lemma ageq_remove_total:
  assumes "a \<in> set q" "\<forall>x \<in> set q. entry_live zone x"
  shows "ageq_remove zone a q = Inr (remove1 a q)"
proof -
  obtain ys zs where q: "q = ys @ a # zs" "a \<notin> set ys" using split_list_first[OF assms(1)] by auto
  then have "takeWhile (\<lambda>x. x \<noteq> a) q = ys" "dropWhile (\<lambda>x. x \<noteq> a) q = a # zs"
    by (auto intro!: takeWhile_eq_all_conv[THEN iffD2] simp: takeWhile_append dropWhile_append)
  with assms q show ?thesis by (auto simp: ageq_remove_def ageq_subst_def Let_def remove1_append)
qed

lemma age_inv_step:
  assumes inv: "age_inv tp" and q: "t_segq tp = q # nq"
  shows "ageq_remove (t_zone tp) (tqe_addr q) (t_segageq tp) = Inr (remove1 (tqe_addr q) (t_segageq tp))"
    "age_inv (tp\<lparr>rcv_nxt := r, t_segq := nq, t_segageq := remove1 (tqe_addr q) (t_segageq tp), so_rcv := sb,
       t_segqlen := t_segqlen tp - 1, t_zone := uma_zfree (t_zone tp) (tqe_addr q)\<rparr>)"
    "tqe_addr q \<noteq> TQS"
proof -
  show "ageq_remove (t_zone tp) (tqe_addr q) (t_segageq tp) = Inr (remove1 (tqe_addr q) (t_segageq tp))"
    using inv q age_inv_live[OF inv] by (intro ageq_remove_total) (auto simp: age_inv_def)
  from inv q have "tqe_addr q \<in> ZENT ` set (t_zone tp)" by (simp add: age_inv_def)
  then obtain a where a: "tqe_addr q = ZENT a" by auto
  then show "tqe_addr q \<noteq> TQS" by simp
  have z: "ZENT ` set (t_zone tp) = insert (ZENT a) (tqe_addr ` set nq)" "ZENT a \<notin> tqe_addr ` set nq"
    using inv q a by (simp_all add: age_inv_def)
  have "ZENT ` (set (t_zone tp) - {a}) = ZENT ` set (t_zone tp) - {ZENT a}" by auto
  also have "\<dots> = tqe_addr ` set nq" unfolding z(1) using z(2) by simp
  finally have "ZENT ` set (remove1 a (t_zone tp)) = tqe_addr ` set nq" using inv by (simp add: age_inv_def)
  with inv q a z(2) show "age_inv (tp\<lparr>rcv_nxt := r, t_segq := nq, t_segageq := remove1 (tqe_addr q) (t_segageq tp), so_rcv := sb,
       t_segqlen := t_segqlen tp - 1, t_zone := uma_zfree (t_zone tp) (tqe_addr q)\<rparr>)"
    by (simp add: age_inv_def uma_zfree_def)
qed

lemma present_loop_total:
  assumes "data_inv S tp" "age_inv tp" "t_segq tp = q # nq" "th_seq q = rcv_nxt tp"
  shows "\<exists>tp' fin. present_loop tp False None (q # nq) = Inr (tp', fin, False, None) \<and> age_inv tp'"
  using assms
proof (induction nq arbitrary: tp q)
  case Nil
  note a = age_inv_step[OF Nil.prems(2,3)]
  from append_seg_step[OF Nil.prems(1,3,4)] a show ?case by (force simp: Let_def)
next
  case (Cons q2 nq)
  note a = age_inv_step[OF Cons.prems(2,3)]
  let ?z = "uma_zfree (t_zone tp) (tqe_addr q)" and ?age = "remove1 (tqe_addr q) (t_segageq tp)"
  from append_seg_step[OF Cons.prems(1,3,4), where age = ?age and l = "t_segqlen tp - 1" and z = ?z] obtain sb
    where sb: "append_seg (so_rcv tp) (tqe_m q) = Inr sb" "data_inv S (tp\<lparr>rcv_nxt := rcv_nxt tp + of_nat (tqe_len q), t_segq := q2 # nq,
      t_segageq := ?age, so_rcv := sb, t_segqlen := t_segqlen tp - 1, t_zone := ?z\<rparr>)" by auto
  define tp1 where "tp1 = tp\<lparr>rcv_nxt := rcv_nxt tp + of_nat (tqe_len q), t_segq := q2 # nq, t_segageq := ?age, so_rcv := sb,
    t_segqlen := t_segqlen tp - 1, t_zone := ?z\<rparr>"
  have i: "data_inv S tp1" "age_inv tp1" "t_segq tp1 = q2 # nq" using sb(2) a(2) by (simp_all add: tp1_def)
  have run: "present_loop tp False None (q # q2 # nq) =
    (if th_seq q2 = rcv_nxt tp1 then present_loop tp1 False None (q2 # nq) else Inr (tp1, th_fin q, False, None))"
    using a(1) sb(1) by (simp del: present_loop.simps add: present_loop.simps(2)[of tp] Let_def tp1_def)
  show ?case using Cons.IH[OF i] i(2) unfolding run by auto
qed

lemma deadline_total:
  assumes "age_inv tp"
  shows "\<exists>d. tcp_reass_next_hole_deadline ticks dl tp = Inr d \<and> (d = 0 \<longleftrightarrow> t_segq tp = [])"
proof (cases "t_segageq tp")
  case Nil
  with assms show ?thesis by (auto simp: tcp_reass_next_hole_deadline_def age_inv_def)
next
  case (Cons a r)
  with assms have "a \<in> tqe_addr ` set (t_segq tp)" unfolding age_inv_def by (metis list.set_intros(1))
  then have "seg_at (t_segq tp) a \<noteq> None" by (auto simp: seg_at_def find_None_iff)
  with Cons \<open>a \<in> _\<close> show ?thesis by (auto simp: tcp_reass_next_hole_deadline_def Let_def)
qed

lemma age_inv_timers [simp]: "age_inv (tp\<lparr>t_timers := x\<rparr>) = age_inv tp"
  by (simp add: age_inv_def)

lemma age_inv_return: "age_inv tp \<Longrightarrow> reass_return tp f t a = Inr (f, t, tp, a)"
  by (auto simp: reass_return_def age_inv_def dest!: equalityD2)

text \<open>The deadline timer of a passive connection runs whenever segments wait.\<close>

definition watched :: "reass \<Rightarrow> bool" where
  "watched tp \<longleftrightarrow> (inp_passive tp \<and> t_segq tp \<noteq> [] \<longrightarrow> tcp_timer_active (t_timers tp) TT_REASSDL)"

lemma watched_activate: "(d = 0 \<longrightarrow> t_segq tp = []) \<Longrightarrow> watched (tp\<lparr>t_timers := tcp_timer_activate (t_timers tp) TT_REASSDL d\<rparr>)"
  by (auto simp: watched_def tcp_timer_active_def tcp_timer_activate_def)

lemma reass_present_total:
  assumes inv: "data_inv S tp" "age_inv tp"
  shows "\<exists>fin tp'. reass_present ticks dl as tp False False tlen = Inr (fin, tlen, tp', as) \<and> age_inv tp' \<and>
    (TCPS_HAVEESTABLISHED (t_state tp) \<longrightarrow> watched tp')"
proof (cases "TCPS_HAVEESTABLISHED (t_state tp) \<and> \<not> drained tp")
  case True
  then obtain q nq where q: "t_segq tp = q # nq" "th_seq q = rcv_nxt tp" by (cases "t_segq tp") (auto simp: drained_def)
  from present_loop_total[OF inv q] obtain tp1 fin where lp: "present_loop tp False None (q # nq) = Inr (tp1, fin, False, None)" "age_inv tp1"
    by auto
  from deadline_total[OF lp(2)] obtain d where d: "tcp_reass_next_hole_deadline ticks dl tp1 = Inr d" "d = 0 \<longleftrightarrow> t_segq tp1 = []" by metis
  define tp2 where "tp2 = (if \<not> tcp_timer_active (t_timers tp1) TT_REASSDL \<or> d = 0
       then tp1\<lparr>t_timers := tcp_timer_activate (t_timers tp1) TT_REASSDL d\<rparr> else tp1)"
  have e: "tp\<lparr>so_rcv := so_rcv tp, rcv_nxt := rcv_nxt tp\<rparr> = tp" by simp
  have "reass_present ticks dl as tp False False tlen = reass_return tp2 fin tlen as"
    using True q e lp(1) d(1) unfolding reass_present_def q list.case tp2_def by (simp del: present_loop.simps)
  moreover have "age_inv tp2" using lp(2) by (simp add: tp2_def)
  moreover have "watched tp2" using watched_activate[of d tp1] d(2) by (auto simp: tp2_def watched_def)
  ultimately show ?thesis using age_inv_return[of tp2] by auto
next
  case False
  from deadline_total[OF inv(2)] obtain d where d: "tcp_reass_next_hole_deadline ticks dl tp = Inr d" "d = 0 \<longleftrightarrow> t_segq tp = []" by metis
  define tp2 where "tp2 = (if TCPS_HAVEESTABLISHED (t_state tp) \<and> inp_passive tp \<and> t_segq tp \<noteq> []
       then tp\<lparr>t_timers := tcp_timer_activate (t_timers tp) TT_REASSDL d\<rparr> else tp)"
  have "reass_present ticks dl as tp False False tlen = reass_return tp2 False tlen as"
    using False d(1) by (cases "t_segq tp") (auto simp: reass_present_def tp2_def drained_def)
  moreover have "age_inv tp2" using inv(2) by (simp add: tp2_def)
  moreover have "TCPS_HAVEESTABLISHED (t_state tp) \<longrightarrow> watched tp2"
    using watched_activate[of d tp] d(2) by (auto simp: tp2_def watched_def)
  ultimately show ?thesis using age_inv_return[of tp2] by auto
qed

lemma trim_new_end:
  assumes "trim_new pre seq tlen m = Some (seq', tlen', m')"
  shows "seq' + of_nat tlen' = seq + of_nat tlen"
proof (cases "pre = []")
  case False
  define i where "i = sint (th_seq (last pre) + of_nat (tqe_len (last pre)) - seq)"
  have "(of_int i :: u32) + of_nat (tlen - nat i) = of_nat tlen" if "0 < i" "\<not> int tlen \<le> i"
    using that by (simp add: of_nat_diff)
  with assms False show ?thesis unfolding trim_new_def Let_def i_def[symmetric] by (auto simp: add.assoc split: if_splits)
qed (use assms in \<open>simp add: trim_new_def\<close>)

lemma trim_succ_uncovered:
  assumes "post \<noteq> [] \<longrightarrow> \<not> covered seq tlen (hd post)" "trim_succ seq tlen post zone len = (post', zone', len')"
  shows "zone' = zone \<and> len' = len \<and> map tqe_addr post' = map tqe_addr post"
  using assms by (cases post) (auto simp: covered_def Let_def split: if_splits)

lemma reass_insert_age:
  assumes inv: "age_inv tp" and fs: "t_segq tp = pre @ post" and a: "a \<notin> set (t_zone tp)"
    and un: "post \<noteq> [] \<longrightarrow> \<not> covered seq tlen (hd post)"
  shows "\<exists>tp'. reass_insert ticks (tp\<lparr>t_segqlen := t_segqlen tp + 1, t_zone := a # t_zone tp\<rparr>) (ZENT a) pre post seq fin tlen m = Inr tp' \<and>
    age_inv tp' \<and> t_state tp' = t_state tp \<and> inp_passive tp' = inp_passive tp"
proof -
  obtain post' zone' len' where ts: "trim_succ seq tlen post (a # t_zone tp) (t_segqlen tp + 1) = (post', zone', len')"
    by (cases "trim_succ seq tlen post (a # t_zone tp) (t_segqlen tp + 1)") auto
  from trim_succ_uncovered[OF un ts] have t: "zone' = a # t_zone tp" "len' = t_segqlen tp + 1" "map tqe_addr post' = map tqe_addr post" by auto
  have new: "ZENT a \<notin> tqe_addr ` set (t_segq tp)" using inv a unfolding age_inv_def by (metis imageE tqe_ref.inject)
  then have nq: "ZENT a \<notin> set (t_segageq tp)" using inv by (simp add: age_inv_def)
  have "t_segageq tp \<noteq> [] \<Longrightarrow> entry_live (a # t_zone tp) (last (t_segageq tp))"
    using age_inv_live[OF inv, of "last (t_segageq tp)"] by (auto simp: entry_live_iff)
  then have ins: "ageq_insert_tail (a # t_zone tp) (t_segageq tp) (ZENT a) = Inr (t_segageq tp @ [ZENT a])"
    using nq by (auto simp: ageq_insert_tail_def)
  have s: "tqe_addr ` set post' = tqe_addr ` set post" "length post' = length post"
    using arg_cong[OF t(3), of set] arg_cong[OF t(3), of length] by simp_all
  from ts t ins show ?thesis using inv new a nq fs t(3)
    by (simp add: reass_insert_def age_inv_def image_Un s)
qed

lemma tcp_reass_total:
  assumes inv: "data_inv S tp" "age_inv tp" and new: "arrives S tp seq tlen m" and a: "a \<notin> set (t_zone tp)"
    and res: "inp_passive tp \<longrightarrow> \<not> reass_over_limit tp"
    and un: "\<forall>q \<in> set (t_segq tp). SEQ_GT (th_seq q) seq \<longrightarrow> \<not> covered seq tlen q"
    and ms: "t_maxseg tp \<noteq> 0"
  shows "\<exists>fin' tl' tp'. tcp_reass ticks dl (Some a) as tp (Some (seq, fin)) tlen m = Inr (fin', tl', tp', as) \<and> age_inv tp' \<and>
    (tp' = tp \<or> (TCPS_HAVEESTABLISHED (t_state tp) \<longrightarrow> watched tp'))"
proof (cases "(seq \<noteq> rcv_nxt tp \<or> \<not> TCPS_HAVEESTABLISHED (t_state tp)) \<and> reass_over_limit tp")
  case True
  with res inv ms show ?thesis by auto
next
  case False
  obtain pre post where fs: "find_seg seq (t_segq tp) = (pre, post)" by fastforce
  note f = find_seg_spec[OF fs]
  show ?thesis
  proof (cases "trim_new pre seq tlen m")
    case None
    with False fs ms have "tcp_reass ticks dl (Some a) as tp (Some (seq, fin)) tlen m = reass_present ticks dl as tp False False tlen"
      by (auto simp: Let_def)
    with reass_present_total[OF inv] show ?thesis by fastforce
  next
    case (Some t)
    then obtain seq' tlen' m' where tn: "trim_new pre seq tlen m = Some (seq', tlen', m')" by (cases t) auto
    have "post \<noteq> [] \<longrightarrow> \<not> covered seq' tlen' (hd post)"
      using un f trim_new_end[OF tn] by (cases post) (auto simp: covered_def)
    from reass_insert_age[OF inv(2) _ a this, of pre ticks fin m'] f obtain tp1 where
      r: "reass_insert ticks (tp\<lparr>t_segqlen := t_segqlen tp + 1, t_zone := a # t_zone tp\<rparr>) (ZENT a) pre post seq' fin tlen' m' = Inr tp1"
      "age_inv tp1" "t_state tp1 = t_state tp" by auto
    have "data_inv S tp1" using reass_insert_data[OF inv(1) new fs tn r(1)] by simp
    from reass_present_total[OF this r(2)] r False fs tn ms show ?thesis
      by (fastforce simp: Let_def)
  qed
qed

subsection \<open>Flushing\<close>

lemma tcp_reass_flush_eq:
  "tcp_reass_flush q tp = (if q = [] then tp else tp\<lparr>t_segq := [], t_zone := foldl uma_zfree (t_zone tp) (map tqe_addr q),
     t_segqlen := t_segqlen tp - int (length q)\<rparr>)"
  by (induction q arbitrary: tp) simp_all

lemma foldl_uma_zfree:
  assumes "distinct zone"
  shows "ZENT ` set (foldl uma_zfree zone rs) = ZENT ` set zone - set rs \<and> distinct (foldl uma_zfree zone rs)"
  using assms
proof (induction rs arbitrary: zone)
  case (Cons r rs)
  have "ZENT ` set (uma_zfree zone r) = ZENT ` set zone - {r}" "distinct (uma_zfree zone r)"
    using Cons.prems by (cases r; auto simp: uma_zfree_def)+
  with Cons.IH[of "uma_zfree zone r"] show ?case by auto
qed simp

lemma flush_zone:
  assumes "age_inv tp"
  shows "t_zone (tcp_reass_flush (t_segq tp) tp) = []" "t_segq (tcp_reass_flush (t_segq tp) tp) = []"
    "t_segqlen (tcp_reass_flush (t_segq tp) tp) = 0" "t_segageq (tcp_reass_flush (t_segq tp) tp) = t_segageq tp"
proof -
  have "ZENT ` set (foldl uma_zfree (t_zone tp) (map tqe_addr (t_segq tp))) = {}"
    using foldl_uma_zfree[of "t_zone tp"] assms by (simp add: age_inv_def)
  then show "t_zone (tcp_reass_flush (t_segq tp) tp) = []" "t_segq (tcp_reass_flush (t_segq tp) tp) = []"
    "t_segqlen (tcp_reass_flush (t_segq tp) tp) = 0" "t_segageq (tcp_reass_flush (t_segq tp) tp) = t_segageq tp"
    using assms by (auto simp: tcp_reass_flush_eq age_inv_def)
qed

lemma flush_then_insert:
  assumes inv: "age_inv tp" and ne: "t_segq tp \<noteq> []" and ms: "t_maxseg tp \<noteq> 0"
    and acc: "inp_passive tp \<or> zalloc \<noteq> None \<and> \<not> reass_over_limit (tcp_reass_flush (t_segq tp) tp)"
  shows "tcp_reass ticks dl zalloc as (tcp_reass_flush (t_segq tp) tp) (Some (seq, fin)) tlen m =
    Inl (if map_option ZENT zalloc = Some (last (t_segageq tp)) then Linked_twice else Use_after_free)" (is "_ = Inl ?f")
proof -
  define tp1 where "tp1 = tcp_reass_flush (t_segq tp) tp"
  note f = flush_zone[OF inv, folded tp1_def]
  have p: "inp_passive tp1 = inp_passive tp" "t_maxseg tp1 = t_maxseg tp" by (simp_all add: tp1_def tcp_reass_flush_eq)
  have ag: "t_segageq tp \<noteq> []" using inv ne by (auto simp: age_inv_def)
  have "last (t_segageq tp) \<in> ZENT ` set (t_zone tp)" using inv ag last_in_set[OF ag] by (simp add: age_inv_def)
  then obtain b where b: "last (t_segageq tp) = ZENT b" by auto
  have "ZENT b \<in> set (t_segageq tp)" using b last_in_set[OF ag] by simp
  then have "ageq_insert_tail (case zalloc of None \<Rightarrow> [] | Some a \<Rightarrow> [a]) (t_segageq tp) (case zalloc of None \<Rightarrow> TQS | Some a \<Rightarrow> ZENT a) = Inl ?f"
    using ag b by (cases zalloc) (auto simp: ageq_insert_tail_def)
  then have i: "reass_insert ticks (tp1\<lparr>t_segqlen := l, t_zone := (case zalloc of None \<Rightarrow> t_zone tp1 | Some a \<Rightarrow> a # t_zone tp1)\<rparr>)
      (case zalloc of None \<Rightarrow> TQS | Some a \<Rightarrow> ZENT a) [] [] seq fin tlen m = Inl ?f" for l
    by (cases zalloc) (simp_all add: reass_insert_def f)
  define g where "g = ?f"
  show ?thesis unfolding tp1_def[symmetric] g_def[symmetric] using acc[folded tp1_def] ms i[folded g_def]
    by (auto simp: Let_def f p trim_new_def)
qed

subsection \<open>A covered segment\<close>

lemma trim_succ_zone:
  assumes "trim_succ seq tlen post zone len = (post', zone', len')" "distinct zone"
  shows "ZENT ` set zone' \<subseteq> ZENT ` set zone"
  using assms
proof (induction post arbitrary: zone len)
  case (Cons q qs)
  define i where "i = sint (seq + of_nat tlen - th_seq q)"
  note run = Cons.prems(1)[unfolded trim_succ.simps Let_def i_def[symmetric]]
  have u: "ZENT ` set (uma_zfree zone (tqe_addr q)) \<subseteq> ZENT ` set zone" "distinct (uma_zfree zone (tqe_addr q))"
    using Cons.prems(2) by (cases "tqe_addr q"; auto simp: uma_zfree_def)+
  show ?case
  proof (cases "i \<le> 0 \<or> i < int (tqe_len q)")
    case True
    with run have "zone' = zone" by (simp split: if_splits)
    then show ?thesis by simp
  next
    case False
    with run have "trim_succ seq tlen qs (uma_zfree zone (tqe_addr q)) (len - 1) = (post', zone', len')" by simp
    from Cons.IH[OF this u(2)] u(1) show ?thesis by (rule subset_trans)
  qed
qed simp

lemma covered_dangles:
  assumes inv: "age_inv tp" and q: "t_segq tp = pre @ q # post" and a: "a \<notin> set (t_zone tp)" and cov: "covered seq tlen q"
    and run: "reass_insert ticks (tp\<lparr>t_segqlen := l, t_zone := a # t_zone tp\<rparr>) (ZENT a) pre (q # post) seq fin tlen m = Inr tp'"
  shows "tqe_addr q \<in> set (t_segageq tp') \<and> \<not> entry_live (t_zone tp') (tqe_addr q)"
proof -
  have "tqe_addr q \<in> ZENT ` set (t_zone tp)" "tqe_addr q \<in> set (t_segageq tp)" "distinct (t_zone tp)"
    using inv q by (auto simp: age_inv_def)
  then obtain b where b: "tqe_addr q = ZENT b" "b \<in> set (t_zone tp)" by auto
  obtain post' zone' len' where ts: "trim_succ seq tlen post (remove1 b (a # t_zone tp)) (l - 1) = (post', zone', len')"
    by (cases "trim_succ seq tlen post (remove1 b (a # t_zone tp)) (l - 1)") auto
  have "distinct (remove1 b (a # t_zone tp))" "b \<notin> set (remove1 b (a # t_zone tp))"
    using a b \<open>distinct (t_zone tp)\<close> by auto
  with trim_succ_zone[OF ts] have "b \<notin> set zone'" by auto
  moreover have "trim_succ seq tlen (q # post) (a # t_zone tp) l = (post', zone', len')"
    using ts cov b(1) unfolding trim_succ.simps covered_def Let_def uma_zfree_def by auto
  ultimately show ?thesis using run b(1) \<open>tqe_addr q \<in> set (t_segageq tp)\<close>
    by (auto simp: reass_insert_def res_bind_Inr ageq_insert_tail_def split: if_splits)
qed

subsection \<open>Exhausted zone on a passive connection\<close>

lemma stack_escape:
  assumes "inp_passive tp" "\<not> TCPS_HAVEESTABLISHED (t_state tp)" "t_segq tp = []" "t_segageq tp = []" "t_maxseg tp \<noteq> 0"
  shows "tcp_reass ticks dl None as tp (Some (seq, fin)) tlen m = Inl Stack_escape"
  using assms by (simp add: Let_def trim_new_def reass_insert_def ageq_insert_tail_def reass_present_def reass_return_def)

lemma reclaimed_leak:
  assumes q: "t_segq tp = [q1, q2]" "tqe_addr q1 = ZENT a" "tqe_addr q2 = TQS" "a \<in> set (t_zone tp)"
    "th_seq q1 = rcv_nxt tp" "th_seq q2 = rcv_nxt tp + of_nat (tqe_len q1)"
    and run: "present_loop tp True None [q1, q2] = Inr (tp', fin, repl, rcl)"
  shows "\<not> repl \<and> rcl = Some a \<and> t_segq tp' = [] \<and> a \<in> set (t_zone tp')"
  using q run by (auto simp: Let_def res_bind_Inr uma_zfree_def)

subsection \<open>Delivering across holes\<close>

definition expired :: "u32 \<Rightarrow> u32 \<Rightarrow> tseg_qent \<Rightarrow> bool" where
  "expired ticks dl e \<longleftrightarrow> dl \<le> ticks - tqe_ticks e"

lemma find_expired_split:
  "case find_expired ticks dl q of None \<Rightarrow> \<forall>e \<in> set q. \<not> expired ticks dl e
   | Some p \<Rightarrow> \<exists>pre e post. q = pre @ e # post \<and> tqe_addr e = p \<and> (\<forall>x \<in> set post. \<not> expired ticks dl x)"
proof (induction q rule: rev_induct)
  case (snoc x q)
  show ?case
  proof (cases "expired ticks dl x")
    case True
    then have "find_expired ticks dl (q @ [x]) = Some (tqe_addr x)" by (simp add: find_expired_def expired_def)
    then show ?thesis by (simp) (metis empty_iff list.set(1))
  next
    case False
    then have "find_expired ticks dl (q @ [x]) = find_expired ticks dl q" by (simp add: find_expired_def expired_def)
    moreover have "\<exists>pre e post'. (pre0 @ e0 # post) @ [x] = pre @ e # post' \<and> tqe_addr e = tqe_addr e0 \<and> (\<forall>y \<in> set post'. \<not> expired ticks dl y)"
      if "\<forall>y \<in> set post. \<not> expired ticks dl y" for pre0 e0 post
      using that False by (intro exI[of _ pre0] exI[of _ e0] exI[of _ "post @ [x]"]) auto
    ultimately show ?thesis using snoc.IH False by (cases "find_expired ticks dl q") fastforce+
  qed
qed (simp add: find_expired_def)

lemma fin_state_segq [simp]: "t_segq (fin_state ticks tp) = t_segq tp"
  by (simp add: fin_state_def split: tcps.splits)

lemma deliver_loop_suffix:
  assumes "deliver_loop ticks p as tp c q = Inr (tp', as')" "t_segq tp = q"
  shows "suffix (t_segq tp') q \<and> (\<forall>pre e post. q = pre @ e # post \<and> tqe_addr e = p \<and> p \<notin> tqe_addr ` set pre \<and> \<not> c \<longrightarrow> suffix (t_segq tp') post)"
  using assms
proof (induction q arbitrary: as tp c)
  case (Cons x q)
  show ?case
  proof (cases "c \<and> th_seq x \<noteq> rcv_nxt tp")
    case True
    with Cons.prems show ?thesis by simp
  next
    case False
    then obtain as1 tp1 where run: "deliver_loop ticks p as1 tp1 (c \<or> tqe_addr x = p) q = Inr (tp', as')" "t_segq tp1 = q"
      using Cons.prems(1) by (auto simp: res_bind_Inr Let_def split: prod.splits if_splits)
    from Cons.IH[OF run] have s: "suffix (t_segq tp') q"
      "\<And>pre e post. q = pre @ e # post \<Longrightarrow> tqe_addr e = p \<Longrightarrow> p \<notin> tqe_addr ` set pre \<Longrightarrow> \<not> c \<Longrightarrow> tqe_addr x \<noteq> p \<Longrightarrow> suffix (t_segq tp') post"
      by auto
    have "suffix (t_segq tp') post" if "x # q = pre @ e # post" "tqe_addr e = p" "p \<notin> tqe_addr ` set pre" "\<not> c" for pre e post
      using that s by (cases pre) auto
    with s(1) show ?thesis by (auto intro: suffix_ConsI)
  qed
qed simp

lemma deliver_holes_expired:
  assumes d: "distinct (map tqe_addr (t_segq tp))"
    and run: "tcp_reass_deliver_holes ticks tcp_reassdl as tp = Inr (tp', as')"
  shows "suffix (t_segq tp') (t_segq tp) \<and> (\<forall>e \<in> set (t_segq tp'). \<not> expired ticks (TP_REASSDL tp tcp_reassdl) e)"
proof (cases "find_expired ticks (TP_REASSDL tp tcp_reassdl) (t_segq tp)")
  case None
  with run find_expired_split[of "t_segq tp" ticks "TP_REASSDL tp tcp_reassdl"] show ?thesis
    by (simp add: tcp_reass_deliver_holes_def)
next
  case (Some p)
  with find_expired_split[of "t_segq tp" ticks "TP_REASSDL tp tcp_reassdl"] obtain pre e post
    where q: "t_segq tp = pre @ e # post" "tqe_addr e = p" "\<forall>x \<in> set post. \<not> expired ticks (TP_REASSDL tp tcp_reassdl) x" by auto
  obtain tp1 where lp: "deliver_loop ticks p as tp False (t_segq tp) = Inr (tp1, as')" "t_segq tp' = t_segq tp1"
    using run Some by (auto simp: tcp_reass_deliver_holes_def res_bind_Inr)
  have "p \<notin> tqe_addr ` set pre" using d q by auto
  with deliver_loop_suffix[OF lp(1) refl] q(1,2) have "suffix (t_segq tp') post" unfolding lp(2) by auto
  with q(3) q(1) show ?thesis using set_mono_suffix[of "t_segq tp'" post]
    by (auto simp: suffix_def)
qed

subsection \<open>What reading leaves alone\<close>

lemma sbfree_state [simp]: "sb_state (sbfree sb m) = sb_state sb"
  by (simp add: sbfree_def Let_def)

lemma sbdrop_loop_state: "sbdrop_loop sb m nx len = Inr (sb', m', nx') \<Longrightarrow> sb_state sb' = sb_state sb"
  by (induction sb m nx len rule: sbdrop_loop.induct) (auto split: if_splits list.splits)

lemma drop_zeros_state: "drop_zeros sb m = (sb', m') \<Longrightarrow> sb_state sb' = sb_state sb"
  by (induction sb m rule: drop_zeros.induct) (auto split: if_splits)

lemma sbdrop_internal_state:
  assumes "sbdrop_internal sb len = Inr sb'"
  shows "sb_state sb' = sb_state sb"
proof -
  obtain m nx where mn: "(case sb_mb sb of [] \<Rightarrow> ([], []) | r # rs \<Rightarrow> (r, rs)) = (m, nx)" by fastforce
  obtain sb1 m1 nx1 where lp: "sbdrop_loop sb m nx (nat len) = Inr (sb1, m1, nx1)"
    using assms unfolding sbdrop_internal_def mn by (auto simp: res_bind_Inr)
  obtain sb2 m2 where dz: "drop_zeros sb1 m1 = (sb2, m2)" by fastforce
  have "sb' = finish_drop sb2 (if m2 \<noteq> [] then m2 # nx1 else nx1)"
    using assms unfolding sbdrop_internal_def mn finish_drop_def by (simp add: lp dz Let_def)
  then show ?thesis using sbdrop_loop_state[OF lp] drop_zeros_state[OF dz] by (auto simp: finish_drop_def split: list.splits)
qed

lemma sbdrop_frame:
  assumes "stream_inv sb" "n \<le> length (sb_data sb)" "sbdrop_internal sb (int n) = Inr sb'"
  shows "stream_inv sb' \<and> sb_data sb' = drop n (sb_data sb) \<and> sb_ids sb' \<subseteq> sb_ids sb \<and> sb_state sb' = sb_state sb"
proof -
  have ok: "sb_ok sb" "chain_len (concat (sb_mb sb)) < 2 ^ 32" using assms by (auto simp: stream_inv_def)
  have "nat (int n) \<le> chain_len (concat (sb_mb sb))" using assms(2) sb_data_length[OF ok(1)] by simp
  from sbdrop_internal_run[OF ok this] obtain sb2 m2 nx where r: "sb' = finish_drop sb2 (if m2 \<noteq> [] then m2 # nx else nx)"
    and d: "sbdrop_ok sb (if sb_mb sb = [] then [[]] else sb_mb sb) n sb2 m2 nx" using assms(3) by auto
  obtain a c where ac: "(if sb_mb sb = [] then [[]] else sb_mb sb) = a @ c # nx" "ids_suffix m2 c" using d by (auto simp: sbdrop_ok_def)
  have "set (map m_id m2) \<subseteq> set (map m_id c)" using ac(2) set_mono_suffix unfolding ids_suffix_def by blast
  moreover have "concat (sb_mb sb) = concat (a @ c # nx)" by (simp flip: ac(1))
  moreover have "concat (sb_mb sb') = m2 @ concat nx" unfolding r by simp
  ultimately have "sb_ids sb' \<subseteq> sb_ids sb" by auto
  with stream_get[OF assms(1,2)] assms(3) sbdrop_internal_state[OF assms(3)] show ?thesis by auto
qed

end
