(* ===== verification/Tcp_Reass_Props.thy ===== *)
theory Tcp_Reass_Props
  imports Tcp_Reass_Inv
begin

text \<open>
  The properties of segment reassembly: what is delivered, when a call returns, when waiting segments are
  given up, and three ways in which an entry is freed, kept or lost against the assumptions of the code.
\<close>

subsection \<open>A sample connection\<close>

definition sample_S :: "u32 \<Rightarrow> byte" where "sample_S s = ucast s"

definition sample_tp :: "bool \<Rightarrow> tcps \<Rightarrow> reass" where
  "sample_tp passive st = \<lparr>t_segq = [], t_segageq = [], t_segqlen = 0, t_zone = [], rcv_nxt = 100, t_state = st,
     t_maxseg = 1460, t_reassdl = 10, t_starttime = 0, t_rcvoopack = 0, t_timers = (\<lambda>_. None), inp_passive = passive,
     so_rcv = sb_init 65536 65536 1 {}\<rparr>"

definition sample_seg :: "nat \<Rightarrow> u32 \<Rightarrow> nat \<Rightarrow> tseg_qent" where
  "sample_seg a s n = \<lparr>tqe_addr = ZENT a, th_seq = s, th_fin = False, tqe_len = n,
     tqe_m = [data_mb a {} (stretch sample_S s n) 0], tqe_ticks = 1\<rparr>"

definition sample_queue :: reass where
  "sample_queue = (sample_tp True TCPS_ESTABLISHED)\<lparr>t_segq := [sample_seg 7 102 2], t_segageq := [ZENT 7], t_segqlen := 1, t_zone := [7]\<rparr>"

definition sample_queue2 :: reass where
  "sample_queue2 = sample_queue\<lparr>t_segq := [sample_seg 7 102 2, sample_seg 9 120 1], t_segageq := [ZENT 7, ZENT 9], t_segqlen := 2, t_zone := [7, 9]\<rparr>"

lemmas sample_tp_simps = sample_tp_def sample_queue_def sample_seg_def sample_S_def stretch_def sb_init_def data_mb_def

lemma sample_inv: "data_inv sample_S sample_queue" "age_inv sample_queue"
  by (simp_all add: sample_tp_simps data_inv_def age_inv_def segs_ok_def seg_ok_def pos_def stream_inv_def sb_ok_def sb_counts_def
    sb_ptrs_def sb_snd_def sb_data_def wf_mbuf_def mbuf_consts chain_data_def mbuf_data_def m_bytes_def upt_rec)

lemma sample_arrives: "arrives sample_S sample_queue 100 2 [data_mb 8 {} [100, 101] 0]"
  by (simp add: sample_tp_simps arrives_def new_ok_def pos_def sb_data_def wf_mbuf_def mbuf_consts chain_data_def mbuf_data_def
    m_bytes_def upt_rec)

lemma sample_room: "\<not> reass_over_limit sample_queue"
  by (simp add: sample_tp_simps reass_over_limit_def word_le_nat_alt)

lemma sample_run:
  "\<exists>tp'. tcp_reass 5 10 (Some 8) [] sample_queue (Some (100, False)) 2 [data_mb 8 {} [100, 101] 0] = Inr (False, 2, tp', []) \<and> rcv_nxt tp' = 104"
proof -
  obtain f t tp' where r: "tcp_reass 5 10 (Some 8) [] sample_queue (Some (100, False)) 2 [data_mb 8 {} [100, 101] 0] = Inr (f, t, tp', [])"
    using tcp_reass_total[OF sample_inv sample_arrives, of 8 5 10 "[]" False] sample_room
    by (auto simp: sample_tp_simps covered_def)
  have "f = False \<and> t = 2 \<and> rcv_nxt tp' = 104"
    using r by (auto simp: Let_def sample_tp_simps SEQ_GT_def trim_new_def reass_insert_def ageq_insert_tail_def reass_present_def
      TCPS_HAVEESTABLISHED_def res_bind_Inr reass_return_def reass_over_limit_def split: if_splits)
  with r show ?thesis by auto
qed

subsection \<open>Properties\<close>

text \<open>C3: Reassembly delivers the peer's stream.  If every queued segment and the new one are stretches of
  the byte stream \<open>S\<close> (in their own mbufs, within half the sequence space), a call of \<open>tcp_reass\<close> that is
  not forced to give up a hole appends to the receive buffer exactly the bytes of \<open>S\<close> between the old and the new
  \<open>rcv_nxt\<close>, leaves a sorted queue of non-overlapping stretches of \<open>S\<close>, and on an established connection leaves nothing at the
  front that could be delivered.\<close>

theorem tcp_reass_delivers:
  assumes "data_inv S tp" "arrives S tp seq tlen m"
    and "inp_passive tp \<longrightarrow> zalloc \<noteq> None \<and> \<not> reass_over_limit tp"
    and "tcp_reass ticks dl zalloc as tp (Some (seq, fin)) tlen m = Inr (fin', tlen', tp', as')"
  shows "data_inv S tp' \<and>
    (\<exists>n. rcv_nxt tp' = rcv_nxt tp + of_nat n \<and> sb_data (so_rcv tp') = sb_data (so_rcv tp) @ stretch S (rcv_nxt tp) n) \<and>
    (tp' = tp \<or> (TCPS_HAVEESTABLISHED (t_state tp) \<longrightarrow> t_segq tp' = [] \<or> th_seq (hd (t_segq tp')) \<noteq> rcv_nxt tp'))"
  using tcp_reass_data[OF assms] unfolding delivers_def drained_def by blast

theorem tcp_reass_delivers_witness:
  "\<exists>tp' n. tcp_reass 5 10 (Some 8) [] sample_queue (Some (100, False)) 2 [data_mb 8 {} [100, 101] 0] = Inr (False, 2, tp', []) \<and>
    rcv_nxt tp' = 104 \<and> rcv_nxt tp' = 100 + of_nat n \<and> sb_data (so_rcv tp') = stretch sample_S 100 n"
proof -
  obtain tp' where r: "tcp_reass 5 10 (Some 8) [] sample_queue (Some (100, False)) 2 [data_mb 8 {} [100, 101] 0] = Inr (False, 2, tp', [])"
    "rcv_nxt tp' = 104" using sample_run by auto
  from tcp_reass_delivers[OF sample_inv(1) sample_arrives _ r(1)] r sample_room show ?thesis
    by (auto simp: sample_queue_def sample_tp_def sb_init_def sb_data_def chain_data_def)
qed

text \<open>C9: On a consistent connection every segment that covers no queued one is taken without a fault, whatever
  else overlaps: the call returns, the queue, the age queue and the allocated entries agree afterwards, and a passive established
  connection with segments left waiting has its deadline timer running.\<close>

theorem tcp_reass_returns:
  assumes "data_inv S tp" "age_inv tp" "arrives S tp seq tlen m" "a \<notin> set (t_zone tp)"
    and "inp_passive tp \<longrightarrow> \<not> reass_over_limit tp"
    and "\<forall>q \<in> set (t_segq tp). SEQ_GT (th_seq q) seq \<longrightarrow> \<not> covered seq tlen q" "t_maxseg tp \<noteq> 0"
  shows "\<exists>fin' tlen' tp'. tcp_reass ticks dl (Some a) as tp (Some (seq, fin)) tlen m = Inr (fin', tlen', tp', as) \<and> age_inv tp' \<and>
    (tp' = tp \<or> (TCPS_HAVEESTABLISHED (t_state tp) \<and> inp_passive tp' \<and> t_segq tp' \<noteq> [] \<longrightarrow>
       tcp_timer_active (t_timers tp') TT_REASSDL))"
  using tcp_reass_total[OF assms] unfolding watched_def by blast

theorem tcp_reass_returns_witness:
  "\<exists>fin' tlen' tp'. tcp_reass 5 10 (Some 8) [] sample_queue (Some (100, False)) 2 [data_mb 8 {} [100, 101] 0] = Inr (fin', tlen', tp', []) \<and>
     set (t_segageq tp') = tqe_addr ` set (t_segq tp')"
proof -
  have h: "8 \<notin> set (t_zone sample_queue)" "t_maxseg sample_queue \<noteq> 0" "\<forall>q \<in> set (t_segq sample_queue). SEQ_GT (th_seq q) 100 \<longrightarrow> \<not> covered 100 2 q"
    by (simp_all add: sample_tp_simps covered_def)
  from tcp_reass_returns[OF sample_inv sample_arrives h(1) _ h(3,2), of 5 10 "[]" False] sample_room obtain f t tp' where
    r: "tcp_reass 5 10 (Some 8) [] sample_queue (Some (100, False)) 2 [data_mb 8 {} [100, 101] 0] = Inr (f, t, tp', [])" and i: "age_inv tp'"
    by metis
  from i have "set (t_segageq tp') = tqe_addr ` set (t_segq tp')" by (simp add: age_inv_def)
  with r show ?thesis by (intro exI conjI)
qed

text \<open>C15: The deadline handler gives up on holes in time.  When \<open>tcp_reass_deliver_holes\<close> returns, no
  segment older than the deadline is left in the queue, and what is left is the tail of the old queue.\<close>

theorem deliver_holes_in_time:
  assumes "distinct (map tqe_addr (t_segq tp))"
    and "tcp_reass_deliver_holes ticks tcp_reassdl as tp = Inr (tp', as')"
  shows "suffix (t_segq tp') (t_segq tp) \<and>
    (\<forall>e \<in> set (t_segq tp'). ticks - tqe_ticks e < TP_REASSDL tp tcp_reassdl)"
  using deliver_holes_expired[OF assms] unfolding expired_def not_le .

lemma sample_append: "\<exists>sb. append_seg (sb_init 65536 65536 1 {}) [data_mb 7 {} [102, 103] 0] = Inr sb"
  by (simp add: append_seg_def sbappendstream_locked_def sb_init_def sbcompress_def drop_empty_def data_mb_def)

lemma sample_seg_fields: "tqe_m (sample_seg 7 102 2) = [data_mb 7 {} [102, 103] 0]" "tqe_addr (sample_seg a s n) = ZENT a"
  "th_seq (sample_seg a s n) = s" "tqe_len (sample_seg a s n) = n" "\<not> th_fin (sample_seg a s n)" "tqe_ticks (sample_seg a s n) = 1"
  by (simp_all add: sample_seg_def stretch_def sample_S_def upt_rec)

theorem deliver_holes_in_time_witness:
  "\<exists>tp' as'. tcp_reass_deliver_holes 50 10 [] (sample_queue\<lparr>rcv_nxt := 102\<rparr>) = Inr (tp', as') \<and> suffix (t_segq tp') [sample_seg 7 102 2] \<and>
     t_segq tp' = [] \<and> rcv_nxt tp' = 104"
proof -
  obtain sb where sb: "append_seg (sb_init 65536 65536 1 {}) [data_mb 7 {} [102, 103] 0] = Inr sb" using sample_append by auto
  have c: "case tcp_reass_deliver_holes 50 10 [] (sample_queue\<lparr>rcv_nxt := 102\<rparr>) of Inl _ \<Rightarrow> False
      | Inr (tp', as') \<Rightarrow> t_segq tp' = [] \<and> rcv_nxt tp' = 104"
    using sb by (simp add: tcp_reass_deliver_holes_def find_expired_def sample_queue_def sample_tp_def TP_REASSDL_def sample_seg_fields
      uma_zfree_def tcp_reass_next_hole_deadline_def ageq_remove_def ageq_subst_def Let_def)
  then obtain tp' as' where r: "tcp_reass_deliver_holes 50 10 [] (sample_queue\<lparr>rcv_nxt := 102\<rparr>) = Inr (tp', as')"
    "t_segq tp' = []" "rcv_nxt tp' = 104" by (auto split: sum.splits)
  have "distinct (map tqe_addr (t_segq (sample_queue\<lparr>rcv_nxt := 102\<rparr>)))" by (simp add: sample_tp_simps)
  from deliver_holes_in_time[OF this r(1)] r show ?thesis by (auto simp: sample_queue_def)
qed

subsection \<open>Entries freed too early, kept too long, or lost\<close>

text \<open>C35: \<open>tcp_drain\<close> flushes the queue of live connections, and \<open>tcp_reass_flush\<close> leaves the age queue as it is.
  After flushing a queue that was not empty, the next segment that is accepted writes through the link of a freed entry, unless
  the allocator happens to return the entry that was last on the age queue, which is then linked to itself.\<close>

theorem flush_leaves_dangling:
  assumes "age_inv tp" "t_segq tp \<noteq> []" "t_maxseg tp \<noteq> 0"
    and "inp_passive tp \<or> zalloc \<noteq> None \<and> \<not> reass_over_limit (tcp_reass_flush (t_segq tp) tp)"
  shows "tcp_reass ticks dl zalloc as (tcp_reass_flush (t_segq tp) tp) (Some (seq, fin)) tlen m =
    Inl (if map_option ZENT zalloc = Some (last (t_segageq tp)) then Linked_twice else Use_after_free)"
  by (rule flush_then_insert[OF assms])

theorem flush_leaves_dangling_witness:
  "tcp_reass 5 10 (Some 8) [] (tcp_reass_flush (t_segq sample_queue) sample_queue) (Some (300, False)) 1 [data_mb 8 {} [1] 0] = Inl Use_after_free"
proof -
  have h: "t_segq sample_queue \<noteq> []" "t_maxseg sample_queue \<noteq> 0" "inp_passive sample_queue" "last (t_segageq sample_queue) = ZENT 7"
    by (simp_all add: sample_tp_simps)
  show ?thesis
    using flush_leaves_dangling[OF sample_inv(2) h(1,2), of "Some 8" 5 10 "[]" 300 False 1 "[data_mb 8 {} [1] 0]"] h(3,4) by simp
qed

text \<open>C36: A queued segment that the new one covers is freed but stays on the age queue.\<close>

theorem covered_stays_on_age_queue:
  assumes "age_inv tp" "t_segq tp = pre @ q # post" "a \<notin> set (t_zone tp)" "covered seq tlen q"
    and "reass_insert ticks (tp\<lparr>t_segqlen := l, t_zone := a # t_zone tp\<rparr>) (ZENT a) pre (q # post) seq fin tlen m = Inr tp'"
  shows "tqe_addr q \<in> set (t_segageq tp') \<and> \<not> entry_live (t_zone tp') (tqe_addr q)"
  by (rule covered_dangles[OF assms])

theorem covered_stays_on_age_queue_witness:
  "\<exists>tp'. reass_insert 5 (sample_queue2\<lparr>t_segqlen := 3, t_zone := 8 # t_zone sample_queue2\<rparr>) (ZENT 8) []
      [sample_seg 7 102 2, sample_seg 9 120 1] 101 False 5 [] = Inr tp' \<and>
    ZENT 7 \<in> set (t_segageq tp') \<and> \<not> entry_live (t_zone tp') (ZENT 7)"
proof -
  have i: "age_inv sample_queue2" "t_segq sample_queue2 = [] @ sample_seg 7 102 2 # [sample_seg 9 120 1]" "8 \<notin> set (t_zone sample_queue2)"
    "covered 101 5 (sample_seg 7 102 2)"
    by (simp_all add: sample_queue2_def sample_tp_simps age_inv_def covered_def)
  obtain tp' where r: "reass_insert 5 (sample_queue2\<lparr>t_segqlen := 3, t_zone := 8 # t_zone sample_queue2\<rparr>) (ZENT 8) []
      (sample_seg 7 102 2 # [sample_seg 9 120 1]) 101 False 5 [] = Inr tp'"
    by (simp add: reass_insert_def sample_queue2_def sample_tp_simps Let_def uma_zfree_def ageq_insert_tail_def)
  from covered_stays_on_age_queue[OF i r] r show ?thesis by (auto simp: sample_seg_def)
qed

text \<open>C37: A passive connection that is not yet established and finds the zone exhausted queues the variable
  of its own stack frame and returns.\<close>

theorem stack_entry_escapes:
  assumes "inp_passive tp" "\<not> TCPS_HAVEESTABLISHED (t_state tp)" "t_segq tp = []" "t_segageq tp = []" "t_maxseg tp \<noteq> 0"
  shows "tcp_reass ticks dl None as tp (Some (seq, fin)) tlen m = Inl Stack_escape"
  by (rule stack_escape[OF assms])

theorem stack_entry_escapes_witness:
  "tcp_reass 5 10 None [] (sample_tp True TCPS_SYN_RECEIVED) (Some (100, False)) 1 [data_mb 8 {} [1] 0] = Inl Stack_escape"
  by (rule stack_entry_escapes) (simp_all add: sample_tp_def TCPS_HAVEESTABLISHED_def)

end
