(* ===== verification/Tcp_Sack.thy ===== *)
theory Tcp_Sack
  imports Tcp_Timer "HOL-Library.Multiset"
begin

text \<open>
  Selective acknowledgement: \<open>sys/netinet/tcp_sack.c\<close>.

  The receiver keeps an array of at most \<open>MAX_SACK_BLKS\<close> blocks of data that arrived out of order.  The sender keeps the
  scoreboard: the ordered list of holes that the peer has not acknowledged below \<open>snd_fack\<close>, with a hint to the
  next hole to retransmit.  A hole is a record with its address; \<open>nexthole\<close> is an address.  The loop of \<open>tcp_sack_doack\<close>
  walks the blocks and the holes from their tails; the model keeps the holes as a zipper: the hole \<open>cur\<close> and those before it,
  last first, and those after it.

  The outcomes of \<open>uma_zalloc\<close> on the zone of holes are a list that is consumed.  \<open>sack_bytes_rexmit\<close> is an \<open>int\<close> that is
  updated with unsigned differences; it is the 32-bit word of its representation.  \<open>tcp_output\<close> is a parameter.
\<close>

type_synonym u64 = "64 word"

subsection \<open>Data\<close>

record sackblk =
  blk_start :: u32
  blk_end :: u32

record sackhole =
  hole_addr :: nat
  hole_start :: u32
  hole_end :: u32
  rxmit :: u32

record sackhint =
  nexthole :: "nat option"
  sack_bytes_rexmit :: u32
  last_sack_ack :: u32

record sack_tp =
  snd_una :: u32
  snd_max :: u32
  snd_nxt :: u32
  snd_fack :: u32
  snd_numholes :: int
  snd_holes :: "sackhole list"
  sack_hint :: sackhint
  sack_newdata :: u32
  sack_maxseg :: u32
  snd_cwnd :: u64
  snd_ssthresh :: u64
  t_rtttime :: u32
  t_acknow :: bool
  sack_timers :: tcp_timers
  sack_globalholes :: int

definition MAX_SACK_BLKS :: nat where "MAX_SACK_BLKS = 6"
definition TCP_MAX_SACK :: nat where "TCP_MAX_SACK = 4"
definition TCPOLEN_SACK :: nat where "TCPOLEN_SACK = 8"

subsection \<open>Receiver\<close>

fun sack_merge :: "u32 \<Rightarrow> sackblk list \<Rightarrow> sackblk \<Rightarrow> sackblk list \<Rightarrow> sackblk \<times> sackblk list" where
  "sack_merge nxt [] head saved = (head, saved)"
| "sack_merge nxt (b # bs) head saved =
     (if SEQ_GEQ (blk_start b) (blk_end b) \<or> SEQ_LEQ (blk_start b) nxt then sack_merge nxt bs head saved
      else if SEQ_LEQ (blk_start head) (blk_end b) \<and> SEQ_GEQ (blk_end head) (blk_start b) then
        sack_merge nxt bs \<lparr>blk_start = (if SEQ_GT (blk_start head) (blk_start b) then blk_start b else blk_start head),
                           blk_end = (if SEQ_LT (blk_end head) (blk_end b) then blk_end b else blk_end head)\<rparr> saved
      else sack_merge nxt bs head (saved @ [b]))"

text \<open>\<open>arr\<close> is the array \<open>sackblks\<close>, \<open>num\<close> is \<open>rcv_numsacks\<close>.  A write past an array is a fault.\<close>

definition tcp_update_sack_list :: "u32 \<Rightarrow> sackblk list \<Rightarrow> nat \<Rightarrow> u32 \<Rightarrow> u32 \<Rightarrow> (sackblk list \<times> nat) res" where
  "tcp_update_sack_list nxt arr num rcv_start rcv_end =
     (if length arr < num then Inl Out_of_bounds
      else let (head, saved) = sack_merge nxt (take num arr) \<lparr>blk_start = rcv_start, blk_end = rcv_end\<rparr> []
        in if MAX_SACK_BLKS < length saved then Inl Out_of_bounds
           else let top = SEQ_GT (blk_start head) nxt;
                    saved' = (if top \<and> MAX_SACK_BLKS \<le> length saved then butlast saved else saved);
                    heads = (if top then [head] else [])
             in if length arr < length heads + length saved' then Inl Out_of_bounds
                else Inr (poke 0 (heads @ saved') arr, length heads + length saved'))"

definition tcp_clean_sackreport :: "sackblk list \<times> nat" where
  "tcp_clean_sackreport = (replicate MAX_SACK_BLKS \<lparr>blk_start = 0, blk_end = 0\<rparr>, 0)"

subsection \<open>Scoreboard\<close>

text \<open>\<open>lim\<close> is the pair of \<open>V_tcp_sack_maxholes\<close> and \<open>V_tcp_sack_globalmaxholes\<close>.\<close>

fun uma_zalloc_hole :: "nat option list \<Rightarrow> nat option \<times> nat option list" where
  "uma_zalloc_hole [] = (None, [])"
| "uma_zalloc_hole (a # as) = (a, as)"

definition tcp_sackhole_alloc :: "int \<times> int \<Rightarrow> nat option list \<Rightarrow> sack_tp \<Rightarrow> u32 \<Rightarrow> u32 \<Rightarrow> (sackhole option \<times> sack_tp \<times> nat option list)" where
  "tcp_sackhole_alloc lim as tp s e =
     (if snd_numholes tp \<ge> fst lim \<or> sack_globalholes tp \<ge> Product_Type.snd lim then (None, tp, as)
      else case uma_zalloc_hole as of (None, as') \<Rightarrow> (None, tp, as')
        | (Some a, as') \<Rightarrow> (Some \<lparr>hole_addr = a, hole_start = s, hole_end = e, rxmit = s\<rparr>,
            tp\<lparr>snd_numholes := snd_numholes tp + 1, sack_globalholes := sack_globalholes tp + 1\<rparr>, as'))"

definition tcp_sackhole_free :: "sack_tp \<Rightarrow> sack_tp" where
  "tcp_sackhole_free tp = tp\<lparr>snd_numholes := snd_numholes tp - 1, sack_globalholes := sack_globalholes tp - 1\<rparr>"

definition set_nexthole :: "nat option \<Rightarrow> sack_tp \<Rightarrow> sack_tp" where
  "set_nexthole n tp = tp\<lparr>sack_hint := (sack_hint tp)\<lparr>nexthole := n\<rparr>\<rparr>"

definition add_rexmit :: "u32 \<Rightarrow> sack_tp \<Rightarrow> sack_tp" where
  "add_rexmit n tp = tp\<lparr>sack_hint := (sack_hint tp)\<lparr>sack_bytes_rexmit := sack_bytes_rexmit (sack_hint tp) + n\<rparr>\<rparr>"

text \<open>The allocation and the hint of \<open>tcp_sackhole_insert\<close>; the caller links the hole into the list.\<close>

definition tcp_sackhole_insert :: "int \<times> int \<Rightarrow> nat option list \<Rightarrow> sack_tp \<Rightarrow> u32 \<Rightarrow> u32 \<Rightarrow> (sackhole option \<times> sack_tp \<times> nat option list)" where
  "tcp_sackhole_insert lim as tp s e =
     (case tcp_sackhole_alloc lim as tp s e of (None, tp', as') \<Rightarrow> (None, tp', as')
      | (Some h, tp', as') \<Rightarrow>
          (Some h, if nexthole (sack_hint tp') = None then set_nexthole (Some (hole_addr h)) tp' else tp', as'))"

text \<open>\<open>next\<close> are the holes after the one that is removed.\<close>

definition tcp_sackhole_remove :: "sack_tp \<Rightarrow> sackhole \<Rightarrow> sackhole list \<Rightarrow> sack_tp" where
  "tcp_sackhole_remove tp h nx =
     tcp_sackhole_free (if nexthole (sack_hint tp) = Some (hole_addr h)
       then set_nexthole (case nx of [] \<Rightarrow> None | n # _ \<Rightarrow> Some (hole_addr n)) tp else tp)"

subsection \<open>Acknowledgement\<close>

definition sack_of_bytes :: "byte list \<Rightarrow> nat \<Rightarrow> sackblk" where
  "sack_of_bytes to_sacks i =
     (let bs = drop (i * TCPOLEN_SACK) to_sacks in \<lparr>blk_start = be_num (take 4 bs), blk_end = be_num (take 4 (drop 4 bs))\<rparr>)"

text \<open>The option as the parser leaves it: \<open>to_nsacks\<close> and the bytes at \<open>to_sacks\<close>, \<open>None\<close> without \<open>TOF_SACK\<close>.\<close>

fun sack_option :: "(nat \<times> byte list) option \<Rightarrow> sackblk list" where
  "sack_option None = []"
| "sack_option (Some (to_nsacks, to_sacks)) = map (sack_of_bytes to_sacks) [0..<to_nsacks]"

definition sack_valid :: "sack_tp \<Rightarrow> u32 \<Rightarrow> sackblk \<Rightarrow> bool" where
  "sack_valid tp th_ack b \<longleftrightarrow> SEQ_GT (blk_end b) (blk_start b) \<and> SEQ_GT (blk_start b) (snd_una tp) \<and> SEQ_GT (blk_start b) th_ack \<and>
     SEQ_LT (blk_start b) (snd_max tp) \<and> SEQ_GT (blk_end b) (snd_una tp) \<and> SEQ_LEQ (blk_end b) (snd_max tp)"

text \<open>The blocks to process: the acknowledged range first, then the valid blocks of the option.\<close>

definition sack_blocks :: "sack_tp \<Rightarrow> sackblk list \<Rightarrow> u32 \<Rightarrow> sackblk list" where
  "sack_blocks tp sacks th_ack =
     (if SEQ_LT (snd_una tp) th_ack \<and> snd_holes tp \<noteq> [] then [\<lparr>blk_start = snd_una tp, blk_end = th_ack\<rparr>] else []) @
     filter (sack_valid tp th_ack) sacks"

text \<open>The two loops that sort by exchanges.\<close>

fun sort_inner :: "sackblk \<Rightarrow> sackblk list \<Rightarrow> sackblk \<times> sackblk list" where
  "sort_inner x [] = (x, [])"
| "sort_inner x (y # ys) =
     (if SEQ_GT (blk_end x) (blk_end y) then map_prod id (Cons x) (sort_inner y ys) else map_prod id (Cons y) (sort_inner x ys))"

lemma length_sort_inner [simp]: "length (Product_Type.snd (sort_inner x ys)) = length ys"
  by (induction ys arbitrary: x) auto

function sort_blocks :: "sackblk list \<Rightarrow> sackblk list" where
  "sort_blocks [] = []"
| "sort_blocks (x # xs) = fst (sort_inner x xs) # sort_blocks (Product_Type.snd (sort_inner x xs))"
  by pat_completeness auto
termination
  by (relation "measure length") auto

text \<open>What a block that overlaps the hole \<open>cur\<close> does to it: the rest of the hole, \<open>None\<close> when it is removed, and the new hole
  split off behind it.\<close>

definition sack_cut :: "int \<times> int \<Rightarrow> nat option list \<Rightarrow> sack_tp \<Rightarrow> sackblk \<Rightarrow> sackhole \<Rightarrow> sackhole list \<Rightarrow>
    nat option list \<times> sack_tp \<times> sackhole option \<times> sackhole list" where
  "sack_cut lim as tp b cur right =
     (let tp1 = add_rexmit (- (rxmit cur - hole_start cur)) tp in
      if SEQ_LEQ (blk_start b) (hole_start cur) then
        (if SEQ_GEQ (blk_end b) (hole_end cur) then (as, tcp_sackhole_remove tp1 cur right, None, [])
         else let cur' = cur\<lparr>hole_start := blk_end b, rxmit := SEQ_MAX (rxmit cur) (blk_end b)\<rparr>
              in (as, add_rexmit (rxmit cur' - hole_start cur') tp1, Some cur', []))
      else if SEQ_GEQ (blk_end b) (hole_end cur) then
        (let cur' = cur\<lparr>hole_end := blk_start b, rxmit := SEQ_MIN (rxmit cur) (blk_start b)\<rparr>
         in (as, add_rexmit (rxmit cur' - hole_start cur') tp1, Some cur', []))
      else
        (case tcp_sackhole_insert lim as tp1 (blk_end b) (hole_end cur) of
           (None, tp2, as2) \<Rightarrow> (as2, add_rexmit (rxmit cur - hole_start cur) tp2, Some cur, [])
         | (Some temp, tp2, as2) \<Rightarrow>
             let moved = SEQ_GT (rxmit cur) (rxmit temp);
                 temp' = (if moved then temp\<lparr>rxmit := rxmit cur\<rparr> else temp);
                 tp3 = (if moved then add_rexmit (rxmit temp' - hole_start temp') tp2 else tp2);
                 cur' = cur\<lparr>hole_end := blk_start b, rxmit := SEQ_MIN (rxmit cur) (blk_start b)\<rparr>
             in (as2, add_rexmit (rxmit cur' - hole_start cur') tp3, Some cur', [temp'])))"

text \<open>One sweep: \<open>bs\<close> are the blocks from the current one down, \<open>left\<close> the holes from \<open>cur\<close> down, \<open>right\<close> those after it.\<close>

function sack_sweep :: "int \<times> int \<Rightarrow> nat option list \<Rightarrow> sack_tp \<Rightarrow> sackblk list \<Rightarrow> sackhole list \<Rightarrow> sackhole list \<Rightarrow> sack_tp" where
  "sack_sweep lim as tp [] left right = tp\<lparr>snd_holes := rev left @ right\<rparr>"
| "sack_sweep lim as tp (b # bs) [] right = tp\<lparr>snd_holes := right\<rparr>"
| "sack_sweep lim as tp (b # bs) (cur # left) right =
     (if SEQ_GEQ (blk_start b) (hole_end cur) then sack_sweep lim as tp bs (cur # left) right
      else if SEQ_LEQ (blk_end b) (hole_start cur) then sack_sweep lim as tp (b # bs) left (cur # right)
      else case sack_cut lim as tp b cur right of
          (as', tp', None, ts) \<Rightarrow> sack_sweep lim as' tp' (b # bs) left right
        | (as', tp', Some cur', ts) \<Rightarrow>
            if SEQ_LEQ (blk_start b) (hole_start cur') then sack_sweep lim as' tp' (b # bs) left (cur' # ts @ right)
            else sack_sweep lim as' tp' bs (cur' # left) (ts @ right))"
  by pat_completeness auto
termination
  by (relation "measure (\<lambda>(lim, as, tp, bs, left, right). length bs + length left)") auto

definition tcp_sack_doack :: "int \<times> int \<Rightarrow> nat option list \<Rightarrow> sack_tp \<Rightarrow> (nat \<times> byte list) option \<Rightarrow> u32 \<Rightarrow> sack_tp res" where
  "tcp_sack_doack lim as tp to th_ack =
     (let blks = sack_blocks tp (sack_option to) th_ack in
      if TCP_MAX_SACK + 1 < length blks then Inl Out_of_bounds
      else if blks = [] then Inr tp
      else
        let ds = rev (sort_blocks blks);
            b = hd ds;
            tp1 = (if snd_holes tp = [] then tp\<lparr>snd_fack := SEQ_MAX (snd_una tp) th_ack\<rparr> else tp);
            tp2 = tp1\<lparr>sack_hint := (sack_hint tp1)\<lparr>last_sack_ack := blk_end b\<rparr>\<rparr>
        in if SEQ_LT (snd_fack tp2) (blk_start b) then
             (case tcp_sackhole_insert lim as tp2 (snd_fack tp2) (blk_start b) of
                (Some temp, tp3, as3) \<Rightarrow>
                  Inr (sack_sweep lim as3 (tp3\<lparr>snd_fack := blk_end b\<rparr>) (tl ds) (rev (snd_holes tp3 @ [temp])) [])
              | (None, tp3, as3) \<Rightarrow>
                  let ds' = dropWhile (\<lambda>x. SEQ_LT (snd_fack tp3) (blk_start x)) ds;
                      tp4 = (case ds' of [] \<Rightarrow> tp3
                             | x # _ \<Rightarrow> if SEQ_LT (snd_fack tp3) (blk_end x) then tp3\<lparr>snd_fack := blk_end x\<rparr> else tp3)
                  in Inr (sack_sweep lim as3 tp4 ds' (rev (snd_holes tp4)) []))
           else
             let tp3 = (if SEQ_LT (snd_fack tp2) (blk_end b) then tp2\<lparr>snd_fack := blk_end b\<rparr> else tp2)
             in Inr (sack_sweep lim as tp3 ds (rev (snd_holes tp3)) []))"

fun free_holes :: "sackhole list \<Rightarrow> sack_tp \<Rightarrow> sack_tp" where
  "free_holes [] tp = tp"
| "free_holes (h # hs) tp = free_holes hs ((tcp_sackhole_remove tp h hs)\<lparr>snd_holes := hs\<rparr>)"

definition tcp_free_sackholes :: "sack_tp \<Rightarrow> sack_tp" where
  "tcp_free_sackholes tp =
     (let tp1 = free_holes (snd_holes tp) tp in tp1\<lparr>sack_hint := (sack_hint tp1)\<lparr>sack_bytes_rexmit := 0\<rparr>\<rparr>)"

subsection \<open>Retransmission\<close>

definition tcp_sack_partialack :: "(sack_tp \<Rightarrow> sack_tp) \<Rightarrow> sack_tp \<Rightarrow> u32 \<Rightarrow> sack_tp" where
  "tcp_sack_partialack tcp_output tp th_ack =
     (let num_segs = (if (th_ack - snd_una tp) div sack_maxseg tp \<ge> 2 then 2 else 1);
          cwnd = (ucast (sack_bytes_rexmit (sack_hint tp) + (snd_nxt tp - sack_newdata tp) + num_segs * sack_maxseg tp) :: u64)
      in tcp_output (tp\<lparr>sack_timers := tcp_timer_activate (sack_timers tp) TT_REXMT 0, t_rtttime := 0,
           snd_cwnd := (if cwnd > snd_ssthresh tp then snd_ssthresh tp else cwnd), t_acknow := True\<rparr>))"

fun holes_from :: "nat \<Rightarrow> sackhole list \<Rightarrow> sackhole list" where
  "holes_from a [] = []"
| "holes_from a (h # hs) = (if hole_addr h = a then h # hs else holes_from a hs)"

text \<open>The version of \<open>tcp_sack_output\<close> that the source keeps as a sanity check of the hint: it walks the scoreboard.\<close>

fun sack_walk :: "u32 \<Rightarrow> u32 \<Rightarrow> sackhole list \<Rightarrow> sackhole option \<times> u32" where
  "sack_walk una n [] = (None, n)"
| "sack_walk una n (p # ps) =
     (if SEQ_LT (rxmit p) (hole_end p) then
        (if SEQ_LT (rxmit p) una then sack_walk una n ps else (Some p, n + (rxmit p - hole_start p)))
      else sack_walk una (n + (rxmit p - hole_start p)) ps)"

definition tcp_sack_output_debug :: "sack_tp \<Rightarrow> sackhole option \<times> u32" where
  "tcp_sack_output_debug tp = sack_walk (snd_una tp) 0 (snd_holes tp)"

text \<open>What \<open>tcp_output\<close> writes on the scoreboard when it retransmits \<open>len\<close> bytes of the hole \<open>p\<close>.\<close>

definition sack_retransmit :: "sackhole \<Rightarrow> u32 \<Rightarrow> sack_tp \<Rightarrow> sack_tp" where
  "sack_retransmit p len tp =
     add_rexmit len (tp\<lparr>snd_holes := map (\<lambda>h. if hole_addr h = hole_addr p then h\<lparr>rxmit := rxmit h + len\<rparr> else h) (snd_holes tp)\<rparr>)"

text \<open>The hole to retransmit from, and the number of bytes already retransmitted.\<close>

definition tcp_sack_output :: "sack_tp \<Rightarrow> (sackhole option \<times> u32 \<times> sack_tp) res" where
  "tcp_sack_output tp =
     (let n = sack_bytes_rexmit (sack_hint tp) in
      case nexthole (sack_hint tp) of None \<Rightarrow> Inr (None, n, tp)
      | Some a \<Rightarrow> (case holes_from a (snd_holes tp) of [] \<Rightarrow> Inl Use_after_free
          | h # hs \<Rightarrow>
              if SEQ_LT (rxmit h) (hole_end h) then Inr (Some h, n, tp)
              else (case find (\<lambda>x. SEQ_LT (rxmit x) (hole_end x)) hs of None \<Rightarrow> Inr (None, n, tp)
                    | Some x \<Rightarrow> Inr (Some x, n, set_nexthole (Some (hole_addr x)) tp))))"

fun sack_adjust_loop :: "u32 \<Rightarrow> u32 \<Rightarrow> sackhole \<Rightarrow> sackhole list \<Rightarrow> u32" where
  "sack_adjust_loop nxt fack cur [] = (if SEQ_LT nxt (hole_end cur) then nxt else fack)"
| "sack_adjust_loop nxt fack cur (p # ps) =
     (if SEQ_LT nxt (hole_end cur) then nxt
      else if SEQ_GEQ nxt (hole_start p) then sack_adjust_loop nxt fack p ps
      else hole_start p)"

definition tcp_sack_adjust :: "sack_tp \<Rightarrow> sack_tp" where
  "tcp_sack_adjust tp =
     (case snd_holes tp of [] \<Rightarrow> tp
      | cur # ps \<Rightarrow> if SEQ_GEQ (snd_nxt tp) (snd_fack tp) then tp
                    else tp\<lparr>snd_nxt := sack_adjust_loop (snd_nxt tp) (snd_fack tp) cur ps\<rparr>)"

end
