(* ===== verification/Tcp_Sack_Inv.thy ===== *)
theory Tcp_Sack_Inv
  imports Tcp_Sack
begin

text \<open>
  Lemmas on selective acknowledgement.  Ranges of sequence numbers are read as sets of positions after a base
  (\<open>rcv_nxt\<close> for the receiver, \<open>snd_una\<close> for the sender).  The receiver's blocks are pairwise \<open>apart\<close>; the sender's
  holes are sorted (\<open>holes_ok\<close>) and its counters and hint agree with them (\<open>acct\<close>).  One sweep over blocks and holes
  removes the blocks from the set of holes.
\<close>

subsection \<open>Ranges of sequence numbers\<close>

text \<open>Half of the sequence space after the base; within it the comparison macros compare positions.\<close>

abbreviation near :: "u32 \<Rightarrow> u32 \<Rightarrow> bool" where "near b s \<equiv> pos b s < 2147483648"

definition rset :: "u32 \<Rightarrow> u32 \<Rightarrow> u32 \<Rightarrow> nat set" where
  "rset b s e = {pos b s..<pos b e}"

definition bset :: "u32 \<Rightarrow> sackblk \<Rightarrow> nat set" where
  "bset b x = rset b (blk_start x) (blk_end x)"

definition bok :: "u32 \<Rightarrow> sackblk \<Rightarrow> bool" where
  "bok b x \<longleftrightarrow> pos b (blk_start x) < pos b (blk_end x) \<and> near b (blk_end x)"

lemma bok_near: "bok b x \<Longrightarrow> near b (blk_start x) \<and> near b (blk_end x)"
  by (auto simp: bok_def)

text \<open>Two blocks with a gap between them.\<close>

definition apart :: "u32 \<Rightarrow> sackblk \<Rightarrow> sackblk \<Rightarrow> bool" where
  "apart b x y \<longleftrightarrow> pos b (blk_end x) < pos b (blk_start y) \<or> pos b (blk_end y) < pos b (blk_start x)"

lemma apart_sym: "apart b x y = apart b y x"
  by (auto simp: apart_def)

subsection \<open>The receiver's list\<close>

definition stale :: "u32 \<Rightarrow> sackblk \<Rightarrow> bool" where
  "stale nxt x \<longleftrightarrow> SEQ_GEQ (blk_start x) (blk_end x) \<or> SEQ_LEQ (blk_start x) nxt"

definition hull :: "sackblk \<Rightarrow> sackblk \<Rightarrow> sackblk" where
  "hull h x = \<lparr>blk_start = (if SEQ_GT (blk_start h) (blk_start x) then blk_start x else blk_start h),
     blk_end = (if SEQ_LT (blk_end h) (blk_end x) then blk_end x else blk_end h)\<rparr>"

lemma hull_spec:
  assumes "bok b h" "bok b x" "\<not> apart b h x"
  shows "bok b (hull h x)" "bset b (hull h x) = bset b h \<union> bset b x"
    "pos b (blk_start (hull h x)) = min (pos b (blk_start h)) (pos b (blk_start x))"
    "bok b z \<Longrightarrow> apart b h z \<Longrightarrow> apart b x z \<Longrightarrow> apart b (hull h x) z"
proof -
  note n = bok_near[OF assms(1)] bok_near[OF assms(2)]
  have s: "pos b (blk_start (hull h x)) = min (pos b (blk_start h)) (pos b (blk_start x))"
    "pos b (blk_end (hull h x)) = max (pos b (blk_end h)) (pos b (blk_end x))"
    using SEQ_pos[of b "blk_start h" "blk_start x"] SEQ_pos[of b "blk_end h" "blk_end x"] n by (simp_all add: hull_def)
  then show "bok b (hull h x)" "pos b (blk_start (hull h x)) = min (pos b (blk_start h)) (pos b (blk_start x))"
    using assms(1,2) by (auto simp: bok_def)
  show "bset b (hull h x) = bset b h \<union> bset b x"
    using assms unfolding bset_def rset_def s bok_def apart_def by auto
  show "apart b (hull h x) z" if "bok b z" "apart b h z" "apart b x z"
    using that assms unfolding apart_def s bok_def by auto
qed

lemma touch_iff:
  assumes "bok b h" "bok b x"
  shows "SEQ_LEQ (blk_start h) (blk_end x) \<and> SEQ_GEQ (blk_end h) (blk_start x) \<longleftrightarrow> \<not> apart b h x"
  using SEQ_pos[of b "blk_start h" "blk_end x"] SEQ_pos[of b "blk_end h" "blk_start x"] bok_near[OF assms(1)] bok_near[OF assms(2)]
  by (auto simp: apart_def)

lemma sack_merge_spec:
  assumes "\<forall>x \<in> set bs. \<not> stale nxt x \<longrightarrow> bok nxt x" "bok nxt head" "\<forall>x \<in> set saved. bok nxt x"
    "sorted_wrt (apart nxt) (saved @ filter (\<lambda>x. \<not> stale nxt x) bs)" "\<forall>x \<in> set saved. apart nxt head x"
    "sack_merge nxt bs head saved = (head', saved')" "0 < pos nxt (blk_start head)"
  shows "bok nxt head' \<and> (\<forall>x \<in> set saved'. bok nxt x) \<and> sorted_wrt (apart nxt) (head' # saved') \<and>
    bset nxt head \<subseteq> bset nxt head' \<and> 0 < pos nxt (blk_start head') \<and>
    bset nxt head' \<union> \<Union> (bset nxt ` set saved') =
      bset nxt head \<union> \<Union> (bset nxt ` set saved) \<union> \<Union> (bset nxt ` set (filter (\<lambda>x. \<not> stale nxt x) bs))"
  using assms
proof (induction bs arbitrary: head saved)
  case Nil
  then show ?case by auto
next
  case (Cons x bs)
  show ?case
  proof (cases "stale nxt x")
    case True
    then have run: "sack_merge nxt bs head saved = (head', saved')" using Cons.prems(6) by (simp add: stale_def)
    show ?thesis using Cons.IH[OF _ Cons.prems(2,3) _ Cons.prems(5) run Cons.prems(7)] Cons.prems(1,4) True by simp
  next
    case live: False
    then have x: "bok nxt x" using Cons.prems(1) by simp
    have ap: "\<forall>y \<in> set saved. apart nxt x y" "\<forall>y \<in> set bs. \<not> stale nxt y \<longrightarrow> apart nxt x y"
      "sorted_wrt (apart nxt) (saved @ filter (\<lambda>x. \<not> stale nxt x) bs)"
      using Cons.prems(4) live apart_sym by (auto simp: sorted_wrt_append)
    have px: "0 < pos nxt (blk_start x)"
    proof (rule gr0I)
      assume "pos nxt (blk_start x) = 0"
      then have "blk_start x = nxt" using pos_eq_iff[of nxt "blk_start x" nxt] by simp
      with live show False by (simp add: stale_def SEQ_LEQ_def)
    qed
    show ?thesis
    proof (cases "apart nxt head x")
      case False
      have run: "sack_merge nxt bs (hull head x) saved = (head', saved')"
        using Cons.prems(6) live touch_iff[OF Cons.prems(2) x] False by (simp add: stale_def hull_def)
      note h = hull_spec[OF Cons.prems(2) x False]
      have "\<forall>y \<in> set saved. apart nxt (hull head x) y" using h(4) Cons.prems(3,5) ap(1) by blast
      moreover have "0 < pos nxt (blk_start (hull head x))" using h(3) px Cons.prems(7) by simp
      ultimately show ?thesis using Cons.IH[OF _ h(1) Cons.prems(3) ap(3) _ run] Cons.prems(1) h(2) live by auto
    next
      case True
      have run: "sack_merge nxt bs head (saved @ [x]) = (head', saved')"
        using Cons.prems(6) live touch_iff[OF Cons.prems(2) x] True by (auto simp: stale_def split: if_splits)
      have "sorted_wrt (apart nxt) ((saved @ [x]) @ filter (\<lambda>x. \<not> stale nxt x) bs)" using Cons.prems(4) live by simp
      from Cons.IH[OF _ Cons.prems(2) _ this _ run Cons.prems(7)] Cons.prems(1,3,5) x True live show ?thesis by auto
    qed
  qed
qed

lemma sack_merge_length: "sack_merge nxt bs head saved = (head', saved') \<Longrightarrow> length saved' \<le> length saved + length bs"
  by (induction bs arbitrary: head saved) (fastforce split: if_splits)+

definition live :: "u32 \<Rightarrow> sackblk list \<Rightarrow> sackblk list" where
  "live nxt bs = filter (\<lambda>x. \<not> stale nxt x) bs"

lemma sack_merge_live:
  "sack_merge nxt bs head saved = (head', saved') \<Longrightarrow> length saved' \<le> length saved + length (filter (\<lambda>x. \<not> stale nxt x) bs)"
proof (induction bs arbitrary: head saved)
  case (Cons x bs)
  let ?f = "length (filter (\<lambda>x. \<not> stale nxt x) bs)"
  show ?case
  proof (cases "stale nxt x")
    case True
    then have "sack_merge nxt bs head saved = (head', saved')" using Cons.prems by (simp add: stale_def)
    from Cons.IH[OF this] True show ?thesis by simp
  next
    case False
    then have "(\<exists>h. sack_merge nxt bs h saved = (head', saved')) \<or> sack_merge nxt bs head (saved @ [x]) = (head', saved')"
      using Cons.prems by (auto simp: stale_def split: if_splits)
    then have "length saved' \<le> length saved + ?f \<or> length saved' \<le> length (saved @ [x]) + ?f" using Cons.IH by blast
    with False show ?thesis by auto
  qed
qed simp

lemma take_poke: "take (length xs) (poke 0 xs arr) = xs"
  by (simp add: poke_def)

lemma tcp_update_sack_list_bounds:
  assumes "length arr = MAX_SACK_BLKS" "num \<le> MAX_SACK_BLKS"
  shows "\<exists>arr' num'. tcp_update_sack_list nxt arr num s e = Inr (arr', num') \<and> length arr' = MAX_SACK_BLKS \<and> num' \<le> MAX_SACK_BLKS"
proof -
  obtain head saved where m: "sack_merge nxt (take num arr) \<lparr>blk_start = s, blk_end = e\<rparr> [] = (head, saved)" by fastforce
  from sack_merge_length[OF m] assms have "length saved \<le> MAX_SACK_BLKS" by simp
  with assms show ?thesis by (auto simp: tcp_update_sack_list_def m Let_def MAX_SACK_BLKS_def)
qed

lemma tcp_update_sack_list_spec:
  assumes arr: "length arr = MAX_SACK_BLKS" "num \<le> MAX_SACK_BLKS"
    and old: "\<forall>x \<in> set (live nxt (take num arr)). bok nxt x" "sorted_wrt (apart nxt) (live nxt (take num arr))"
    and new: "bok nxt \<lparr>blk_start = s, blk_end = e\<rparr>" "s \<noteq> nxt"
    and run: "tcp_update_sack_list nxt arr num s e = Inr (arr', num')"
  shows "0 < num' \<and> sorted_wrt (apart nxt) (take num' arr') \<and> (\<forall>x \<in> set (take num' arr'). bok nxt x) \<and> rset nxt s e \<subseteq> bset nxt (hd arr') \<and>
    \<Union> (bset nxt ` set (take num' arr')) \<subseteq> rset nxt s e \<union> \<Union> (bset nxt ` set (live nxt (take num arr))) \<and>
    (length (live nxt (take num arr)) < MAX_SACK_BLKS \<longrightarrow>
      rset nxt s e \<union> \<Union> (bset nxt ` set (live nxt (take num arr))) \<subseteq> \<Union> (bset nxt ` set (take num' arr')))"
proof -
  obtain head saved where m: "sack_merge nxt (take num arr) \<lparr>blk_start = s, blk_end = e\<rparr> [] = (head, saved)" by fastforce
  have "pos nxt s \<noteq> 0" using new(2) pos_eq_iff[of nxt s nxt] by simp
  with sack_merge_spec[OF _ new(1) _ _ _ m] old have sp: "bok nxt head" "\<forall>x \<in> set saved. bok nxt x" "sorted_wrt (apart nxt) (head # saved)"
    "rset nxt s e \<subseteq> bset nxt head" "0 < pos nxt (blk_start head)"
    "bset nxt head \<union> \<Union> (bset nxt ` set saved) = rset nxt s e \<union> \<Union> (bset nxt ` set (live nxt (take num arr)))"
    by (auto simp: live_def bset_def)
  have top: "SEQ_GT (blk_start head) nxt" using sp(5) SEQ_pos(3)[of nxt "blk_start head" nxt] bok_near[OF sp(1)] by simp
  define kept where "kept = (if MAX_SACK_BLKS \<le> length saved then butlast saved else saved)"
  have l: "length saved \<le> MAX_SACK_BLKS" using sack_merge_length[OF m] arr by simp
  then have k: "length (head # kept) \<le> MAX_SACK_BLKS" by (auto simp: kept_def MAX_SACK_BLKS_def)
  have r: "arr' = poke 0 (head # kept) arr" "num' = length (head # kept)"
    using run top l k arr by (auto simp: tcp_update_sack_list_def m Let_def kept_def split: if_splits)
  have t: "take num' arr' = head # kept" unfolding r by (rule take_poke)
  have h: "hd arr' = head" unfolding r by (simp add: poke_def)
  have sub: "set kept \<subseteq> set saved" by (auto simp: kept_def dest: in_set_butlastD)
  have "sorted_wrt (apart nxt) (butlast saved)"
    using sp(3) by (cases saved rule: rev_cases) (simp_all add: sorted_wrt_append)
  then have so: "sorted_wrt (apart nxt) (head # kept)" using sp(3) sub by (auto simp: kept_def)
  have eq: "length (live nxt (take num arr)) < MAX_SACK_BLKS \<longrightarrow> kept = saved"
    using sack_merge_live[OF m] by (auto simp: kept_def live_def)
  show ?thesis unfolding t h
  proof (intro conjI impI)
    show "\<Union> (bset nxt ` set (head # kept)) \<subseteq> rset nxt s e \<union> \<Union> (bset nxt ` set (live nxt (take num arr)))"
      using sp(6) sub by (auto simp: set_eq_iff subset_iff)
    show "rset nxt s e \<union> \<Union> (bset nxt ` set (live nxt (take num arr))) \<subseteq> \<Union> (bset nxt ` set (head # kept))"
      if "length (live nxt (take num arr)) < MAX_SACK_BLKS" using eq that sp(6) by auto
  qed (use so sp sub r(2) in auto)
qed

subsection \<open>Sorting the blocks\<close>

lemma sort_inner_spec:
  assumes "sort_inner x ys = (z, zs)" "\<forall>y \<in> set (x # ys). near b (blk_end y)"
  shows "mset (z # zs) = mset (x # ys) \<and> (\<forall>y \<in> set zs. pos b (blk_end z) \<le> pos b (blk_end y))"
  using assms
proof (induction ys arbitrary: x z zs)
  case (Cons y ys)
  define c where "c = (if SEQ_GT (blk_end x) (blk_end y) then y else x)"
  define d where "d = (if SEQ_GT (blk_end x) (blk_end y) then x else y)"
  have cd: "pos b (blk_end c) \<le> pos b (blk_end d)" "mset [c, d] = mset [x, y]"
    using SEQ_pos(3)[of b "blk_end x" "blk_end y"] Cons.prems(2) by (auto simp: c_def d_def)
  obtain w ws where r: "sort_inner c ys = (w, ws)" by fastforce
  with Cons.prems(1) have z: "z = w" "zs = d # ws" by (auto simp: c_def d_def split: if_splits)
  have i: "mset (w # ws) = mset (c # ys)" "\<forall>y \<in> set ws. pos b (blk_end w) \<le> pos b (blk_end y)"
    using Cons.IH[OF r] Cons.prems(2) by (auto simp: c_def)
  have "c \<in># mset (w # ws)" unfolding i(1) by simp
  then have "pos b (blk_end w) \<le> pos b (blk_end c)" using i(2) by auto
  then show ?case using i cd z by (auto simp: add_mset_commute)
qed simp

lemma sort_blocks_spec:
  assumes "\<forall>y \<in> set xs. near b (blk_end y)"
  shows "mset (sort_blocks xs) = mset xs \<and> sorted_wrt (\<lambda>x y. pos b (blk_end x) \<le> pos b (blk_end y)) (sort_blocks xs)"
  using assms
proof (induction xs rule: sort_blocks.induct)
  case (2 x xs)
  obtain z zs where r: "sort_inner x xs = (z, zs)" by fastforce
  from sort_inner_spec[OF r "2.prems"] have s: "mset (z # zs) = mset (x # xs)" "\<forall>y \<in> set zs. pos b (blk_end z) \<le> pos b (blk_end y)" by auto
  have "set (z # zs) = set (x # xs)" using s(1) by (rule mset_eq_setD)
  then have "set zs \<subseteq> set (x # xs)" by auto
  with "2.prems" have "\<forall>y \<in> set zs. near b (blk_end y)" by blast
  with "2.IH" r have i: "mset (sort_blocks zs) = mset zs" "sorted_wrt (\<lambda>x y. pos b (blk_end x) \<le> pos b (blk_end y)) (sort_blocks zs)"
    by simp_all
  have "set (sort_blocks zs) = set zs" using i(1) by (rule mset_eq_setD)
  with s i r show ?case by simp
qed simp

subsection \<open>The scoreboard\<close>

definition hset :: "u32 \<Rightarrow> sackhole \<Rightarrow> nat set" where
  "hset b h = rset b (hole_start h) (hole_end h)"

definition hok :: "u32 \<Rightarrow> sackhole \<Rightarrow> bool" where
  "hok b h \<longleftrightarrow> pos b (hole_start h) < pos b (hole_end h) \<and> near b (hole_end h) \<and>
     pos b (hole_start h) \<le> pos b (rxmit h) \<and> pos b (rxmit h) \<le> pos b (hole_end h)"

definition hbefore :: "u32 \<Rightarrow> sackhole \<Rightarrow> sackhole \<Rightarrow> bool" where
  "hbefore b x y \<longleftrightarrow> pos b (hole_end x) \<le> pos b (hole_start y)"

definition holes_ok :: "u32 \<Rightarrow> sackhole list \<Rightarrow> bool" where
  "holes_ok b H \<longleftrightarrow> (\<forall>h \<in> set H. hok b h) \<and> sorted_wrt (hbefore b) H"

definition holes :: "u32 \<Rightarrow> sackhole list \<Rightarrow> nat set" where
  "holes b H = \<Union> (hset b ` set H)"

definition blocks :: "u32 \<Rightarrow> sackblk list \<Rightarrow> nat set" where
  "blocks b bs = \<Union> (bset b ` set bs)"

definition rexmit_sum :: "sackhole list \<Rightarrow> u32" where
  "rexmit_sum H = sum_list (map (\<lambda>h. rxmit h - hole_start h) H)"

text \<open>The counters and the hint agree with the list of holes.\<close>

definition acct :: "sack_tp \<Rightarrow> sackhole list \<Rightarrow> bool" where
  "acct tp H \<longleftrightarrow> snd_numholes tp = int (length H) \<and> sack_bytes_rexmit (sack_hint tp) = rexmit_sum H \<and>
     (case nexthole (sack_hint tp) of None \<Rightarrow> True | Some a \<Rightarrow> a \<in> hole_addr ` set H)"

text \<open>The hint skips nothing: the holes have different addresses, those before the hint are retransmitted to their end (all of them when
  there is no hint), and behind a hole that is not, nothing is retransmitted.\<close>

definition before :: "nat option \<Rightarrow> sackhole list \<Rightarrow> sackhole list" where
  "before n H = takeWhile (\<lambda>h. Some (hole_addr h) \<noteq> n) H"

definition rx_order :: "sackhole \<Rightarrow> sackhole \<Rightarrow> bool" where
  "rx_order x y \<longleftrightarrow> rxmit x = hole_end x \<or> rxmit y = hole_start y"

definition hinted :: "sack_tp \<Rightarrow> sackhole list \<Rightarrow> bool" where
  "hinted tp H \<longleftrightarrow> distinct (map hole_addr H) \<and> sorted_wrt rx_order H \<and>
     (\<forall>h \<in> set (before (nexthole (sack_hint tp)) H). rxmit h = hole_end h)"

text \<open>The allocator hands out each address once, and none that is in use.\<close>

definition new_addrs :: "nat option list \<Rightarrow> sackhole list \<Rightarrow> bool" where
  "new_addrs as H \<longleftrightarrow> distinct (filter (\<lambda>a. a \<noteq> None) as) \<and> (\<forall>h \<in> set H. Some (hole_addr h) \<notin> set as)"

text \<open>The next \<open>n\<close> allocations succeed.\<close>

definition room :: "int \<times> int \<Rightarrow> nat option list \<Rightarrow> sack_tp \<Rightarrow> nat \<Rightarrow> bool" where
  "room lim as tp n \<longleftrightarrow> n \<le> length as \<and> None \<notin> set (take n as) \<and> snd_numholes tp + int n \<le> fst lim \<and>
     sack_globalholes tp + int n \<le> Product_Type.snd lim"

lemma holes_simps [simp]: "holes b [] = {}" "holes b (h # H) = hset b h \<union> holes b H" "holes b (H @ K) = holes b H \<union> holes b K" "holes b (rev H) = holes b H"
  by (auto simp: holes_def)

lemma blocks_simps [simp]: "blocks b [] = {}" "blocks b (x # bs) = bset b x \<union> blocks b bs" "blocks b (rev bs) = blocks b bs"
  by (auto simp: blocks_def)

lemma rexmit_sum_simps [simp]: "rexmit_sum [] = 0" "rexmit_sum (h # H) = (rxmit h - hole_start h) + rexmit_sum H"
  "rexmit_sum (H @ K) = rexmit_sum H + rexmit_sum K" "rexmit_sum (rev H) = rexmit_sum H"
  by (simp_all add: rexmit_sum_def sum_list_rev flip: rev_map)

lemma hok_near: "hok b h \<Longrightarrow> near b (hole_start h) \<and> near b (hole_end h) \<and> near b (rxmit h)"
  by (auto simp: hok_def)

lemma tp_fields [simp]:
  "snd_numholes (add_rexmit n tp) = snd_numholes tp" "sack_globalholes (add_rexmit n tp) = sack_globalholes tp"
  "nexthole (sack_hint (add_rexmit n tp)) = nexthole (sack_hint tp)" "snd_fack (add_rexmit n tp) = snd_fack tp" "snd_una (add_rexmit n tp) = snd_una tp"
  "sack_bytes_rexmit (sack_hint (add_rexmit n tp)) = sack_bytes_rexmit (sack_hint tp) + n"
  "snd_numholes (set_nexthole a tp) = snd_numholes tp" "sack_globalholes (set_nexthole a tp) = sack_globalholes tp"
  "nexthole (sack_hint (set_nexthole a tp)) = a" "snd_fack (set_nexthole a tp) = snd_fack tp" "snd_una (set_nexthole a tp) = snd_una tp"
  "sack_bytes_rexmit (sack_hint (set_nexthole a tp)) = sack_bytes_rexmit (sack_hint tp)"
  by (simp_all add: add_rexmit_def set_nexthole_def)

lemma hinted_hint: "nexthole (sack_hint tp) = nexthole (sack_hint tp') \<Longrightarrow> hinted tp H = hinted tp' H"
  by (simp add: hinted_def)

lemma hinted_upd [simp]: "hinted (tp\<lparr>snd_holes := x\<rparr>) H = hinted tp H" "hinted (tp\<lparr>snd_fack := y\<rparr>) H = hinted tp H"
  "hinted (add_rexmit n tp) H = hinted tp H"
  by (simp_all add: hinted_def)

lemma sackhole_insert_cases:
  obtains (fail) tp' as' where "tcp_sackhole_insert lim as tp s e = (None, tp', as')" "tp' = tp" "\<not> room lim as tp (Suc n)"
  | (new) a as' tp' where "tcp_sackhole_insert lim as tp s e = (Some \<lparr>hole_addr = a, hole_start = s, hole_end = e, rxmit = s\<rparr>, tp', as')"
      "snd_numholes tp' = snd_numholes tp + 1" "sack_globalholes tp' = sack_globalholes tp + 1" "snd_fack tp' = snd_fack tp" "snd_una tp' = snd_una tp"
      "snd_holes tp' = snd_holes tp"
      "sack_bytes_rexmit (sack_hint tp') = sack_bytes_rexmit (sack_hint tp)"
      "nexthole (sack_hint tp') = (if nexthole (sack_hint tp) = None then Some a else nexthole (sack_hint tp))"
      "room lim as tp (Suc n) \<Longrightarrow> room lim as' tp' n"
proof (cases "snd_numholes tp \<ge> fst lim \<or> sack_globalholes tp \<ge> Product_Type.snd lim")
  case True
  then show ?thesis by (intro fail) (auto simp: tcp_sackhole_insert_def tcp_sackhole_alloc_def room_def)
next
  case False
  show ?thesis
  proof (cases as)
    case Nil
    with False show ?thesis by (intro fail) (auto simp: tcp_sackhole_insert_def tcp_sackhole_alloc_def room_def)
  next
    case (Cons x as')
    show ?thesis
    proof (cases x)
      case None
      with False Cons show ?thesis
        by (intro fail[of tp as']) (auto simp: tcp_sackhole_insert_def tcp_sackhole_alloc_def room_def take_Cons' split: if_splits)
    next
      case (Some a)
      define tp1 where "tp1 = tp\<lparr>snd_numholes := snd_numholes tp + 1, sack_globalholes := sack_globalholes tp + 1\<rparr>"
      have "tcp_sackhole_insert lim as tp s e = (Some \<lparr>hole_addr = a, hole_start = s, hole_end = e, rxmit = s\<rparr>,
          if nexthole (sack_hint tp1) = None then set_nexthole (Some a) tp1 else tp1, as')"
        using False Cons Some by (simp add: tcp_sackhole_insert_def tcp_sackhole_alloc_def tp1_def)
      then show ?thesis by (rule new) (auto simp: tp1_def room_def Cons set_nexthole_def)
    qed
  qed
qed

lemma pos_SEQ_MAX: "near b x \<Longrightarrow> near b y \<Longrightarrow> pos b (SEQ_MAX x y) = max (pos b x) (pos b y)"
  using SEQ_pos(3)[of b x y] by (auto simp: SEQ_MAX_def)

lemma pos_SEQ_MIN: "near b x \<Longrightarrow> near b y \<Longrightarrow> pos b (SEQ_MIN x y) = min (pos b x) (pos b y)"
  using SEQ_pos(1)[of b x y] by (auto simp: SEQ_MIN_def)

lemma room_mono: "room lim as tp n \<Longrightarrow> k \<le> n \<Longrightarrow> room lim as tp k"
  using set_take_subset_set_take[of k n as] by (auto simp: room_def)

definition olist :: "'a option \<Rightarrow> 'a list" where
  "olist x = (case x of None \<Rightarrow> [] | Some y \<Rightarrow> [y])"

lemma olist_simps [simp]: "olist None = []" "olist (Some y) = [y]"
  by (simp_all add: olist_def)

text \<open>The pieces \<open>N\<close> that are left of a hole after a block.\<close>

definition pieces :: "u32 \<Rightarrow> sackblk \<Rightarrow> sackhole \<Rightarrow> sackhole list \<Rightarrow> bool" where
  "pieces b blk cur N \<longleftrightarrow> holes_ok b N \<and> (\<forall>h \<in> set N. pos b (hole_start cur) \<le> pos b (hole_start h) \<and> pos b (hole_end h) \<le> pos b (hole_end cur)) \<and>
     holes b N \<subseteq> hset b cur \<and> hset b cur - bset b blk \<subseteq> holes b N"

definition cut_next :: "u32 \<Rightarrow> sackblk \<Rightarrow> sackhole option \<Rightarrow> sackhole list \<Rightarrow> bool" where
  "cut_next b blk mc ts \<longleftrightarrow> (\<forall>h \<in> set ts. pos b (blk_end blk) \<le> pos b (hole_start h)) \<and>
     (case mc of None \<Rightarrow> ts = [] | Some c \<Rightarrow> (SEQ_LEQ (blk_start blk) (hole_start c) \<longleftrightarrow> pos b (blk_end blk) \<le> pos b (hole_start c)))"

lemma acct_remove:
  assumes "acct tp (L @ cur # right)"
  shows "acct (tcp_sackhole_remove (add_rexmit (- (rxmit cur - hole_start cur)) tp) cur right) (L @ right)"
  using assms by (auto simp: acct_def tcp_sackhole_remove_def tcp_sackhole_free_def split: option.splits list.splits)

lemma acct_change:
  assumes "acct tp (L @ cur # right)" "hole_addr cur' = hole_addr cur"
  shows "acct (add_rexmit (rxmit cur' - hole_start cur') (add_rexmit (- (rxmit cur - hole_start cur)) tp)) (L @ cur' # right)"
  using assms by (auto simp: acct_def split: option.splits)

lemma sack_cut_front:
  assumes h: "hok b cur" and k: "bok b blk" and lt: "pos b (hole_start cur) < pos b (blk_end blk)" "pos b (blk_end blk) < pos b (hole_end cur)"
    and cur': "cur' = cur\<lparr>hole_start := blk_end blk, rxmit := SEQ_MAX (rxmit cur) (blk_end blk)\<rparr>"
    and st: "pos b (blk_start blk) \<le> pos b (hole_start cur)"
  shows "pieces b blk cur [cur']" "cut_next b blk (Some cur') []" "holes b [cur'] \<inter> bset b blk = {}"
proof -
  note n = hok_near[OF h] bok_near[OF k]
  have r: "pos b (rxmit cur') = max (pos b (rxmit cur)) (pos b (blk_end blk))" using n by (simp add: cur' pos_SEQ_MAX)
  show "pieces b blk cur [cur']" using h k lt r st
    by (auto simp: pieces_def holes_ok_def hok_def cur' hset_def bset_def rset_def)
  have "SEQ_LEQ (blk_start blk) (blk_end blk)" using SEQ_pos(2)[of b "blk_start blk" "blk_end blk"] n k by (simp add: bok_def)
  then show "cut_next b blk (Some cur') []" by (simp add: cut_next_def cur')
  show "holes b [cur'] \<inter> bset b blk = {}" by (auto simp: cur' hset_def bset_def rset_def)
qed

lemma sack_cut_back:
  assumes h: "hok b cur" and k: "bok b blk" and lt: "pos b (hole_start cur) < pos b (blk_start blk)" "pos b (blk_start blk) < pos b (hole_end cur)"
    and cur': "cur' = cur\<lparr>hole_end := blk_start blk, rxmit := SEQ_MIN (rxmit cur) (blk_start blk)\<rparr>"
    and temp: "ts = [] \<and> pos b (hole_end cur) \<le> pos b (blk_end blk) \<or> ts = [t] \<and> pos b (blk_end blk) < pos b (hole_end cur) \<and>
       hole_start t = blk_end blk \<and> hole_end t = hole_end cur \<and> rxmit t = (if SEQ_GT (rxmit cur) (blk_end blk) then rxmit cur else blk_end blk)"
  shows "pieces b blk cur (cur' # ts)" "cut_next b blk (Some cur') ts" "holes b (cur' # ts) \<inter> bset b blk = {}"
proof -
  note n = hok_near[OF h] bok_near[OF k]
  have r: "pos b (rxmit cur') = min (pos b (rxmit cur)) (pos b (blk_start blk))" using n by (simp add: cur' pos_SEQ_MIN)
  have rt: "pos b (if SEQ_GT (rxmit cur) (blk_end blk) then rxmit cur else blk_end blk) = max (pos b (rxmit cur)) (pos b (blk_end blk))"
    using SEQ_pos(3)[of b "rxmit cur" "blk_end blk"] n by auto
  have c: "hok b cur'" using h lt r by (auto simp: hok_def cur')
  show "pieces b blk cur (cur' # ts)"
    using temp
  proof
    assume "ts = [] \<and> pos b (hole_end cur) \<le> pos b (blk_end blk)"
    with c lt show ?thesis by (auto simp: pieces_def holes_ok_def cur' hset_def bset_def rset_def)
  next
    assume t: "ts = [t] \<and> pos b (blk_end blk) < pos b (hole_end cur) \<and> hole_start t = blk_end blk \<and> hole_end t = hole_end cur \<and>
      rxmit t = (if SEQ_GT (rxmit cur) (blk_end blk) then rxmit cur else blk_end blk)"
    then have "hok b t" using rt h n by (simp add: hok_def)
    with t c lt k show ?thesis by (auto simp: pieces_def holes_ok_def hbefore_def cur' hset_def bset_def rset_def bok_def)
  qed
  have "\<not> SEQ_LEQ (blk_start blk) (hole_start cur)" using SEQ_pos(2)[of b "blk_start blk" "hole_start cur"] n lt by simp
  then show "cut_next b blk (Some cur') ts" using temp lt k by (auto simp: cut_next_def cur' bok_def)
  show "holes b (cur' # ts) \<inter> bset b blk = {}" using temp by (auto simp: cur' hset_def bset_def rset_def)
qed

lemma sack_cut_spec:
  assumes h: "hok b cur" and k: "bok b blk" and ov: "pos b (blk_start blk) < pos b (hole_end cur)" "pos b (hole_start cur) < pos b (blk_end blk)"
    and run: "sack_cut lim as tp blk cur right = (as', tp', mc, ts)"
  shows "pieces b blk cur (olist mc @ ts) \<and> cut_next b blk mc ts \<and>
    (room lim as tp (Suc n) \<longrightarrow> holes b (olist mc @ ts) \<inter> bset b blk = {} \<and> room lim as' tp' n) \<and>
    ((case mc of None \<Rightarrow> True | Some c \<Rightarrow> SEQ_LEQ (blk_start blk) (hole_start c)) \<and> room lim as tp n \<longrightarrow> room lim as' tp' n) \<and>
    (acct tp (L @ cur # right) \<longrightarrow> acct tp' (L @ olist mc @ ts @ right)) \<and> snd_fack tp' = snd_fack tp \<and> snd_una tp' = snd_una tp"
proof -
  note n = hok_near[OF h] bok_near[OF k]
  note S = SEQ_pos(2)[of b "blk_start blk" "hole_start cur"] SEQ_pos(4)[of b "blk_end blk" "hole_end cur"]
  let ?tp1 = "add_rexmit (- (rxmit cur - hole_start cur)) tp"
  have room1: "room lim as tp k \<Longrightarrow> room lim as (add_rexmit x (add_rexmit y tp)) k" for k x y by (simp add: room_def)
  consider (all) "pos b (blk_start blk) \<le> pos b (hole_start cur)" "pos b (hole_end cur) \<le> pos b (blk_end blk)"
    | (front) "pos b (blk_start blk) \<le> pos b (hole_start cur)" "pos b (blk_end blk) < pos b (hole_end cur)"
    | (rear) "pos b (hole_start cur) < pos b (blk_start blk)" "pos b (hole_end cur) \<le> pos b (blk_end blk)"
    | (mid) "pos b (hole_start cur) < pos b (blk_start blk)" "pos b (blk_end blk) < pos b (hole_end cur)" by linarith
  then show ?thesis
  proof cases
    case all
    then have r: "as' = as" "tp' = tcp_sackhole_remove ?tp1 cur right" "mc = None" "ts = []"
      using run S n by (simp_all add: sack_cut_def Let_def)
    have "room lim as tp k \<Longrightarrow> room lim as tp' k" for k by (simp add: r(2) room_def tcp_sackhole_remove_def tcp_sackhole_free_def)
    with all r acct_remove[of tp L cur right] room_mono[of lim as tp "Suc n" n] show ?thesis
      by (auto simp: pieces_def cut_next_def holes_ok_def hset_def bset_def rset_def tcp_sackhole_remove_def tcp_sackhole_free_def)
  next
    case front
    define cur' where "cur' = cur\<lparr>hole_start := blk_end blk, rxmit := SEQ_MAX (rxmit cur) (blk_end blk)\<rparr>"
    have r: "as' = as" "tp' = add_rexmit (rxmit cur' - hole_start cur') ?tp1" "mc = Some cur'" "ts = []"
      using run S n front by (simp_all add: sack_cut_def Let_def cur'_def)
    from sack_cut_front[OF h k ov(2) front(2) cur'_def front(1)] acct_change[of tp L cur right cur'] room1 room_mono[of lim as tp "Suc n" n]
    show ?thesis unfolding r by (simp add: cur'_def)
  next
    case rear
    define cur' where "cur' = cur\<lparr>hole_end := blk_start blk, rxmit := SEQ_MIN (rxmit cur) (blk_start blk)\<rparr>"
    have r: "as' = as" "tp' = add_rexmit (rxmit cur' - hole_start cur') ?tp1" "mc = Some cur'" "ts = []"
      using run S n rear by (simp_all add: sack_cut_def Let_def cur'_def)
    from sack_cut_back[OF h k rear(1) ov(1) cur'_def, of "[]"] rear acct_change[of tp L cur right cur'] room1 room_mono[of lim as tp "Suc n" n]
    show ?thesis unfolding r by (simp add: cur'_def)
  next
    case mid
    have ns: "\<not> SEQ_LEQ (blk_start blk) (hole_start cur)" "\<not> SEQ_GEQ (blk_end blk) (hole_end cur)" using S n mid by simp_all
    note run = run[unfolded sack_cut_def Let_def if_not_P[OF ns(1)] if_not_P[OF ns(2)]]
    show ?thesis
    proof (cases rule: sackhole_insert_cases[of lim as ?tp1 "blk_end blk" "hole_end cur" n])
      case (fail tpf asf)
      have "\<not> room lim as tp (Suc n)" using fail(3) by (simp add: room_def)
      moreover have r: "mc = Some cur" "ts = []" "tp' = add_rexmit (rxmit cur - hole_start cur) ?tp1"
        using run fail by simp_all
      moreover have "holes_ok b [cur]" using h by (simp add: holes_ok_def)
      moreover have "\<not> pos b (blk_end blk) \<le> pos b (hole_start cur)" using ov by simp
      ultimately show ?thesis using ns(1) acct_change[of tp L cur right cur] by (auto simp: pieces_def cut_next_def)
    next
      case (new a asn tpn)
      define t where "t = \<lparr>hole_addr = a, hole_start = blk_end blk, hole_end = hole_end cur,
        rxmit = (if SEQ_GT (rxmit cur) (blk_end blk) then rxmit cur else blk_end blk)\<rparr>"
      define cur' where "cur' = cur\<lparr>hole_end := blk_start blk, rxmit := SEQ_MIN (rxmit cur) (blk_start blk)\<rparr>"
      have r: "as' = asn" "mc = Some cur'" "ts = [t]"
        "tp' = add_rexmit (rxmit cur' - hole_start cur') (if SEQ_GT (rxmit cur) (blk_end blk) then add_rexmit (rxmit t - hole_start t) tpn else tpn)"
        using run unfolding new(1) by (auto simp: t_def cur'_def)
      have "\<not> SEQ_LEQ (blk_start blk) (hole_start cur')" using ns by (simp add: cur'_def)
      moreover have "room lim as tp (Suc n) \<longrightarrow> room lim asn tp' n" using new(9) by (simp add: r room_def)
      moreover have "acct tp (L @ cur # right) \<longrightarrow> acct tp' (L @ cur' # t # right)"
        using new unfolding r by (auto simp: acct_def cur'_def t_def split: option.splits if_splits)
      moreover have "snd_fack tp' = snd_fack tp" "snd_una tp' = snd_una tp" using new r by auto
      moreover note sack_cut_back[OF h k mid(1) ov(1) cur'_def, of "[t]" t]
      ultimately show ?thesis using mid unfolding r by (simp add: t_def)
    qed
  qed
qed

lemma holes_ok_append: "holes_ok b (H @ K) \<longleftrightarrow> holes_ok b H \<and> holes_ok b K \<and> (\<forall>x \<in> set H. \<forall>y \<in> set K. hbefore b x y)"
  by (auto simp: holes_ok_def sorted_wrt_append)

lemma holes_ok_Cons: "holes_ok b (h # K) \<longleftrightarrow> hok b h \<and> holes_ok b K \<and> (\<forall>y \<in> set K. hbefore b h y)"
  by (auto simp: holes_ok_def)

lemma holes_ok_replace:
  assumes "holes_ok b (L @ cur # R)" "pieces b blk cur N"
  shows "holes_ok b (L @ N @ R)"
proof -
  have "hbefore b x y" if "x \<in> set L" "y \<in> set N" for x y
    using assms that by (fastforce simp: holes_ok_append holes_ok_Cons pieces_def hbefore_def)
  moreover have "hbefore b x y" if "x \<in> set N" "y \<in> set R" for x y
    using assms that by (fastforce simp: holes_ok_append holes_ok_Cons pieces_def hbefore_def)
  ultimately show ?thesis using assms by (auto simp: holes_ok_append holes_ok_Cons pieces_def)
qed

definition swept :: "u32 \<Rightarrow> sackblk list \<Rightarrow> sackhole list \<Rightarrow> sackhole list \<Rightarrow> bool" where
  "swept b bs H H' \<longleftrightarrow> holes_ok b H' \<and> holes b H' \<subseteq> holes b H \<and> holes b H - blocks b bs \<subseteq> holes b H'"

definition sweep_ok :: "u32 \<Rightarrow> int \<times> int \<Rightarrow> nat option list \<Rightarrow> sack_tp \<Rightarrow> sackblk list \<Rightarrow> sackhole list \<Rightarrow> sack_tp \<Rightarrow> bool" where
  "sweep_ok b lim as tp bs H tp' \<longleftrightarrow> swept b bs H (snd_holes tp') \<and>
     (room lim as tp (length bs) \<longrightarrow> holes b (snd_holes tp') \<inter> blocks b bs = {}) \<and>
     (acct tp H \<longrightarrow> acct tp' (snd_holes tp')) \<and> snd_fack tp' = snd_fack tp \<and> snd_una tp' = snd_una tp"

definition sweep_pre :: "u32 \<Rightarrow> sackblk list \<Rightarrow> sackhole list \<Rightarrow> sackhole list \<Rightarrow> bool" where
  "sweep_pre b bs left right \<longleftrightarrow> holes_ok b (rev left @ right) \<and> (\<forall>x \<in> set bs. bok b x) \<and>
     sorted_wrt (\<lambda>x y. pos b (blk_end y) \<le> pos b (blk_end x)) bs \<and>
     (\<forall>h \<in> set right. \<forall>x \<in> set bs. pos b (blk_end x) \<le> pos b (hole_start h))"

lemma right_disjoint:
  assumes "\<forall>h \<in> set R. pos b (blk_end x) \<le> pos b (hole_start h)"
  shows "holes b R \<inter> bset b x = {}"
  using assms by (fastforce simp: holes_def hset_def bset_def rset_def)

lemma left_disjoint:
  assumes "\<forall>h \<in> set L. pos b (hole_end h) \<le> pos b (blk_start x)"
  shows "holes b L \<inter> bset b x = {}"
  using assms by (fastforce simp: holes_def hset_def bset_def rset_def)

lemma sweep_skip_block:
  assumes pre: "sweep_pre b (x # bs) (cur # left) right" and ge: "pos b (hole_end cur) \<le> pos b (blk_start x)"
    and ih: "sweep_ok b lim as tp bs (rev (cur # left) @ right) tp'"
  shows "sweep_ok b lim as tp (x # bs) (rev (cur # left) @ right) tp'"
proof -
  have "pos b (hole_end h) \<le> pos b (blk_start x)" if "h \<in> set (cur # left)" for h
  proof (cases "h = cur")
    case False
    with that pre have "hok b cur" "hbefore b h cur" by (auto simp: sweep_pre_def holes_ok_append holes_ok_Cons)
    with ge show ?thesis by (auto simp: hbefore_def hok_def)
  qed (use ge in simp)
  then have d: "holes b (cur # left) \<inter> bset b x = {}" by (intro left_disjoint) blast
  have "holes b right \<inter> bset b x = {}" by (rule right_disjoint) (use pre in \<open>simp add: sweep_pre_def\<close>)
  with d have "holes b (rev (cur # left) @ right) \<inter> bset b x = {}" by auto
  with ih room_mono[of lim as tp "Suc (length bs)" "length bs"] show ?thesis unfolding sweep_ok_def swept_def blocks_simps by auto
qed

lemma sack_sweep_spec:
  assumes "sweep_pre b bs left right"
  shows "sweep_ok b lim as tp bs (rev left @ right) (sack_sweep lim as tp bs left right)"
  using assms
proof (induction lim as tp bs left right rule: sack_sweep.induct)
  case (1 lim as tp left right)
  then show ?case by (auto simp: sweep_ok_def swept_def sweep_pre_def acct_def)
next
  case (2 lim as tp x bs right)
  have "holes b right \<inter> bset b y = {}" if "y \<in> set (x # bs)" for y
    by (rule right_disjoint) (use 2 that in \<open>auto simp: sweep_pre_def\<close>)
  then have "holes b right \<inter> blocks b (x # bs) = {}" by (auto simp: blocks_def)
  then show ?case using 2 by (auto simp: sweep_ok_def swept_def sweep_pre_def acct_def simp del: blocks_simps)
next
  case (3 lim as tp x bs cur left right)
  have pre: "hok b cur" "bok b x" "holes_ok b (rev left @ cur # right)" "\<forall>h \<in> set right. \<forall>x \<in> set (x # bs). pos b (blk_end x) \<le> pos b (hole_start h)"
    "\<forall>y \<in> set bs. bok b y \<and> pos b (blk_end y) \<le> pos b (blk_end x)" "sorted_wrt (\<lambda>x y. pos b (blk_end y) \<le> pos b (blk_end x)) bs"
    using "3.prems" by (auto simp: sweep_pre_def holes_ok_append holes_ok_Cons)
  note S = SEQ_pos(4)[of b "blk_start x" "hole_end cur"] SEQ_pos(2)[of b "blk_end x" "hole_start cur"] hok_near[OF pre(1)] bok_near[OF pre(2)]
  show ?case
  proof (cases "SEQ_GEQ (blk_start x) (hole_end cur)")
    case True
    have "sweep_pre b bs (cur # left) right" using pre by (auto simp: sweep_pre_def)
    from sweep_skip_block[OF "3.prems" _ "3.IH"(1)[OF True this]] S True show ?thesis by simp
  next
    case n1: False
    show ?thesis
    proof (cases "SEQ_LEQ (blk_end x) (hole_start cur)")
      case True
      then have "sweep_pre b (x # bs) left (cur # right)" using pre S by (auto simp: sweep_pre_def)
      from "3.IH"(2)[OF n1 True this] n1 True show ?thesis by simp
    next
      case n2: False
      obtain as' tp' mc ts where cut: "sack_cut lim as tp x cur right = (as', tp', mc, ts)" by (metis prod_cases4)
      have ov: "pos b (blk_start x) < pos b (hole_end cur)" "pos b (hole_start cur) < pos b (blk_end x)" using n1 n2 S by auto
      note c = sack_cut_spec[OF pre(1,2) ov cut, of "length bs" "rev left"]
      note c' = sack_cut_spec[OF pre(1,2) ov cut, of "Suc (length bs)" "rev left"]
      have P: "pieces b x cur (olist mc @ ts)" using c by blast
      note ok = holes_ok_replace[OF pre(3) P]
      have sub: "holes b (olist mc @ ts) \<subseteq> hset b cur" "hset b cur - bset b x \<subseteq> holes b (olist mc @ ts)" using P by (auto simp: pieces_def)
      show ?thesis
      proof (cases mc)
        case None
        have ts: "ts = []" using c None by (simp add: cut_next_def)
        have "sweep_pre b (x # bs) left right" using pre ok by (auto simp: sweep_pre_def None ts)
        from "3.IH"(3)[OF n1 n2 cut[symmetric] refl refl None this] show ?thesis
          using n1 n2 cut c' sub unfolding sweep_ok_def swept_def by (auto simp: None ts)
      next
        case (Some cur')
        have T: "\<forall>h \<in> set ts. pos b (blk_end x) \<le> pos b (hole_start h)" using c by (simp add: cut_next_def)
        have nx: "SEQ_LEQ (blk_start x) (hole_start cur') \<longleftrightarrow> pos b (blk_end x) \<le> pos b (hole_start cur')" using c Some by (simp add: cut_next_def)
        have tr: "\<forall>h \<in> set (ts @ right). \<forall>y \<in> set (x # bs). pos b (blk_end y) \<le> pos b (hole_start h)" using T pre(4,5) by fastforce
        show ?thesis
        proof (cases "SEQ_LEQ (blk_start x) (hole_start cur')")
          case True
          have "sweep_pre b (x # bs) left (cur' # ts @ right)" using pre ok tr nx True by (fastforce simp: sweep_pre_def Some)
          from "3.IH"(4)[OF n1 n2 cut[symmetric] refl refl Some True this] show ?thesis
            using n1 n2 cut c' sub True unfolding sweep_ok_def swept_def by (auto simp: Some)
        next
          case False
          have "sweep_pre b bs (cur' # left) (ts @ right)" using pre ok tr by (auto simp: sweep_pre_def Some)
          note ih = "3.IH"(5)[OF n1 n2 cut[symmetric] refl refl Some False this]
          have c1: "hok b cur'" "pos b (hole_start cur) \<le> pos b (hole_start cur')" using P Some by (auto simp: pieces_def holes_ok_Cons)
          have "pos b (hole_start cur') < pos b (blk_start x)"
            using False SEQ_pos(2)[of b "blk_start x" "hole_start cur'"] hok_near[OF c1(1)] S by auto
          with c1(2) pre(3) have "holes b left \<inter> bset b x = {}"
            by (intro left_disjoint) (fastforce simp: holes_ok_append hbefore_def)
          moreover have "holes b right \<inter> bset b x = {}" by (rule right_disjoint) (use pre(4) in auto)
          moreover have "holes b (snd_holes (sack_sweep lim as' tp' bs (cur' # left) (ts @ right))) \<subseteq> holes b left \<union> holes b (olist mc @ ts) \<union> holes b right"
            using ih Some by (auto simp: sweep_ok_def swept_def)
          ultimately have "room lim as tp (Suc (length bs)) \<longrightarrow> holes b (snd_holes (sack_sweep lim as' tp' bs (cur' # left) (ts @ right))) \<inter> bset b x = {}"
            using c by blast
          then show ?thesis using ih n1 n2 cut c sub False unfolding sweep_ok_def swept_def by (auto simp: Some)
        qed
      qed
    qed
  qed
qed

lemma sack_cut_max:
  assumes "sack_cut lim as tp x cur right = (as', tp', mc, ts)"
  shows "snd_max tp' = snd_max tp"
  using assms by (auto simp: sack_cut_def Let_def add_rexmit_def set_nexthole_def tcp_sackhole_remove_def tcp_sackhole_free_def
    tcp_sackhole_insert_def tcp_sackhole_alloc_def split: if_splits option.splits prod.splits)

lemma sack_sweep_max: "snd_max (sack_sweep lim as tp bs left right) = snd_max tp"
  by (induction lim as tp bs left right rule: sack_sweep.induct) (auto dest: sack_cut_max split: option.splits prod.splits)

text \<open>The state of the sender between acknowledgements: holes below \<open>snd_fack\<close>, all within half the
  sequence space after \<open>snd_una\<close>.\<close>

definition score_ok :: "sack_tp \<Rightarrow> bool" where
  "score_ok tp \<longleftrightarrow> holes_ok (snd_una tp) (snd_holes tp) \<and> acct tp (snd_holes tp) \<and> near (snd_una tp) (snd_max tp) \<and>
     (snd_holes tp \<noteq> [] \<longrightarrow> pos (snd_una tp) (snd_fack tp) \<le> pos (snd_una tp) (snd_max tp) \<and>
        (\<forall>h \<in> set (snd_holes tp). pos (snd_una tp) (hole_end h) \<le> pos (snd_una tp) (snd_fack tp)))"

text \<open>What the peer is not known to have: the holes and everything from \<open>fack\<close> on.\<close>

definition unsacked :: "u32 \<Rightarrow> sack_tp \<Rightarrow> u32 \<Rightarrow> nat set" where
  "unsacked b tp fack = holes b (snd_holes tp) \<union> rset b fack (snd_max tp)"

definition first_fack :: "sack_tp \<Rightarrow> u32 \<Rightarrow> u32" where
  "first_fack tp th_ack = (if snd_holes tp = [] then SEQ_MAX (snd_una tp) th_ack else snd_fack tp)"

lemma SEQ_GT_near: "SEQ_GT s b \<Longrightarrow> near b s \<and> 0 < pos b s"
proof -
  assume "SEQ_GT s b"
  then have p: "0 < sint (s - b)" by (simp add: SEQ_GT_def)
  have l: "sint (s - b) < 2147483648" using sint_lt[of "s - b"] by simp
  have "uint (s - b) = take_bit 32 (sint (s - b))" using uint_sint[of "s - b"] by simp
  also have "\<dots> = sint (s - b)" by (rule take_bit_int_eq_self) (use p l in simp_all)
  finally show ?thesis using p l by (simp add: pos_def unat_eq_nat_uint nat_less_iff)
qed

lemma sack_valid_bok:
  assumes "sack_valid tp th_ack x" "near (snd_una tp) (snd_max tp)" "near (snd_una tp) th_ack"
  shows "bok (snd_una tp) x \<and> pos (snd_una tp) (blk_end x) \<le> pos (snd_una tp) (snd_max tp)"
proof -
  let ?b = "snd_una tp"
  have n: "near ?b (blk_start x)" "near ?b (blk_end x)" using assms(1) SEQ_GT_near by (auto simp: sack_valid_def)
  have "pos ?b (blk_start x) < pos ?b (blk_end x)" "pos ?b (blk_end x) \<le> pos ?b (snd_max tp)"
    using assms SEQ_pos(3)[OF n(2,1)] SEQ_pos(2)[OF n(2) assms(2)] by (simp_all add: sack_valid_def)
  with n show ?thesis by (simp add: bok_def)
qed

lemma sack_blocks_bok:
  assumes "near (snd_una tp) (snd_max tp)" "pos (snd_una tp) th_ack \<le> pos (snd_una tp) (snd_max tp)" "x \<in> set (sack_blocks tp sacks th_ack)"
  shows "bok (snd_una tp) x \<and> pos (snd_una tp) (blk_end x) \<le> pos (snd_una tp) (snd_max tp)"
proof (cases "sack_valid tp th_ack x")
  case True
  with sack_valid_bok[OF this assms(1)] assms show ?thesis by simp
next
  case False
  with assms(3) have x: "x = \<lparr>blk_start = snd_una tp, blk_end = th_ack\<rparr>" "SEQ_LT (snd_una tp) th_ack"
    by (auto simp: sack_blocks_def split: if_splits)
  with assms show ?thesis using SEQ_pos(1)[of "snd_una tp" "snd_una tp" th_ack] by (simp add: bok_def)
qed

text \<open>The result of one acknowledgement with the blocks \<open>bs\<close>.\<close>

definition acked :: "u32 \<Rightarrow> nat set \<Rightarrow> sackblk list \<Rightarrow> bool \<Rightarrow> sack_tp \<Rightarrow> bool" where
  "acked b U bs exact tp' \<longleftrightarrow> holes_ok b (snd_holes tp') \<and> acct tp' (snd_holes tp') \<and>
     (\<forall>h \<in> set (snd_holes tp'). pos b (hole_end h) \<le> pos b (snd_fack tp')) \<and> pos b (snd_fack tp') \<le> pos b (snd_max tp') \<and>
     unsacked b tp' (snd_fack tp') \<subseteq> U \<and> U - blocks b bs \<subseteq> unsacked b tp' (snd_fack tp') \<and>
     (exact \<longrightarrow> unsacked b tp' (snd_fack tp') \<inter> blocks b bs = {})"

lemma hole_last:
  assumes "hok b h" "hset b h \<subseteq> {..<n}"
  shows "pos b (hole_end h) \<le> n"
proof -
  have "pos b (hole_end h) - 1 \<in> hset b h" using assms(1) by (auto simp: hok_def hset_def rset_def)
  with assms(2) have "pos b (hole_end h) - 1 < n" by auto
  with assms(1) show ?thesis by (auto simp: hok_def)
qed

lemma holes_below:
  assumes "holes_ok b H" "\<forall>h \<in> set H. pos b (hole_end h) \<le> n"
  shows "holes b H \<subseteq> {..<n}"
  using assms by (fastforce simp: holes_def hset_def rset_def)

text \<open>After the sweep with blocks that end at or below the new \<open>fack\<close>.\<close>

lemma sweep_acked:
  assumes pre: "holes_ok b H" "\<forall>x \<in> set bs. bok b x" "sorted_wrt (\<lambda>x y. pos b (blk_end y) \<le> pos b (blk_end x)) bs" "acct tp H"
    and fk: "holes b H \<subseteq> {..<pos b (snd_fack tp)}" "pos b (snd_fack tp) \<le> pos b (snd_max tp)"
      "\<forall>x \<in> set bs. pos b (blk_end x) \<le> pos b (snd_fack tp)"
    and tp': "tp' = sack_sweep lim as tp bs (rev H) []"
  shows "acked b (holes b H \<union> rset b (snd_fack tp) (snd_max tp)) bs (room lim as tp (length bs)) tp'"
proof -
  have "sweep_pre b bs (rev H) []" using pre by (simp add: sweep_pre_def)
  from sack_sweep_spec[OF this, of lim as tp] have s: "swept b bs H (snd_holes tp')" "room lim as tp (length bs) \<longrightarrow> holes b (snd_holes tp') \<inter> blocks b bs = {}"
    "acct tp' (snd_holes tp')" "snd_fack tp' = snd_fack tp" using pre(4) by (auto simp: sweep_ok_def tp')
  have m: "snd_max tp' = snd_max tp" by (simp add: tp' sack_sweep_max)
  have "rset b (snd_fack tp) (snd_max tp) \<inter> blocks b bs = {}" using fk(3) by (fastforce simp: blocks_def bset_def rset_def)
  moreover have "pos b (hole_end h) \<le> pos b (snd_fack tp)" if "h \<in> set (snd_holes tp')" for h
  proof (rule hole_last)
    show "hok b h" using that s(1) by (simp add: swept_def holes_ok_def)
    have "hset b h \<subseteq> holes b (snd_holes tp')" using that by (auto simp: holes_def)
    also have "\<dots> \<subseteq> {..<pos b (snd_fack tp)}" using s(1) fk(1) unfolding swept_def by blast
    finally show "hset b h \<subseteq> {..<pos b (snd_fack tp)}" .
  qed
  ultimately show ?thesis using s fk(2) m unfolding acked_def unsacked_def swept_def by auto
qed

lemma acked_conv:
  assumes "acked b U2 bs2 e2 tp'" "U2 \<subseteq> U" "U - blocks b bs \<subseteq> U2" "blocks b bs2 \<subseteq> blocks b bs"
    "e \<longrightarrow> e2 \<and> U2 \<inter> blocks b bs \<subseteq> blocks b bs2"
  shows "acked b U bs e tp'"
  using assms unfolding acked_def by blast

text \<open>The blocks in descending order of their ends.\<close>

lemma desc_blocks:
  assumes "\<forall>x \<in> set blks. bok b x" "blks \<noteq> []"
  obtains x xs where "rev (sort_blocks blks) = x # xs" "sorted_wrt (\<lambda>x y. pos b (blk_end y) \<le> pos b (blk_end x)) (x # xs)"
    "set (x # xs) = set blks" "length (x # xs) = length blks"
proof -
  have "\<forall>y \<in> set blks. near b (blk_end y)" using assms(1) by (simp add: bok_def)
  from sort_blocks_spec[OF this] have s: "mset (sort_blocks blks) = mset blks"
    "sorted_wrt (\<lambda>x y. pos b (blk_end x) \<le> pos b (blk_end y)) (sort_blocks blks)" by auto
  have l: "set (rev (sort_blocks blks)) = set blks" "length (rev (sort_blocks blks)) = length blks"
    using mset_eq_setD[OF s(1)] mset_eq_length[OF s(1)] by simp_all
  then obtain x xs where "rev (sort_blocks blks) = x # xs" using assms(2) by (cases "rev (sort_blocks blks)") auto
  moreover have "sorted_wrt (\<lambda>x y. pos b (blk_end y) \<le> pos b (blk_end x)) (rev (sort_blocks blks))" using s(2) by (simp add: sorted_wrt_rev)
  ultimately show ?thesis using l by (intro that) auto
qed

text \<open>The three ways to bring \<open>snd_fack\<close> up to date, for a scoreboard \<open>H\<close> below \<open>F = snd_fack tp\<close>.\<close>

lemma ack_beyond:
  assumes H: "holes_ok b H" "acct tp3 (H @ [t])" "holes b H \<subseteq> {..<pos b F}" and t: "hole_start t = F" "hole_end t = blk_start x" "rxmit t = F"
    and ds: "\<forall>y \<in> set (x # xs). bok b y \<and> pos b (blk_end y) \<le> pos b (snd_max tp3)" "sorted_wrt (\<lambda>x y. pos b (blk_end y) \<le> pos b (blk_end x)) (x # xs)"
    and lt: "pos b F < pos b (blk_start x)"
  shows "acked b (holes b H \<union> rset b F (snd_max tp3)) (x # xs) (room lim as (tp3\<lparr>snd_fack := blk_end x\<rparr>) (length xs))
    (sack_sweep lim as (tp3\<lparr>snd_fack := blk_end x\<rparr>) xs (rev (H @ [t])) [])"
proof -
  let ?tp = "tp3\<lparr>snd_fack := blk_end x\<rparr>"
  have x: "bok b x" "pos b (blk_end x) \<le> pos b (snd_max tp3)" using ds(1) by auto
  have tk: "hok b t" using x lt by (auto simp: hok_def t bok_def)
  have "pos b (hole_end h) \<le> pos b F" if "h \<in> set H" for h
    using that H(1,3) by (intro hole_last) (auto simp: holes_ok_def holes_def)
  then have ok: "holes_ok b (H @ [t])" using H(1) tk by (auto simp: holes_ok_def sorted_wrt_append hbefore_def t)
  have ht: "holes b (H @ [t]) = holes b H \<union> rset b F (blk_start x)" by (simp add: hset_def t)
  have below: "holes b (H @ [t]) \<subseteq> {..<pos b (snd_fack ?tp)}" using H(3) lt x unfolding ht by (auto simp: rset_def bok_def)
  have a: "acct ?tp (H @ [t])" using H(2) by (simp add: acct_def)
  have "acked b (holes b (H @ [t]) \<union> rset b (snd_fack ?tp) (snd_max ?tp)) xs (room lim as ?tp (length xs)) (sack_sweep lim as ?tp xs (rev (H @ [t])) [])"
    by (rule sweep_acked[OF ok _ _ a below _ _ refl]) (use ds in auto)
  then show ?thesis
  proof (rule acked_conv)
    show "holes b (H @ [t]) \<union> rset b (snd_fack ?tp) (snd_max ?tp) \<subseteq> holes b H \<union> rset b F (snd_max tp3)"
      using x lt unfolding ht by (auto simp: rset_def bok_def)
    show "holes b H \<union> rset b F (snd_max tp3) - blocks b (x # xs) \<subseteq> holes b (H @ [t]) \<union> rset b (snd_fack ?tp) (snd_max ?tp)"
      unfolding ht by (auto simp: rset_def bset_def)
    have "(holes b (H @ [t]) \<union> rset b (snd_fack ?tp) (snd_max ?tp)) \<inter> bset b x = {}"
      using H(3) lt unfolding ht by (auto simp: rset_def bset_def)
    then show "room lim as ?tp (length xs) \<longrightarrow> room lim as ?tp (length xs) \<and>
        (holes b (H @ [t]) \<union> rset b (snd_fack ?tp) (snd_max ?tp)) \<inter> blocks b (x # xs) \<subseteq> blocks b xs" by auto
  qed auto
qed

lemma ack_within:
  assumes H: "holes_ok b H" "acct tp H" "holes b H \<subseteq> {..<pos b (snd_fack tp)}" and F: "pos b (snd_fack tp) \<le> pos b (snd_max tp)" "near b (snd_fack tp)"
    and ds: "\<forall>y \<in> set (x # xs). bok b y \<and> pos b (blk_end y) \<le> pos b (snd_max tp)" "sorted_wrt (\<lambda>x y. pos b (blk_end y) \<le> pos b (blk_end x)) (x # xs)"
    and le: "pos b (blk_start x) \<le> pos b (snd_fack tp)"
    and tp3: "tp3 = (if SEQ_LT (snd_fack tp) (blk_end x) then tp\<lparr>snd_fack := blk_end x\<rparr> else tp)"
  shows "acked b (holes b H \<union> rset b (snd_fack tp) (snd_max tp)) (x # xs) (room lim as tp (length (x # xs))) (sack_sweep lim as tp3 (x # xs) (rev H) [])"
proof -
  have f3: "pos b (snd_fack tp3) = max (pos b (snd_fack tp)) (pos b (blk_end x))" "snd_max tp3 = snd_max tp"
    using SEQ_pos(1)[of b "snd_fack tp" "blk_end x"] F ds(1) by (auto simp: tp3 bok_def)
  have a: "acct tp3 H" using H(2) by (simp add: acct_def tp3)
  have r: "room lim as tp3 n = room lim as tp n" for n by (simp add: room_def tp3)
  have "acked b (holes b H \<union> rset b (snd_fack tp3) (snd_max tp3)) (x # xs) (room lim as tp3 (length (x # xs))) (sack_sweep lim as tp3 (x # xs) (rev H) [])"
    by (rule sweep_acked[OF H(1) _ ds(2) a _ _ _ refl]) (use H(3) F ds f3 in auto)
  then show ?thesis unfolding r
  proof (rule acked_conv)
    show "holes b H \<union> rset b (snd_fack tp) (snd_max tp) - blocks b (x # xs) \<subseteq> holes b H \<union> rset b (snd_fack tp3) (snd_max tp3)"
      using le by (auto simp: rset_def f3 bset_def)
  qed (auto simp: rset_def f3)
qed

lemma ack_failed:
  assumes H: "holes_ok b H" "acct tp H" "holes b H \<subseteq> {..<pos b (snd_fack tp)}" and F: "pos b (snd_fack tp) \<le> pos b (snd_max tp)" "near b (snd_fack tp)"
    and ds: "\<forall>y \<in> set ds. bok b y \<and> pos b (blk_end y) \<le> pos b (snd_max tp)" "sorted_wrt (\<lambda>x y. pos b (blk_end y) \<le> pos b (blk_end x)) ds"
    and ds': "ds' = dropWhile (\<lambda>x. SEQ_LT (snd_fack tp) (blk_start x)) ds"
    and tp4: "tp4 = (case ds' of [] \<Rightarrow> tp | x # _ \<Rightarrow> if SEQ_LT (snd_fack tp) (blk_end x) then tp\<lparr>snd_fack := blk_end x\<rparr> else tp)"
  shows "acked b (holes b H \<union> rset b (snd_fack tp) (snd_max tp)) ds False (sack_sweep lim as tp4 ds' (rev H) [])"
proof (cases ds')
  case Nil
  have "acked b (holes b H \<union> rset b (snd_fack tp) (snd_max tp)) [] (room lim as tp (length ([] :: sackblk list))) (sack_sweep lim as tp [] (rev H) [])"
    by (rule sweep_acked[OF H(1) _ _ H(2,3) F(1) _ refl]) simp_all
  then show ?thesis unfolding Nil tp4 list.case by (rule acked_conv) auto
next
  case (Cons x xs)
  have suf: "suffix (x # xs) ds" unfolding Cons[symmetric] ds' by (rule suffix_dropWhile)
  then have sub: "set (x # xs) \<subseteq> set ds" by (rule set_mono_suffix)
  then have d: "\<forall>y \<in> set (x # xs). bok b y \<and> pos b (blk_end y) \<le> pos b (snd_max tp)" using ds(1) by blast
  have s: "sorted_wrt (\<lambda>x y. pos b (blk_end y) \<le> pos b (blk_end x)) (x # xs)" using suf ds(2) by (auto simp: suffix_def sorted_wrt_append)
  have "\<not> SEQ_LT (snd_fack tp) (blk_start x)" using Cons ds' by (metis dropWhile_eq_Cons_conv)
  then have le: "pos b (blk_start x) \<le> pos b (snd_fack tp)" using SEQ_pos(1)[of b "snd_fack tp" "blk_start x"] F d bok_near[of b x] by auto
  have "acked b (holes b H \<union> rset b (snd_fack tp) (snd_max tp)) (x # xs) (room lim as tp (length (x # xs))) (sack_sweep lim as tp4 (x # xs) (rev H) [])"
    by (rule ack_within[OF H F d s le]) (simp add: tp4 Cons)
  moreover have "blocks b (x # xs) \<subseteq> blocks b ds" using sub unfolding blocks_def by blast
  ultimately show ?thesis unfolding Cons by (rule acked_conv[OF _ subset_refl Diff_subset]) simp
qed

lemma first_fack_ok:
  assumes "score_ok tp" "pos (snd_una tp) th_ack \<le> pos (snd_una tp) (snd_max tp)"
  shows "pos (snd_una tp) (first_fack tp th_ack) \<le> pos (snd_una tp) (snd_max tp)" "near (snd_una tp) (first_fack tp th_ack)"
    "holes (snd_una tp) (snd_holes tp) \<subseteq> {..<pos (snd_una tp) (first_fack tp th_ack)}"
proof -
  let ?b = "snd_una tp"
  have n: "near ?b (snd_max tp)" "near ?b th_ack" using assms by (auto simp: score_ok_def)
  have "pos ?b (SEQ_MAX ?b th_ack) = pos ?b th_ack" using pos_SEQ_MAX[of ?b ?b th_ack] n by simp
  then show f: "pos ?b (first_fack tp th_ack) \<le> pos ?b (snd_max tp)" using assms by (auto simp: first_fack_def score_ok_def)
  with n show "near ?b (first_fack tp th_ack)" by simp
  show "holes ?b (snd_holes tp) \<subseteq> {..<pos ?b (first_fack tp th_ack)}"
  proof (cases "snd_holes tp = []")
    case False
    have "holes ?b (snd_holes tp) \<subseteq> {..<pos ?b (snd_fack tp)}"
      by (rule holes_below) (use assms(1) False in \<open>simp_all add: score_ok_def\<close>)
    with False show ?thesis by (simp add: first_fack_def)
  qed simp
qed

lemma tcp_sack_doack_spec:
  assumes ok: "score_ok tp" and ack: "pos (snd_una tp) th_ack \<le> pos (snd_una tp) (snd_max tp)"
    and n: "length (sack_option to) \<le> TCP_MAX_SACK" and blks: "sack_blocks tp (sack_option to) th_ack = blks" "blks \<noteq> []"
  shows "\<exists>tp'. tcp_sack_doack lim as tp to th_ack = Inr tp' \<and>
    acked (snd_una tp) (unsacked (snd_una tp) tp (first_fack tp th_ack)) blks (room lim as tp (length blks)) tp'"
proof -
  let ?b = "snd_una tp" and ?F = "first_fack tp th_ack" and ?H = "snd_holes tp"
  have near: "near ?b (snd_max tp)" using ok by (simp add: score_ok_def)
  have B: "\<forall>x \<in> set blks. bok ?b x \<and> pos ?b (blk_end x) \<le> pos ?b (snd_max tp)"
    using sack_blocks_bok[OF near ack] blks(1) by blast
  then obtain x xs where ds: "rev (sort_blocks blks) = x # xs" "sorted_wrt (\<lambda>x y. pos ?b (blk_end y) \<le> pos ?b (blk_end x)) (x # xs)"
    "set (x # xs) = set blks" "length (x # xs) = length blks" using desc_blocks[of blks ?b] blks(2) by metis
  have D: "\<forall>y \<in> set (x # xs). bok ?b y \<and> pos ?b (blk_end y) \<le> pos ?b (snd_max tp)" using B ds(3) by blast
  have bb: "blocks ?b (x # xs) = blocks ?b blks" using ds(3) unfolding blocks_def by simp
  define tp2 where "tp2 = tp\<lparr>snd_fack := ?F, sack_hint := (sack_hint tp)\<lparr>last_sack_ack := blk_end x\<rparr>\<rparr>"
  have "(if ?H = [] then tp\<lparr>snd_fack := SEQ_MAX (snd_una tp) th_ack\<rparr> else tp) = tp\<lparr>snd_fack := ?F\<rparr>" by (simp add: first_fack_def)
  moreover have "length blks \<le> TCP_MAX_SACK + 1"
    using order_trans[OF length_filter_le[of "sack_valid tp th_ack" "sack_option to"] n] blks(1) by (auto simp: sack_blocks_def split: if_splits)
  ultimately have run: "tcp_sack_doack lim as tp to th_ack =
      (if SEQ_LT ?F (blk_start x) then
         (case tcp_sackhole_insert lim as tp2 ?F (blk_start x) of
            (Some temp, tp3, as3) \<Rightarrow> Inr (sack_sweep lim as3 (tp3\<lparr>snd_fack := blk_end x\<rparr>) xs (rev (snd_holes tp3 @ [temp])) [])
          | (None, tp3, as3) \<Rightarrow>
              let ds' = dropWhile (\<lambda>x. SEQ_LT (snd_fack tp3) (blk_start x)) (x # xs);
                  tp4 = (case ds' of [] \<Rightarrow> tp3 | x # _ \<Rightarrow> if SEQ_LT (snd_fack tp3) (blk_end x) then tp3\<lparr>snd_fack := blk_end x\<rparr> else tp3)
              in Inr (sack_sweep lim as3 tp4 ds' (rev (snd_holes tp4)) []))
       else let tp3 = (if SEQ_LT ?F (blk_end x) then tp2\<lparr>snd_fack := blk_end x\<rparr> else tp2)
            in Inr (sack_sweep lim as tp3 (x # xs) (rev (snd_holes tp3)) []))"
    using blks unfolding tcp_sack_doack_def Let_def blks(1) ds(1) tp2_def list.sel by (simp cong: if_cong)
  have t2: "snd_fack tp2 = ?F" "snd_holes tp2 = ?H" "snd_max tp2 = snd_max tp" "acct tp2 ?H" "room lim as tp2 k = room lim as tp k" for k
    using ok by (simp_all add: tp2_def acct_def score_ok_def room_def)
  note F = first_fack_ok[OF ok ack] and H = ok[unfolded score_ok_def, THEN conjunct1]
  have U: "acked ?b (holes ?b ?H \<union> rset ?b ?F (snd_max tp)) (x # xs) e tp' \<Longrightarrow> (e' \<longrightarrow> e) \<Longrightarrow> acked ?b (unsacked ?b tp ?F) blks e' tp'" for tp' e e'
    unfolding unsacked_def acked_def bb by blast
  show ?thesis
  proof (cases "SEQ_LT ?F (blk_start x)")
    case True
    have lt: "pos ?b ?F < pos ?b (blk_start x)" using True SEQ_pos(1)[of ?b ?F "blk_start x"] F(2) D bok_near[of ?b x] by simp
    show ?thesis
    proof (cases rule: sackhole_insert_cases[of lim as tp2 ?F "blk_start x" "length xs"])
      case (fail tpf asf)
      define ds' where "ds' = dropWhile (\<lambda>x. SEQ_LT (snd_fack tp2) (blk_start x)) (x # xs)"
      define tp4 where "tp4 = (case ds' of [] \<Rightarrow> tp2 | x # _ \<Rightarrow> if SEQ_LT (snd_fack tp2) (blk_end x) then tp2\<lparr>snd_fack := blk_end x\<rparr> else tp2)"
      have h4: "snd_holes tp4 = ?H" using t2(2) by (simp add: tp4_def split: list.splits)
      have r: "tcp_sack_doack lim as tp to th_ack = Inr (sack_sweep lim asf tp4 ds' (rev ?H) [])"
        using run[unfolded if_P[OF True] fail(1) fail(2)] unfolding prod.case option.case Let_def ds'_def[symmetric] tp4_def[symmetric] h4 .
      have "\<not> room lim as tp (length blks)" using fail(3) t2(5) ds(4) by simp
      moreover have "acked ?b (holes ?b ?H \<union> rset ?b ?F (snd_max tp)) (x # xs) False (sack_sweep lim asf tp4 ds' (rev ?H) [])"
        using ack_failed[OF H t2(4) _ _ _ _ ds(2) ds'_def tp4_def, of lim asf] F D t2 by simp
      ultimately show ?thesis using r U by blast
    next
      case (new a asn tpn)
      let ?t = "\<lparr>hole_addr = a, hole_start = ?F, hole_end = blk_start x, rxmit = ?F\<rparr>"
      have r: "tcp_sack_doack lim as tp to th_ack = Inr (sack_sweep lim asn (tpn\<lparr>snd_fack := blk_end x\<rparr>) xs (rev (?H @ [?t])) [])"
        using run True new(1,6) t2 by simp
      have ac: "acct tpn (?H @ [?t])" using t2(4) new by (auto simp: acct_def split: option.splits)
      have mx: "snd_max tpn = snd_max tp"
        using new(1) t2(3) by (auto simp: tcp_sackhole_insert_def tcp_sackhole_alloc_def set_nexthole_def split: if_splits option.splits prod.splits)
      have "acked ?b (holes ?b ?H \<union> rset ?b ?F (snd_max tpn)) (x # xs) (room lim asn (tpn\<lparr>snd_fack := blk_end x\<rparr>) (length xs))
          (sack_sweep lim asn (tpn\<lparr>snd_fack := blk_end x\<rparr>) xs (rev (?H @ [?t])) [])"
        by (rule ack_beyond[OF H ac F(3) _ _ _ _ ds(2) lt]) (use D mx in auto)
      moreover have "room lim as tp (length blks) \<longrightarrow> room lim asn (tpn\<lparr>snd_fack := blk_end x\<rparr>) (length xs)"
      proof -
        have "room lim asn (tpn\<lparr>snd_fack := blk_end x\<rparr>) (length xs) = room lim asn tpn (length xs)" by (simp add: room_def)
        then show ?thesis using new(9) t2(5) ds(4) by simp
      qed
      ultimately show ?thesis using r U unfolding mx by blast
    qed
  next
    case False
    define tp3 where "tp3 = (if SEQ_LT ?F (blk_end x) then tp2\<lparr>snd_fack := blk_end x\<rparr> else tp2)"
    have r: "tcp_sack_doack lim as tp to th_ack = Inr (sack_sweep lim as tp3 (x # xs) (rev ?H) [])"
      using run False t2 by (simp add: tp3_def Let_def)
    have le: "pos ?b (blk_start x) \<le> pos ?b ?F" using False SEQ_pos(1)[of ?b ?F "blk_start x"] F(2) D bok_near[of ?b x] by simp
    have "acked ?b (holes ?b ?H \<union> rset ?b ?F (snd_max tp)) (x # xs) (room lim as tp (length (x # xs))) (sack_sweep lim as tp3 (x # xs) (rev ?H) [])"
      using ack_within[OF H t2(4) _ _ _ _ ds(2) _ tp3_def[folded t2(1)], of lim as] F D t2 le by simp
    then show ?thesis using r U ds(4) by metis
  qed
qed

subsection \<open>Retransmission\<close>

lemma sack_adjust_loop_spec:
  assumes "holes_ok b (cur # ps)" "near b nxt" "\<forall>h \<in> set (cur # ps). pos b (hole_end h) \<le> pos b fack" "near b fack" "pos b nxt < pos b fack"
    "pos b (hole_start cur) \<le> pos b nxt"
  shows "pos b nxt \<le> pos b (sack_adjust_loop nxt fack cur ps) \<and> {pos b nxt..<pos b (sack_adjust_loop nxt fack cur ps)} \<inter> holes b (cur # ps) = {} \<and>
    (sack_adjust_loop nxt fack cur ps = fack \<or> pos b (sack_adjust_loop nxt fack cur ps) \<in> holes b (cur # ps))"
  using assms
proof (induction ps arbitrary: cur)
  case Nil
  have c: "near b (hole_end cur)" using Nil by (simp add: holes_ok_Cons hok_def)
  note S = SEQ_pos(1)[OF Nil.prems(2) c]
  from Nil.prems S show ?case by (auto simp: hset_def rset_def)
next
  case (Cons p ps)
  have c: "hok b cur" "hok b p" "holes_ok b (p # ps)" "\<forall>y \<in> set (p # ps). hbefore b cur y" using Cons.prems(1) by (auto simp: holes_ok_Cons)
  note S = SEQ_pos(1)[of b nxt "hole_end cur"] SEQ_pos(4)[of b nxt "hole_start p"] hok_near[OF c(1)] hok_near[OF c(2)] Cons.prems(2)
  show ?case
  proof (cases "pos b nxt < pos b (hole_end cur)")
    case True
    with S Cons.prems(6) show ?thesis by (auto simp: hset_def rset_def)
  next
    case out: False
    show ?thesis
    proof (cases "pos b (hole_start p) \<le> pos b nxt")
      case True
      then have r: "sack_adjust_loop nxt fack cur (p # ps) = sack_adjust_loop nxt fack p ps" using out S by simp
      have "\<forall>h \<in> set (p # ps). pos b (hole_end h) \<le> pos b fack" using Cons.prems(3) by simp
      note ih = Cons.IH[OF c(3) Cons.prems(2) this Cons.prems(4,5) True]
      have "{pos b nxt..<m} \<inter> hset b cur = {}" for m using out by (auto simp: hset_def rset_def)
      with ih show ?thesis unfolding r by (auto simp: Int_Un_distrib)
    next
      case False
      then have r: "sack_adjust_loop nxt fack cur (p # ps) = hole_start p" using out S by simp
      have "pos b (hole_start p) \<le> pos b (hole_start h)" if "h \<in> set (p # ps)" for h
        using that c(2,3) by (auto simp: holes_ok_Cons hbefore_def hok_def)
      then have "{pos b nxt..<pos b (hole_start p)} \<inter> holes b (p # ps) = {}" by (fastforce simp: holes_def hset_def rset_def)
      moreover have "{pos b nxt..<pos b (hole_start p)} \<inter> hset b cur = {}" using out by (auto simp: hset_def rset_def)
      moreover have "pos b (hole_start p) \<in> holes b (p # ps)" using c(2) by (simp add: hset_def rset_def hok_def)
      ultimately show ?thesis using False unfolding r by auto
    qed
  qed
qed

lemma tcp_sack_adjust_spec:
  fixes tp :: sack_tp
  defines "b \<equiv> snd_una tp"
  assumes ok: "score_ok tp" and nx: "near b (snd_nxt tp)"
  shows "snd_holes (tcp_sack_adjust tp) = snd_holes tp \<and> pos b (snd_nxt tp) \<le> pos b (snd_nxt (tcp_sack_adjust tp)) \<and>
    {pos b (snd_nxt tp)..<pos b (snd_nxt (tcp_sack_adjust tp))} \<inter> holes b (snd_holes tp) = {} \<and>
    (snd_holes tp \<noteq> [] \<and> pos b (hole_start (hd (snd_holes tp))) \<le> pos b (snd_nxt tp) \<and> pos b (snd_nxt tp) < pos b (snd_fack tp) \<longrightarrow>
       snd_nxt (tcp_sack_adjust tp) = snd_fack tp \<or> pos b (snd_nxt (tcp_sack_adjust tp)) \<in> holes b (snd_holes tp))"
proof (cases "snd_holes tp")
  case Nil
  then show ?thesis by (simp add: tcp_sack_adjust_def)
next
  case (Cons cur ps)
  have H: "holes_ok b (cur # ps)" "\<forall>h \<in> set (cur # ps). pos b (hole_end h) \<le> pos b (snd_fack tp)" "near b (snd_fack tp)" "hok b cur"
    using ok Cons by (auto simp: score_ok_def b_def holes_ok_Cons)
  show ?thesis
  proof (cases "pos b (snd_fack tp) \<le> pos b (snd_nxt tp)")
    case True
    then show ?thesis using SEQ_pos(4)[OF nx H(3)] Cons by (simp add: tcp_sack_adjust_def)
  next
    case False
    then have r: "tcp_sack_adjust tp = tp\<lparr>snd_nxt := sack_adjust_loop (snd_nxt tp) (snd_fack tp) cur ps\<rparr>"
      using SEQ_pos(4)[OF nx H(3)] Cons by (simp add: tcp_sack_adjust_def)
    show ?thesis
    proof (cases "pos b (hole_start cur) \<le> pos b (snd_nxt tp)")
      case True
      from sack_adjust_loop_spec[OF H(1) nx H(2,3) _ True] False Cons show ?thesis unfolding r by simp
    next
      case before: False
      have "SEQ_LT (snd_nxt tp) (hole_end cur)" using before SEQ_pos(1)[OF nx, of "hole_end cur"] H(4) by (simp add: hok_def)
      then have "sack_adjust_loop (snd_nxt tp) (snd_fack tp) cur ps = snd_nxt tp" by (cases ps) simp_all
      with before Cons show ?thesis unfolding r by simp
    qed
  qed
qed

lemma holes_from_Some: "a \<in> hole_addr ` set H \<Longrightarrow> \<exists>h hs. holes_from a H = h # hs \<and> set (h # hs) \<subseteq> set H"
  by (induction H) auto

lemma tcp_sack_output_spec:
  assumes "acct tp (snd_holes tp)"
  shows "\<exists>mh tp'. tcp_sack_output tp = Inr (mh, rexmit_sum (snd_holes tp), tp') \<and> snd_holes tp' = snd_holes tp \<and> acct tp' (snd_holes tp') \<and>
    (\<forall>h. mh = Some h \<longrightarrow> h \<in> set (snd_holes tp) \<and> SEQ_LT (rxmit h) (hole_end h))"
proof (cases "nexthole (sack_hint tp)")
  case None
  with assms show ?thesis by (simp add: tcp_sack_output_def acct_def)
next
  case (Some a)
  with assms obtain h hs where h: "holes_from a (snd_holes tp) = h # hs" "set (h # hs) \<subseteq> set (snd_holes tp)"
    using holes_from_Some[of a "snd_holes tp"] by (auto simp: acct_def)
  show ?thesis
  proof (cases "SEQ_LT (rxmit h) (hole_end h)")
    case True
    with assms Some h show ?thesis by (simp add: tcp_sack_output_def acct_def)
  next
    case no: False
    show ?thesis
    proof (cases "find (\<lambda>x. SEQ_LT (rxmit x) (hole_end x)) hs")
      case None
      with assms Some h no show ?thesis by (simp add: tcp_sack_output_def acct_def)
    next
      case (Some x)
      then have "x \<in> set hs" "SEQ_LT (rxmit x) (hole_end x)" by (auto simp: find_Some_iff)
      with assms \<open>nexthole (sack_hint tp) = Some a\<close> Some h no show ?thesis
        by (simp add: tcp_sack_output_def acct_def set_nexthole_def subset_iff)
    qed
  qed
qed

lemma free_holes_spec:
  "acct tp H \<Longrightarrow> snd_numholes (free_holes H tp) = 0 \<and> nexthole (sack_hint (free_holes H tp)) = None \<and> (H \<noteq> [] \<longrightarrow> snd_holes (free_holes H tp) = [])"
proof (induction H arbitrary: tp)
  case Nil
  then show ?case by (auto simp: acct_def split: option.splits)
next
  case (Cons h H)
  have "acct (tcp_sackhole_remove (add_rexmit (- (rxmit h - hole_start h)) tp) h H) ([] @ H)" by (rule acct_remove) (use Cons.prems in simp)
  then have a: "snd_numholes tp = 1 + int (length H)" "case nexthole (sack_hint (tcp_sackhole_remove tp h H)) of None \<Rightarrow> True | Some a \<Rightarrow> a \<in> hole_addr ` set H"
    using Cons.prems by (auto simp: acct_def tcp_sackhole_remove_def tcp_sackhole_free_def split: option.splits if_splits)
  define tp1 where "tp1 = (tcp_sackhole_remove tp h H)\<lparr>snd_holes := H\<rparr>"
  define tp2 where "tp2 = tp1\<lparr>sack_hint := (sack_hint tp1)\<lparr>sack_bytes_rexmit := rexmit_sum H\<rparr>\<rparr>"
  have "acct tp2 H" using a by (auto simp: acct_def tp2_def tp1_def tcp_sackhole_remove_def tcp_sackhole_free_def split: option.splits)
  moreover have "snd_numholes (free_holes K t) = snd_numholes (free_holes K u) \<and> nexthole (sack_hint (free_holes K t)) = nexthole (sack_hint (free_holes K u)) \<and>
      snd_holes (free_holes K t) = snd_holes (free_holes K u)"
    if "snd_numholes t = snd_numholes u" "nexthole (sack_hint t) = nexthole (sack_hint u)" "snd_holes t = snd_holes u" for K t u
    using that
  proof (induction K arbitrary: t u)
    case (Cons k K)
    show ?case unfolding free_holes.simps by (rule Cons.IH) (use Cons.prems in \<open>simp_all add: tcp_sackhole_remove_def tcp_sackhole_free_def\<close>)
  qed simp
  from this[of tp1 tp2 H] have "snd_numholes (free_holes H tp1) = snd_numholes (free_holes H tp2)" "nexthole (sack_hint (free_holes H tp1)) = nexthole (sack_hint (free_holes H tp2))"
    "snd_holes (free_holes H tp1) = snd_holes (free_holes H tp2)" by (simp_all add: tp2_def)
  ultimately show ?case using Cons.IH[of tp2] by (cases H) (simp_all add: tp1_def tp2_def)
qed

end
