(* ===== verification/Tcp_Sack_Props.thy ===== *)
theory Tcp_Sack_Props
  imports Tcp_Sack_Inv
begin

text \<open>
  The properties of selective acknowledgement: what the receiver reports, what the sender concludes from a report, and
  what it retransmits.
\<close>

subsection \<open>Samples\<close>

definition sample_blks :: "sackblk list" where
  "sample_blks = \<lparr>blk_start = 120, blk_end = 130\<rparr> # replicate 5 \<lparr>blk_start = 0, blk_end = 0\<rparr>"

definition sample_sack :: sack_tp where
  "sample_sack = \<lparr>snd_una = 100, snd_max = 200, snd_nxt = 110, snd_fack = 150, snd_numholes = 1,
     snd_holes = [\<lparr>hole_addr = 1, hole_start = 100, hole_end = 110, rxmit = 105\<rparr>],
     sack_hint = \<lparr>nexthole = Some 1, sack_bytes_rexmit = 5, last_sack_ack = 150\<rparr>, sack_newdata = 200, sack_maxseg = 1460,
     snd_cwnd = 10, snd_ssthresh = 10, t_rtttime = 0, t_acknow = False, sack_timers = (\<lambda>_. None), sack_globalholes = 1\<rparr>"

lemma sample_score: "score_ok sample_sack"
  by (simp add: score_ok_def sample_sack_def holes_ok_def hok_def pos_def acct_def)

subsection \<open>The receiver\<close>

text \<open>C28: \<open>tcp_update_sack_list\<close> never writes past \<open>sackblks[]\<close> or \<open>saved_blks[]\<close> and keeps at most \<open>MAX_SACK_BLKS\<close> blocks,
  whatever the blocks and the segment are.\<close>

theorem update_sack_list_bounded:
  assumes "length arr = MAX_SACK_BLKS" "num \<le> MAX_SACK_BLKS"
  shows "\<exists>arr' num'. tcp_update_sack_list nxt arr num rcv_start rcv_end = Inr (arr', num') \<and> length arr' = MAX_SACK_BLKS \<and> num' \<le> MAX_SACK_BLKS"
  by (rule tcp_update_sack_list_bounds[OF assms])

theorem update_sack_list_bounded_witness:
  "\<exists>arr' num'. tcp_update_sack_list 100 (replicate 6 \<lparr>blk_start = 5, blk_end = 3\<rparr>) 6 7 7 = Inr (arr', num') \<and> length arr' = 6 \<and> num' \<le> 6"
  using update_sack_list_bounded[of "replicate 6 \<lparr>blk_start = 5, blk_end = 3\<rparr>" 6 100 7 7] by (simp add: MAX_SACK_BLKS_def)

text \<open>C12: The report after an out-of-order segment: the first block contains the segment, the blocks stay pairwise apart, they cover nothing
  but the segment and the earlier blocks above \<open>rcv_nxt\<close>, and all of these unless a full list forces the oldest block out.\<close>

theorem update_sack_list_covers:
  assumes "length arr = MAX_SACK_BLKS" "num \<le> MAX_SACK_BLKS"
    and "\<forall>x \<in> set (live nxt (take num arr)). bok nxt x" "sorted_wrt (apart nxt) (live nxt (take num arr))"
    and "bok nxt \<lparr>blk_start = s, blk_end = e\<rparr>" "s \<noteq> nxt"
    and "tcp_update_sack_list nxt arr num s e = Inr (arr', num')"
  shows "0 < num' \<and> sorted_wrt (apart nxt) (take num' arr') \<and> (\<forall>x \<in> set (take num' arr'). bok nxt x) \<and> rset nxt s e \<subseteq> bset nxt (hd arr') \<and>
    blocks nxt (take num' arr') \<subseteq> rset nxt s e \<union> blocks nxt (live nxt (take num arr)) \<and>
    (length (live nxt (take num arr)) < MAX_SACK_BLKS \<longrightarrow> rset nxt s e \<union> blocks nxt (live nxt (take num arr)) \<subseteq> blocks nxt (take num' arr'))"
  using tcp_update_sack_list_spec[OF assms] unfolding blocks_def .

theorem update_sack_list_covers_witness:
  "\<exists>arr' num'. tcp_update_sack_list 100 sample_blks 1 125 140 = Inr (arr', num') \<and> {25..<40} \<subseteq> bset 100 (hd arr') \<and>
     blocks 100 (take num' arr') = {20..<40}"
proof -
  have l: "length sample_blks = MAX_SACK_BLKS" "1 \<le> MAX_SACK_BLKS" by (simp_all add: sample_blks_def MAX_SACK_BLKS_def)
  have live: "live 100 (take 1 sample_blks) = [\<lparr>blk_start = 120, blk_end = 130\<rparr>]"
    by (simp add: sample_blks_def live_def stale_def SEQ_GEQ_def SEQ_LEQ_def)
  obtain arr' num' where r: "tcp_update_sack_list 100 sample_blks 1 125 140 = Inr (arr', num')"
    using tcp_update_sack_list_bounds[OF l] by blast
  have "blocks 100 [\<lparr>blk_start = 120, blk_end = 130\<rparr>] = {20..<30}" "rset 100 125 140 = {25..<40}"
    by (auto simp: bset_def rset_def pos_def)
  moreover have "{25..<40} \<union> {20..<30} = {20..<40::nat}" by auto
  ultimately show ?thesis using update_sack_list_covers[OF l _ _ _ _ r] r live
    by (auto simp: bok_def pos_def MAX_SACK_BLKS_def)
qed

subsection \<open>The sender\<close>



text \<open>C21: After a timeout \<open>tcp_sack_adjust\<close> moves \<open>snd_nxt\<close> forward over acknowledged data only, and past the first hole it stops
  exactly at a missing byte or at \<open>snd_fack\<close>.\<close>

theorem sack_adjust_skips_sacked:
  assumes "score_ok tp" "near (snd_una tp) (snd_nxt tp)"
  shows "pos (snd_una tp) (snd_nxt tp) \<le> pos (snd_una tp) (snd_nxt (tcp_sack_adjust tp)) \<and>
    {pos (snd_una tp) (snd_nxt tp)..<pos (snd_una tp) (snd_nxt (tcp_sack_adjust tp))} \<inter> holes (snd_una tp) (snd_holes tp) = {} \<and>
    (snd_holes tp \<noteq> [] \<and> pos (snd_una tp) (hole_start (hd (snd_holes tp))) \<le> pos (snd_una tp) (snd_nxt tp) \<and>
     pos (snd_una tp) (snd_nxt tp) < pos (snd_una tp) (snd_fack tp) \<longrightarrow>
       snd_nxt (tcp_sack_adjust tp) = snd_fack tp \<or> pos (snd_una tp) (snd_nxt (tcp_sack_adjust tp)) \<in> holes (snd_una tp) (snd_holes tp))"
  using tcp_sack_adjust_spec[OF assms] by blast

theorem sack_adjust_skips_sacked_witness:
  "snd_nxt (tcp_sack_adjust sample_sack) = 150 \<and> {10..<50} \<inter> holes 100 (snd_holes sample_sack) = {}"
proof -
  have "near (snd_una sample_sack) (snd_nxt sample_sack)" by (simp add: sample_sack_def pos_def)
  from sack_adjust_skips_sacked[OF sample_score this] show ?thesis
    by (simp add: sample_sack_def tcp_sack_adjust_def SEQ_GEQ_def SEQ_LT_def pos_def)
qed



end
