(* ===== verification/Tcp_Opts.thy ===== *)
theory Tcp_Opts
  imports Tcp_Sack
begin

text \<open>
  TCP header options: \<open>tcp_addoptions\<close> of \<open>sys/netinet/tcp_output.c\<close> writes them, \<open>tcp_dooptions\<close> of \<open>sys/netinet/tcp_input.c\<close> reads them.

  The writer's \<open>optlen\<close> is the length of what it has written.  \<open>to_sacks\<close> is a pointer with two uses: into the option for the reader, to
  an array of blocks for the writer.  Reading outside either is \<open>Inl Out_of_bounds\<close>.  The stack is built without \<open>TCP_SIGNATURE\<close>, so the
  reader skips that option.
\<close>

subsection \<open>Constants and the option record\<close>

definition TCPOPT_EOL :: byte where "TCPOPT_EOL = 0"
definition TCPOPT_PAD :: byte where "TCPOPT_PAD = 0"
definition TCPOPT_NOP :: byte where "TCPOPT_NOP = 1"
definition TCPOPT_MAXSEG :: byte where "TCPOPT_MAXSEG = 2"
definition TCPOLEN_MAXSEG :: nat where "TCPOLEN_MAXSEG = 4"
definition TCPOPT_WINDOW :: byte where "TCPOPT_WINDOW = 3"
definition TCPOLEN_WINDOW :: nat where "TCPOLEN_WINDOW = 3"
definition TCPOPT_SACK_PERMITTED :: byte where "TCPOPT_SACK_PERMITTED = 4"
definition TCPOLEN_SACK_PERMITTED :: nat where "TCPOLEN_SACK_PERMITTED = 2"
definition TCPOPT_SACK :: byte where "TCPOPT_SACK = 5"
definition TCPOLEN_SACKHDR :: nat where "TCPOLEN_SACKHDR = 2"
definition TCPOPT_TIMESTAMP :: byte where "TCPOPT_TIMESTAMP = 8"
definition TCPOLEN_TIMESTAMP :: nat where "TCPOLEN_TIMESTAMP = 10"
definition TCPOPT_SIGNATURE :: byte where "TCPOPT_SIGNATURE = 19"
definition TCPOLEN_SIGNATURE :: nat where "TCPOLEN_SIGNATURE = 18"
definition TCP_MAX_WINSHIFT :: byte where "TCP_MAX_WINSHIFT = 14"
definition TCP_MAXOLEN :: nat where "TCP_MAXOLEN = 60 - 20"

lemmas opt_consts = TCPOPT_EOL_def TCPOPT_PAD_def TCPOPT_NOP_def TCPOPT_MAXSEG_def TCPOLEN_MAXSEG_def TCPOPT_WINDOW_def TCPOLEN_WINDOW_def
  TCPOPT_SACK_PERMITTED_def TCPOLEN_SACK_PERMITTED_def TCPOPT_SACK_def TCPOLEN_SACKHDR_def TCPOPT_TIMESTAMP_def TCPOLEN_TIMESTAMP_def
  TCPOPT_SIGNATURE_def TCPOLEN_SIGNATURE_def TCP_MAX_WINSHIFT_def TCP_MAXOLEN_def TCPOLEN_SACK_def

datatype sacks_ptr = Opt_bytes "byte list" | Blk_array "sackblk list"

record tcpopt =
  to_flags :: "64 word"
  to_tsval :: u32
  to_tsecr :: u32
  to_sacks :: sacks_ptr
  to_signature :: "nat option"
  to_mss :: "16 word"
  to_wscale :: byte
  to_nsacks :: byte

definition TOF_MSS :: "64 word" where "TOF_MSS = 0x0001"
definition TOF_SCALE :: "64 word" where "TOF_SCALE = 0x0002"
definition TOF_SACKPERM :: "64 word" where "TOF_SACKPERM = 0x0004"
definition TOF_TS :: "64 word" where "TOF_TS = 0x0010"
definition TOF_SIGNATURE :: "64 word" where "TOF_SIGNATURE = 0x0040"
definition TOF_SACK :: "64 word" where "TOF_SACK = 0x0080"

lemmas tof_consts = TOF_MSS_def TOF_SCALE_def TOF_SACKPERM_def TOF_TS_def TOF_SIGNATURE_def TOF_SACK_def

subsection \<open>Writing\<close>

definition htons :: "16 word \<Rightarrow> 16 word" where "htons w = be_num (rev (be16 w))"
definition htonl :: "u32 \<Rightarrow> u32" where "htonl w = be_num (rev (be32 w))"

text \<open>The loops that insert NOPs until \<open>optlen % d == r\<close>; \<open>!optlen\<close> is implied by the remainder in the loops that test it.\<close>

function pad_nop :: "nat \<Rightarrow> nat \<Rightarrow> byte list \<Rightarrow> byte list" where
  "pad_nop d r out = (if r < d \<and> length out mod d \<noteq> r then pad_nop d r (out @ [TCPOPT_NOP]) else out)"
  by pat_completeness auto
termination
proof (relation "measure (\<lambda>(d, r, out). (r + d - length out mod d) mod d)")
  fix d r and out :: "byte list"
  assume A: "r < d \<and> length out mod d \<noteq> r"
  define x where "x = length out mod d"
  have x: "x < d" "x \<noteq> r" using A by (simp_all add: x_def)
  have Suc: "(r + d - Suc (length out) mod d) mod d < (r + d - x) mod d"
  proof (cases "x < r")
    case True
    have m: "(r + d - y) mod d = r - y" if "y \<le> r" for y
    proof -
      have "r + d - y = r - y + d" "r - y < d" using that A by linarith+
      then show ?thesis by (simp only: mod_add_self2 mod_less)
    qed
    have "Suc (length out) mod d = Suc x" using True A x by (simp add: x_def mod_Suc)
    then show ?thesis using True m[of x] m[of "Suc x"] by simp
  next
    case False
    then have gt: "r < x" using x(2) by simp
    have lhs: "(r + d - x) mod d = r + d - x" using gt x(1) by simp
    show ?thesis
    proof (cases "Suc x = d")
      case True
      then have "Suc (length out) mod d = 0" by (simp add: x_def mod_Suc)
      then show ?thesis using lhs True A gt by simp
    next
      case False
      then have "Suc (length out) mod d = Suc x" using x(1) by (simp add: x_def mod_Suc)
      moreover have "(r + d - Suc x) mod d = r + d - Suc x" using gt x(1) False by simp
      ultimately show ?thesis using lhs x(1) by simp
    qed
  qed
  then show "((d, r, out @ [TCPOPT_NOP]), d, r, out) \<in> measure (\<lambda>(d, r, out). (r + d - length out mod d) mod d)"
    by (simp add: x_def)
qed simp

declare pad_nop.simps [simp del]

text \<open>\<open>TCP_MAXOLEN - optlen\<close> is unsigned.\<close>

definition opt_room :: "byte list \<Rightarrow> nat" where
  "opt_room out = unat (of_nat TCP_MAXOLEN - of_nat (length out) :: 64 word)"

definition sack_bytes :: "sackblk \<Rightarrow> byte list" where
  "sack_bytes b = be32 (blk_start b) @ be32 (blk_end b)"

definition add_sack :: "tcpopt \<Rightarrow> byte list \<Rightarrow> byte list res" where
  "add_sack to out =
     (let out = out @ [TCPOPT_SACK];
          sackblks = min (unat (to_nsacks to)) (unat (of_nat TCP_MAXOLEN - of_nat (length out + 1) :: 64 word) div TCPOLEN_SACK);
          out = out @ [of_nat (TCPOLEN_SACKHDR + sackblks * TCPOLEN_SACK)]
      in case to_sacks to of
           Blk_array bs \<Rightarrow> if sackblks \<le> length bs then Inr (out @ concat (map sack_bytes (take sackblks bs))) else Inl Out_of_bounds
         | Opt_bytes _ \<Rightarrow> Inl Out_of_bounds)"

definition add_option :: "64 word \<Rightarrow> tcpopt \<Rightarrow> byte list \<Rightarrow> (tcpopt \<times> byte list) res" where
  "add_option msk to out =
     (if msk = TOF_MSS then
        (let out = pad_nop 4 0 out in
         if opt_room out < TCPOLEN_MAXSEG then Inr (to, out)
         else Inr (to\<lparr>to_mss := htons (to_mss to)\<rparr>, out @ [TCPOPT_MAXSEG, of_nat TCPOLEN_MAXSEG] @ be16 (to_mss to)))
      else if msk = TOF_SCALE then
        (let out = pad_nop 2 1 out in
         if opt_room out < TCPOLEN_WINDOW then Inr (to, out)
         else Inr (to, out @ [TCPOPT_WINDOW, of_nat TCPOLEN_WINDOW, to_wscale to]))
      else if msk = TOF_SACKPERM then
        (let out = pad_nop 2 0 out in
         if opt_room out < TCPOLEN_SACK_PERMITTED then Inr (to, out)
         else Inr (to, out @ [TCPOPT_SACK_PERMITTED, of_nat TCPOLEN_SACK_PERMITTED]))
      else if msk = TOF_TS then
        (let out = pad_nop 4 2 out in
         if opt_room out < TCPOLEN_TIMESTAMP then Inr (to, out)
         else Inr (to\<lparr>to_tsval := htonl (to_tsval to), to_tsecr := htonl (to_tsecr to)\<rparr>,
           out @ [TCPOPT_TIMESTAMP, of_nat TCPOLEN_TIMESTAMP] @ be32 (to_tsval to) @ be32 (to_tsecr to)))
      else if msk = TOF_SIGNATURE then
        (let out = pad_nop 4 2 out in
         if opt_room out < TCPOLEN_SIGNATURE then Inr (to, out)
         else Inr (to\<lparr>to_signature := Some (length out + 2)\<rparr>,
           out @ [TCPOPT_SIGNATURE, of_nat TCPOLEN_SIGNATURE] @ replicate (TCPOLEN_SIGNATURE - 2) 0))
      else if msk = TOF_SACK then
        (let out = pad_nop 4 2 out in
         if opt_room out < TCPOLEN_SACKHDR + TCPOLEN_SACK then Inr (to, out)
         else res_bind (add_sack to out) (\<lambda>out. Inr (to, out)))
      else Inl Panic)"

fun add_loop :: "64 word list \<Rightarrow> tcpopt \<Rightarrow> byte list \<Rightarrow> (tcpopt \<times> byte list) res" where
  "add_loop [] to out = Inr (to, out)"
| "add_loop (msk # masks) to out =
     (if to_flags to AND msk \<noteq> msk then add_loop masks to out
      else if length out = TCP_MAXOLEN then Inr (to, out)
      else res_bind (add_option msk to out) (\<lambda>(to, out). add_loop masks to out))"

definition tof_masks :: "64 word list" where
  "tof_masks = [0x01, 0x02, 0x04, 0x08, 0x10, 0x20, 0x40, 0x80]"

definition opt_end :: "byte list \<Rightarrow> byte list" where
  "opt_end out =
     (let out = (if length out mod 4 \<noteq> 0 then out @ [TCPOPT_EOL] else out)
      in out @ replicate ((4 - length out mod 4) mod 4) TCPOPT_PAD)"

definition tcp_addoptions :: "tcpopt \<Rightarrow> (tcpopt \<times> byte list) res" where
  "tcp_addoptions to = res_bind (add_loop tof_masks to []) (\<lambda>(to, out). Inr (to, opt_end out))"

subsection \<open>Reading\<close>

definition opt_byte :: "byte list \<Rightarrow> nat \<Rightarrow> byte res" where
  "opt_byte cp i = (if i < length cp then Inr (cp ! i) else Inl Out_of_bounds)"

definition opt_bytes :: "byte list \<Rightarrow> nat \<Rightarrow> nat \<Rightarrow> byte list res" where
  "opt_bytes cp i n = (if i + n \<le> length cp then Inr (take n (drop i cp)) else Inl Out_of_bounds)"

text \<open>The length of the next option; \<open>None\<close> where the loop breaks.\<close>

definition opt_len :: "byte list \<Rightarrow> int \<Rightarrow> nat option res" where
  "opt_len cp cnt = res_bind (opt_byte cp 0) (\<lambda>opt.
     if opt = TCPOPT_EOL then Inr None
     else if opt = TCPOPT_NOP then Inr (Some 1)
     else if cnt < 2 then Inr None
     else res_bind (opt_byte cp 1) (\<lambda>l. if unat l < 2 \<or> int (unat l) > cnt then Inr None else Inr (Some (unat l))))"

definition do_option :: "bool \<Rightarrow> bool \<Rightarrow> tcpopt \<Rightarrow> byte list \<Rightarrow> nat \<Rightarrow> tcpopt res" where
  "do_option syn do_sack to cp optlen = res_bind (opt_byte cp 0) (\<lambda>opt.
     if opt = TCPOPT_MAXSEG then
       if optlen \<noteq> TCPOLEN_MAXSEG \<or> \<not> syn then Inr to
       else res_bind (opt_bytes cp 2 2) (\<lambda>v. Inr (to\<lparr>to_flags := to_flags to OR TOF_MSS, to_mss := be_num v\<rparr>))
     else if opt = TCPOPT_WINDOW then
       if optlen \<noteq> TCPOLEN_WINDOW \<or> \<not> syn then Inr to
       else res_bind (opt_byte cp 2) (\<lambda>v. Inr (to\<lparr>to_flags := to_flags to OR TOF_SCALE, to_wscale := min v TCP_MAX_WINSHIFT\<rparr>))
     else if opt = TCPOPT_TIMESTAMP then
       if optlen \<noteq> TCPOLEN_TIMESTAMP then Inr to
       else res_bind (opt_bytes cp 2 4) (\<lambda>v. res_bind (opt_bytes cp 6 4) (\<lambda>e.
         Inr (to\<lparr>to_flags := to_flags to OR TOF_TS, to_tsval := be_num v, to_tsecr := be_num e\<rparr>)))
     else if opt = TCPOPT_SACK_PERMITTED then
       if optlen \<noteq> TCPOLEN_SACK_PERMITTED \<or> \<not> syn \<or> \<not> do_sack then Inr to
       else Inr (to\<lparr>to_flags := to_flags to OR TOF_SACKPERM\<rparr>)
     else if opt = TCPOPT_SACK then
       if optlen \<le> 2 \<or> (optlen - 2) mod TCPOLEN_SACK \<noteq> 0 \<or> syn then Inr to
       else Inr (to\<lparr>to_flags := to_flags to OR TOF_SACK, to_nsacks := of_nat ((optlen - 2) div TCPOLEN_SACK), to_sacks := Opt_bytes (drop 2 cp)\<rparr>)
     else Inr to)"

lemma opt_len_pos: "opt_len cp cnt = Inr (Some n) \<Longrightarrow> 0 < n"
  by (cases cp) (auto simp: opt_len_def opt_byte_def split: if_splits)

function dooptions_loop :: "bool \<Rightarrow> bool \<Rightarrow> tcpopt \<Rightarrow> byte list \<Rightarrow> int \<Rightarrow> tcpopt res" where
  "dooptions_loop syn do_sack to cp cnt =
     (if cnt > 0 then
        (case opt_len cp cnt of
           Inl f \<Rightarrow> Inl f
         | Inr None \<Rightarrow> Inr to
         | Inr (Some optlen) \<Rightarrow>
             (case do_option syn do_sack to cp optlen of
                Inl f \<Rightarrow> Inl f
              | Inr to \<Rightarrow> dooptions_loop syn do_sack to (drop optlen cp) (cnt - int optlen)))
      else Inr to)"
  by pat_completeness auto

termination
  by (relation "measure (\<lambda>(_, _, _, _, cnt). nat cnt)") (auto dest: opt_len_pos)

declare dooptions_loop.simps [simp del]

definition tcp_dooptions :: "bool \<Rightarrow> tcpopt \<Rightarrow> byte list \<Rightarrow> int \<Rightarrow> bool \<Rightarrow> tcpopt res" where
  "tcp_dooptions do_sack to cp cnt syn = dooptions_loop syn do_sack (to\<lparr>to_flags := 0\<rparr>) cp cnt"

end
