(* ===== verification/Tcp_Opts_Props.thy ===== *)
theory Tcp_Opts_Props
  imports Tcp_Opts
begin

text \<open>
  Properties of the TCP options.  \<open>parses syn ds t0 out t\<close> says that the reader, started in \<open>t0\<close>, has state \<open>t\<close> behind the bytes \<open>out\<close>;
  it composes, so each option the writer appends is one step.  The stages follow the order of the writer's masks, with the bound on what is
  written so far that keeps the next option inside 40 bytes.
\<close>

subsection \<open>Padding\<close>


lemma pad_stop: "length out mod d = r \<Longrightarrow> pad_nop d r out = out"
  by (subst pad_nop.simps) simp

lemma pad_step: "r < d \<Longrightarrow> length out mod d \<noteq> r \<Longrightarrow> pad_nop d r out = pad_nop d r (out @ [TCPOPT_NOP])"
  by (subst pad_nop.simps) simp

lemma pad_nop_4:
  assumes "even (length out)" "r = 0 \<or> r = 2"
  shows "\<exists>k. pad_nop 4 r out = out @ replicate k TCPOPT_NOP \<and> (length out + k) mod 4 = r \<and> k \<le> 2 \<and> even k"
proof (cases "length out mod 4 = r")
  case True
  then show ?thesis by (intro exI[of _ 0]) (simp add: pad_stop)
next
  case False
  obtain q where q: "length out = 2 * q" using assms(1) by (rule evenE)
  have "length out mod 4 = 2 * (q mod 2)" using mult_mod_right[of 2 q 2] by (simp add: q)
  then have "length out mod 4 = 0 \<or> length out mod 4 = 2" by (cases "even q") (simp_all add: even_iff_mod_2_eq_zero odd_iff_mod_2_eq_one)
  then have m: "Suc (length out) mod 4 \<noteq> r" "Suc (Suc (length out)) mod 4 = r" using assms(2) False by (auto simp: mod_Suc)
  have "pad_nop 4 r out = pad_nop 4 r (out @ [TCPOPT_NOP])" using assms(2) False by (intro pad_step) auto
  also have "\<dots> = pad_nop 4 r ((out @ [TCPOPT_NOP]) @ [TCPOPT_NOP])" using assms(2) m by (intro pad_step) auto
  also have "\<dots> = out @ [TCPOPT_NOP, TCPOPT_NOP]" using m by (subst pad_stop) auto
  finally show ?thesis using m by (intro exI[of _ 2]) (simp add: numeral_2_eq_2)
qed

lemma pad_nop_2:
  assumes "even (length out)"
  shows "pad_nop 2 1 out = out @ [TCPOPT_NOP]" "pad_nop 2 0 out = out"
proof -
  have "pad_nop 2 1 out = pad_nop 2 1 (out @ [TCPOPT_NOP])" using assms by (intro pad_step) auto
  also have "\<dots> = out @ [TCPOPT_NOP]" using assms by (intro pad_stop) (simp add: mod_Suc even_iff_mod_2_eq_zero)
  finally show "pad_nop 2 1 out = out @ [TCPOPT_NOP]" .
  show "pad_nop 2 0 out = out" using assms by (intro pad_stop) (simp add: mod_Suc even_iff_mod_2_eq_zero)
qed

lemma room_word:
  assumes "n \<le> 40"
  shows "unat (of_nat TCP_MAXOLEN - of_nat n :: 64 word) = 40 - n"
proof -
  have u: "unat (of_nat TCP_MAXOLEN :: 64 word) = 40" "unat (of_nat n :: 64 word) = n"
    using assms by (simp_all add: TCP_MAXOLEN_def unat_of_nat)
  then have "of_nat n \<le> (of_nat TCP_MAXOLEN :: 64 word)" using assms by (simp add: word_le_nat_alt)
  then show ?thesis using u by (simp add: unat_sub)
qed

lemma opt_room_eq: "length out \<le> 40 \<Longrightarrow> opt_room out = 40 - length out"
  unfolding opt_room_def by (rule room_word)

subsection \<open>What the reader makes of a prefix\<close>

definition parse_all :: "bool \<Rightarrow> bool \<Rightarrow> tcpopt \<Rightarrow> byte list \<Rightarrow> tcpopt res" where
  "parse_all syn ds t bs = dooptions_loop syn ds t bs (int (length bs))"

definition parses :: "bool \<Rightarrow> bool \<Rightarrow> tcpopt \<Rightarrow> byte list \<Rightarrow> tcpopt \<Rightarrow> bool" where
  "parses syn ds t0 out t \<longleftrightarrow> (\<forall>rest. parse_all syn ds t0 (out @ rest) = parse_all syn ds t rest)"

lemma parses_Nil: "parses syn ds t [] t" by (simp add: parses_def)

lemma parses_trans: "parses syn ds t0 a t1 \<Longrightarrow> parses syn ds t1 b t2 \<Longrightarrow> parses syn ds t0 (a @ b) t2"
  by (simp add: parses_def)

lemma parse_all_step:
  assumes "opt_len cp (int (length cp)) = Inr (Some n)" "do_option syn ds t cp n = Inr t'" "n \<le> length cp"
  shows "parse_all syn ds t cp = parse_all syn ds t' (drop n cp)"
proof -
  have "0 < length cp" using assms(3) opt_len_pos[OF assms(1)] by linarith
  then show ?thesis using assms by (simp add: parse_all_def dooptions_loop.simps[of syn ds t] of_nat_diff)
qed

lemma parses_one:
  assumes "opt \<noteq> TCPOPT_EOL" "opt \<noteq> TCPOPT_NOP" "l = of_nat (length v + 2)" "length v \<le> 200"
    "\<And>rest. do_option syn ds t (opt # l # v @ rest) (length v + 2) = Inr t'"
  shows "parses syn ds t (opt # l # v) t'"
proof -
  have l: "unat l = length v + 2" unfolding assms(3) unat_of_nat using assms(4) by simp
  have u: "uint l = int (length v) + 2" using arg_cong[OF l, of int] by simp
  show ?thesis unfolding parses_def
  proof
    fix rest
    have "opt_len (opt # l # v @ rest) (int (length (opt # l # v @ rest))) = Inr (Some (length v + 2))"
      using assms(1,2) l u by (simp add: opt_len_def opt_byte_def)
    from parse_all_step[OF this assms(5)]
    show "parse_all syn ds t ((opt # l # v) @ rest) = parse_all syn ds t' rest" by simp
  qed
qed

lemma parses_nop: "parses syn ds t (replicate k TCPOPT_NOP) t"
proof (induction k)
  case (Suc k)
  have "parse_all syn ds t (TCPOPT_NOP # bs) = parse_all syn ds t bs" for bs
    using parse_all_step[of "TCPOPT_NOP # bs" 1 syn ds t t] by (simp add: opt_len_def do_option_def opt_byte_def opt_consts)
  then show ?case using Suc by (simp add: parses_def)
qed (simp add: parses_Nil)

lemma parses_mss:
  "parses syn ds t (TCPOPT_MAXSEG # of_nat TCPOLEN_MAXSEG # be16 v) (if syn then t\<lparr>to_flags := to_flags t OR TOF_MSS, to_mss := v\<rparr> else t)"
  by (rule parses_one) (auto simp: do_option_def opt_byte_def opt_bytes_def opt_consts be_num_be16)

lemma parses_scale:
  "parses syn ds t [TCPOPT_WINDOW, of_nat TCPOLEN_WINDOW, v]
     (if syn then t\<lparr>to_flags := to_flags t OR TOF_SCALE, to_wscale := min v TCP_MAX_WINSHIFT\<rparr> else t)"
  by (rule parses_one) (auto simp: do_option_def opt_byte_def opt_bytes_def opt_consts)

lemma parses_sackperm:
  "parses syn ds t [TCPOPT_SACK_PERMITTED, of_nat TCPOLEN_SACK_PERMITTED]
     (if syn \<and> ds then t\<lparr>to_flags := to_flags t OR TOF_SACKPERM\<rparr> else t)"
  by (rule parses_one) (auto simp: do_option_def opt_byte_def opt_bytes_def opt_consts)

lemma parses_ts:
  "parses syn ds t (TCPOPT_TIMESTAMP # of_nat TCPOLEN_TIMESTAMP # be32 v @ be32 e)
     (t\<lparr>to_flags := to_flags t OR TOF_TS, to_tsval := v, to_tsecr := e\<rparr>)"
  by (rule parses_one) (auto simp: do_option_def opt_byte_def opt_bytes_def opt_consts be_num_be32)

lemma parses_signature: "parses syn ds t (TCPOPT_SIGNATURE # of_nat TCPOLEN_SIGNATURE # replicate (TCPOLEN_SIGNATURE - 2) 0) t"
  by (rule parses_one) (auto simp: do_option_def opt_byte_def opt_bytes_def opt_consts)

subsection \<open>The writer, option by option\<close>

definition has :: "tcpopt \<Rightarrow> 64 word \<Rightarrow> bool" where "has to f \<longleftrightarrow> to_flags to AND f = f"

lemma add_loop_skip: "\<not> has to f \<Longrightarrow> add_loop (f # msks) to out = add_loop msks to out"
  by (simp add: has_def)

lemma add_loop_take:
  "has to f \<Longrightarrow> length out < 40 \<Longrightarrow> add_option f to out = Inr (to', out') \<Longrightarrow> add_loop (f # msks) to out = add_loop msks to' out'"
  by (simp add: has_def TCP_MAXOLEN_def)

lemma stage_mss:
  "\<exists>x out'. add_loop (TOF_MSS # msks) to [] = add_loop msks (to\<lparr>to_mss := x\<rparr>) out' \<and> length out' = (if has to TOF_MSS then 4 else 0) \<and>
    parses syn ds t out' (if has to TOF_MSS \<and> syn then t\<lparr>to_flags := to_flags t OR TOF_MSS, to_mss := to_mss to\<rparr> else t)"
proof (cases "has to TOF_MSS")
  case True
  have "add_option TOF_MSS to [] = Inr (to\<lparr>to_mss := htons (to_mss to)\<rparr>, TCPOPT_MAXSEG # of_nat TCPOLEN_MAXSEG # be16 (to_mss to))"
    using pad_stop[of "[]" 4 0] by (simp add: add_option_def opt_room_eq TCPOLEN_MAXSEG_def)
  from add_loop_take[OF True _ this, of msks] show ?thesis
    using parses_mss[of syn ds t "to_mss to"] True
    by (intro exI[of _ "htons (to_mss to)"] exI[of _ "TCPOPT_MAXSEG # of_nat TCPOLEN_MAXSEG # be16 (to_mss to)"]) simp
next
  case False
  then show ?thesis using add_loop_skip[OF False, of msks "[]"] parses_Nil by (intro exI[of _ "to_mss to"] exI[of _ "[]"]) simp
qed

lemma stage_scale:
  assumes "parses syn ds t0 out t" "even (length out)" "length out \<le> 4"
  shows "\<exists>out'. add_loop (TOF_SCALE # msks) to out = add_loop msks to out' \<and> length out' = length out + (if has to TOF_SCALE then 4 else 0) \<and>
    parses syn ds t0 out' (if has to TOF_SCALE \<and> syn then t\<lparr>to_flags := to_flags t OR TOF_SCALE, to_wscale := min (to_wscale to) TCP_MAX_WINSHIFT\<rparr> else t)"
proof (cases "has to TOF_SCALE")
  case True
  let ?o = "(out @ replicate 1 TCPOPT_NOP) @ [TCPOPT_WINDOW, of_nat TCPOLEN_WINDOW, to_wscale to]"
  have "add_option TOF_SCALE to out = Inr (to, ?o)"
    using assms(3) by (simp add: add_option_def tof_consts Let_def pad_nop_2[OF assms(2), simplified] opt_room_eq TCPOLEN_WINDOW_def)
  from add_loop_take[OF True _ this, of msks] show ?thesis
    using parses_trans[OF parses_trans[OF assms(1) parses_nop[of _ _ _ 1]] parses_scale[of syn ds t "to_wscale to"]] True assms(2,3)
    by (intro exI[of _ ?o]) (simp del: add_loop.simps)
next
  case False
  then show ?thesis using add_loop_skip[OF False, of msks out] assms by (intro exI[of _ out]) simp
qed

lemma stage_sackperm:
  assumes "parses syn ds t0 out t" "even (length out)" "length out \<le> 8"
  shows "\<exists>out'. add_loop (TOF_SACKPERM # msks) to out = add_loop msks to out' \<and> length out' = length out + (if has to TOF_SACKPERM then 2 else 0) \<and>
    parses syn ds t0 out' (if has to TOF_SACKPERM \<and> syn \<and> ds then t\<lparr>to_flags := to_flags t OR TOF_SACKPERM\<rparr> else t)"
proof (cases "has to TOF_SACKPERM")
  case True
  let ?o = "out @ [TCPOPT_SACK_PERMITTED, of_nat TCPOLEN_SACK_PERMITTED]"
  have "add_option TOF_SACKPERM to out = Inr (to, ?o)"
    using assms(3) by (simp add: add_option_def tof_consts Let_def pad_nop_2[OF assms(2), simplified] opt_room_eq TCPOLEN_SACK_PERMITTED_def)
  from add_loop_take[OF True _ this, of msks] show ?thesis
    using parses_trans[OF assms(1) parses_sackperm[of syn ds t]] True assms(2,3) by (intro exI[of _ ?o]) (simp del: add_loop.simps)
next
  case False
  then show ?thesis using add_loop_skip[OF False, of msks out] assms by (intro exI[of _ out]) simp
qed

text \<open>Padding to a multiple of four plus two stays in the group of four bytes.\<close>

lemma pad_group:
  fixes l k :: nat
  assumes "even l" "(l + k) mod 4 = 2" "k \<le> 2" "even k"
  shows "l + k = 4 * (l div 4) + 2"
proof -
  have "k = 0 \<or> k = 2" using assms(3,4) by (cases k) (auto simp: le_Suc_eq numeral_2_eq_2)
  then show ?thesis
  proof
    assume "k = 0"
    then show ?thesis using assms(2) mult_div_mod_eq[of 4 l] by simp
  next
    assume k: "k = 2"
    then have "l mod 4 = 0" using assms(1,2) by presburger
    then show ?thesis using k mult_div_mod_eq[of 4 l] by simp
  qed
qed

lemma stage_ts:
  assumes "parses syn ds t0 out t" "even (length out)" "length out \<le> 10"
  shows "\<exists>x y out'. add_loop (TOF_TS # msks) to out = add_loop msks (to\<lparr>to_tsval := x, to_tsecr := y\<rparr>) out' \<and>
    even (length out') \<and> length out' \<le> 20 \<and> length out' div 4 = length out div 4 + (if has to TOF_TS then 3 else 0) \<and>
    parses syn ds t0 out' (if has to TOF_TS then t\<lparr>to_flags := to_flags t OR TOF_TS, to_tsval := to_tsval to, to_tsecr := to_tsecr to\<rparr> else t)"
proof (cases "has to TOF_TS")
  case True
  obtain k where k: "pad_nop 4 2 out = out @ replicate k TCPOPT_NOP" "(length out + k) mod 4 = 2" "k \<le> 2" "even k"
    using pad_nop_4[OF assms(2), of 2] by blast
  have le: "length out + k \<le> 10" using k(2,3) assms(3) by presburger
  have g: "length out + k = 4 * (length out div 4) + 2" by (rule pad_group[OF assms(2) k(2-4)])
  let ?o = "(out @ replicate k TCPOPT_NOP) @ (TCPOPT_TIMESTAMP # of_nat TCPOLEN_TIMESTAMP # be32 (to_tsval to) @ be32 (to_tsecr to))"
  have "add_option TOF_TS to out = Inr (to\<lparr>to_tsval := htonl (to_tsval to), to_tsecr := htonl (to_tsecr to)\<rparr>, ?o)"
    using le by (simp add: add_option_def tof_consts Let_def k(1) opt_room_eq TCPOLEN_TIMESTAMP_def)
  from add_loop_take[OF True _ this, of msks] show ?thesis
    using parses_trans[OF parses_trans[OF assms(1) parses_nop[of _ _ _ k]] parses_ts[of syn ds t "to_tsval to" "to_tsecr to"]] True assms(2) le k(4) g
    by (intro exI[of _ "htonl (to_tsval to)"] exI[of _ "htonl (to_tsecr to)"] exI[of _ ?o]) simp
next
  case False
  then show ?thesis using add_loop_skip[OF False, of msks out] assms
    by (intro exI[of _ "to_tsval to"] exI[of _ "to_tsecr to"] exI[of _ out]) simp
qed

lemma stage_signature:
  assumes "parses syn ds t0 out t" "even (length out)" "length out \<le> 20"
  shows "\<exists>s out'. add_loop (TOF_SIGNATURE # msks) to out = add_loop msks (to\<lparr>to_signature := s\<rparr>) out' \<and>
    even (length out') \<and> length out' \<le> 40 \<and> length out' div 4 = length out div 4 + (if has to TOF_SIGNATURE then 5 else 0) \<and> parses syn ds t0 out' t"
proof (cases "has to TOF_SIGNATURE")
  case True
  obtain k where k: "pad_nop 4 2 out = out @ replicate k TCPOPT_NOP" "(length out + k) mod 4 = 2" "k \<le> 2" "even k"
    using pad_nop_4[OF assms(2), of 2] by blast
  have le: "length out + k \<le> 22" using k(3) assms(3) by simp
  have g: "length out + k = 4 * (length out div 4) + 2" by (rule pad_group[OF assms(2) k(2-4)])
  let ?o = "(out @ replicate k TCPOPT_NOP) @ (TCPOPT_SIGNATURE # of_nat TCPOLEN_SIGNATURE # replicate (TCPOLEN_SIGNATURE - 2) 0)"
  have "add_option TOF_SIGNATURE to out = Inr (to\<lparr>to_signature := Some (length out + k + 2)\<rparr>, ?o)"
    using le by (simp add: add_option_def tof_consts Let_def k(1) opt_room_eq TCPOLEN_SIGNATURE_def)
  from add_loop_take[OF True _ this, of msks] show ?thesis
    using parses_trans[OF parses_trans[OF assms(1) parses_nop[of _ _ _ k]] parses_signature[of syn ds t]] True assms(2) le k(4) assms(3) g
    by (intro exI[of _ "Some (length out + k + 2)"] exI[of _ ?o]) (simp add: TCPOLEN_SIGNATURE_def)
next
  case False
  then show ?thesis using add_loop_skip[OF False, of msks out] assms
    by (intro exI[of _ "to_signature to"] exI[of _ out]) simp
qed

subsection \<open>Blocks and the end of the options\<close>

lemma length_sack_bytes: "length (sack_bytes b) = 8" by (simp add: sack_bytes_def)

lemma length_sacks: "length (concat (map sack_bytes bs)) = 8 * length bs"
  by (induction bs) (simp_all add: length_sack_bytes)

lemma sack_of_bytes_0: "sack_of_bytes (sack_bytes b @ rest) 0 = b"
  by (simp add: sack_of_bytes_def sack_bytes_def be_num_be32)

lemma sack_of_bytes_Suc: "sack_of_bytes (sack_bytes b @ rest) (Suc i) = sack_of_bytes rest i"
proof -
  have "drop (Suc i * TCPOLEN_SACK) (sack_bytes b @ rest) = drop (i * TCPOLEN_SACK) rest"
    by (simp add: length_sack_bytes TCPOLEN_SACK_def)
  then show ?thesis by (simp only: sack_of_bytes_def)
qed

lemma sack_option_blocks: "sack_option (Some (length bs, concat (map sack_bytes bs) @ rest)) = bs"
proof (induction bs)
  case (Cons b bs)
  have "[0..<length (b # bs)] = 0 # map Suc [0..<length bs]" by (simp add: upt_conv_Cons map_Suc_upt del: upt_Suc)
  then show ?case using Cons by (simp add: sack_of_bytes_0 sack_of_bytes_Suc comp_def del: upt_Suc)
qed simp

lemma round4:
  fixes a :: nat
  shows "(a + (4 - a mod 4) mod 4) mod 4 = 0" "a \<le> 40 \<Longrightarrow> a + (4 - a mod 4) mod 4 \<le> 40"
proof -
  obtain q r where a: "a = 4 * q + r" "r < 4" using mult_div_mod_eq[of 4 a] mod_less_divisor[of 4 a] by (metis zero_less_numeral)
  then have "r = 0 \<or> r = 1 \<or> r = 2 \<or> r = 3" by linarith
  then show "(a + (4 - a mod 4) mod 4) mod 4 = 0" "a \<le> 40 \<Longrightarrow> a + (4 - a mod 4) mod 4 \<le> 40" unfolding a(1) by auto
qed

lemma parse_end:
  "\<exists>e. opt_end out = out @ e \<and> (\<forall>syn ds t. parse_all syn ds t e = Inr t)" (is ?A)
  "length (opt_end out) mod 4 = 0" (is ?B)
  "length out \<le> 40 \<Longrightarrow> length (opt_end out) \<le> 40"
proof -
  define e where "e = (if length out mod 4 \<noteq> 0 then TCPOPT_EOL # replicate ((4 - Suc (length out) mod 4) mod 4) TCPOPT_PAD else [])"
  have o: "opt_end out = out @ e" by (simp add: opt_end_def e_def Let_def)
  have len: "length e = (4 - length out mod 4) mod 4" unfolding e_def by (simp add: mod_Suc) presburger
  have ln: "length (opt_end out) = length out + (4 - length out mod 4) mod 4" by (simp add: o len)
  show ?B unfolding ln by (rule round4)
  show "length (opt_end out) \<le> 40" if "length out \<le> 40" unfolding ln using that by (rule round4)
  have "parse_all syn ds t e = Inr t" for syn ds t
    by (auto simp: e_def parse_all_def dooptions_loop.simps[of syn ds t] opt_len_def opt_byte_def)
  then show ?A using o by blast
qed

lemma parse_sack:
  assumes "n = length bs" "n \<le> 4" "\<And>t. parse_all syn ds t rest = Inr t"
  shows "parse_all syn ds t (TCPOPT_SACK # of_nat (TCPOLEN_SACKHDR + n * TCPOLEN_SACK) # concat (map sack_bytes bs) @ rest) =
    Inr (if syn \<or> n = 0 then t
         else t\<lparr>to_flags := to_flags t OR TOF_SACK, to_nsacks := of_nat n, to_sacks := Opt_bytes (concat (map sack_bytes bs) @ rest)\<rparr>)"
    (is "parse_all syn ds t ?c = Inr ?t")
proof -
  define w where "w = (of_nat (TCPOLEN_SACKHDR + n * TCPOLEN_SACK) :: byte)"
  have "unat (of_nat (2 + n * 8) :: byte) = 2 + n * 8" unfolding unat_of_nat using assms(2) by simp
  then have l: "unat w = 2 + n * 8" by (simp add: opt_consts w_def)
  have "uint w = int (unat w)" by simp
  then have u: "uint w = 2 + int n * 8" unfolding l by simp
  have len: "length ?c = 2 + n * 8 + length rest" using length_sacks[of bs] assms(1) by simp
  have "opt_len ?c (int (length ?c)) = Inr (Some (2 + n * 8))"
    unfolding w_def[symmetric] using l u by (simp add: length_sacks assms(1)[symmetric] opt_len_def opt_byte_def TCPOPT_SACK_def TCPOPT_EOL_def TCPOPT_NOP_def)
  moreover have "do_option syn ds t ?c (2 + n * 8) = Inr ?t"
    by (auto simp: do_option_def opt_byte_def opt_consts)
  ultimately have "parse_all syn ds t ?c = parse_all syn ds ?t (drop (2 + n * 8) ?c)"
    using len by (intro parse_all_step) auto
  moreover have "drop (2 + n * 8) ?c = rest" using length_sacks[of bs] assms(1) by simp
  ultimately show ?thesis using assms(3) by simp
qed

text \<open>The last stage: what the whole option area reads as.\<close>

lemma stage_sack:
  assumes p: "parses syn ds t0 out t" and e: "even (length out)" "length out \<le> 40"
    and b: "to_sacks to = Blk_array blks" "length blks = unat (to_nsacks to)"
    and w: "n = (if has to TOF_SACK then min (length blks) ((36 - 4 * (length out div 4)) div 8) else 0)"
  shows "\<exists>out' rest. add_loop [TOF_SACK] to out = Inr (to, out') \<and> length out' \<le> 40 \<and>
    parse_all syn ds t0 (opt_end out') = Inr (if syn \<or> n = 0 then t
      else t\<lparr>to_flags := to_flags t OR TOF_SACK, to_nsacks := of_nat n, to_sacks := Opt_bytes (concat (map sack_bytes (take n blks)) @ rest)\<rparr>)"
proof (cases "has to TOF_SACK \<and> length out < 40")
  case True
  obtain k where k: "pad_nop 4 2 out = out @ replicate k TCPOPT_NOP" "(length out + k) mod 4 = 2" "k \<le> 2" "even k"
    using pad_nop_4[OF e(1), of 2] by blast
  have lt: "length out < 40" using True by simp
  have g: "length out + k = 4 * (length out div 4) + 2" by (rule pad_group[OF e(1) k(2-4)])
  have le: "length out + k \<le> 38" using k(2,3) lt e(1) by presburger
  let ?p = "out @ replicate k TCPOPT_NOP"
  have pp: "parses syn ds t0 ?p t" using parses_trans[OF p parses_nop] .
  have "(38 - (length out + k)) div 8 = (36 - 4 * (length out div 4)) div 8" unfolding g by simp
  then have n_def: "n = min (unat (to_nsacks to)) ((38 - (length out + k)) div 8)" using w True b(2) by simp
  have n: "n \<le> 4" "n \<le> length blks" using b(2) by (simp_all add: n_def)
  show ?thesis
  proof (cases "opt_room ?p < 10")
    case r: True
    have "add_loop [TOF_SACK] to out = Inr (to, ?p)"
      using r True by (intro trans[OF add_loop_take[of to TOF_SACK out to ?p]])
        (simp_all add: add_option_def tof_consts Let_def k(1) opt_consts)
    moreover obtain x where x: "opt_end ?p = ?p @ x" "\<And>syn ds t. parse_all syn ds t x = Inr t" using parse_end(1) by blast
    moreover have "(38 - (length out + k)) div 8 = 0" using r le g by (simp add: opt_room_eq)
    then have "n = 0" by (simp add: n_def)
    ultimately show ?thesis using pp le True unfolding parses_def by (intro exI[of _ ?p]) simp
  next
    case r: False
    let ?c = "TCPOPT_SACK # of_nat (TCPOLEN_SACKHDR + n * TCPOLEN_SACK) # concat (map sack_bytes (take n blks))"
    have "unat (of_nat TCP_MAXOLEN - of_nat (length (?p @ [TCPOPT_SACK]) + 1) :: 64 word) = 38 - (length out + k)"
      using le by (subst room_word) simp_all
    then have a: "add_sack to ?p = Inr (?p @ ?c)"
      using n(2) by (simp only: add_sack_def Let_def b(1) sacks_ptr.case) (simp add: n_def TCPOLEN_SACK_def)
    have lp: "add_loop [TOF_SACK] to out = Inr (to, ?p @ ?c)"
      using r True a by (intro trans[OF add_loop_take[of to TOF_SACK out to "?p @ ?c"]])
        (simp_all add: add_option_def tof_consts Let_def k(1) TCPOLEN_SACKHDR_def TCPOLEN_SACK_def)
    obtain x where x: "opt_end (?p @ ?c) = (?p @ ?c) @ x" "\<And>syn ds t. parse_all syn ds t x = Inr t" using parse_end(1) by blast
    have ln: "length (take n blks) = n" using n(2) by simp
    have "length (?p @ ?c) \<le> 40" using le length_sacks[of "take n blks"] ln by (simp add: n_def) linarith
    moreover have "parse_all syn ds t0 (opt_end (?p @ ?c)) = parse_all syn ds t (?c @ x)"
      using pp[unfolded parses_def, rule_format, of "?c @ x"] unfolding x(1) by simp
    ultimately show ?thesis using lp True parse_sack[OF ln[symmetric] n(1) x(2), of syn ds t]
      by (intro exI[of _ "?p @ ?c"] exI[of _ x]) simp
  qed
next
  case False
  have "add_loop [TOF_SACK] to out = Inr (to, out)"
    using False e(2) by (auto simp: has_def TCP_MAXOLEN_def)
  moreover obtain x where "opt_end out = out @ x" "\<And>syn ds t. parse_all syn ds t x = Inr t" using parse_end(1) by blast
  moreover have "length out = 40" if "has to TOF_SACK" using False e(2) that by simp
  then have "n = 0" unfolding w by simp
  ultimately show ?thesis using p e(2) unfolding parses_def by (intro exI[of _ out]) simp
qed

subsection \<open>The option area as a whole\<close>

lemma has_upd [simp]:
  "has (to\<lparr>to_mss := a\<rparr>) f = has to f" "has (to\<lparr>to_tsval := b, to_tsecr := c\<rparr>) f = has to f" "has (to\<lparr>to_signature := s\<rparr>) f = has to f"
  by (simp_all add: has_def)

lemma upd_sel:
  "to_wscale (to\<lparr>to_mss := a\<rparr>) = to_wscale to" "to_tsval (to\<lparr>to_mss := a\<rparr>) = to_tsval to" "to_tsecr (to\<lparr>to_mss := a\<rparr>) = to_tsecr to"
  by simp_all

lemma tof_masks_eq: "tof_masks = [TOF_MSS, TOF_SCALE, TOF_SACKPERM, 0x08, TOF_TS, 0x20, TOF_SIGNATURE, TOF_SACK]"
  by (simp add: tof_masks_def tof_consts)

lemma has_unknown:
  assumes "to_flags to AND 0x28 = 0"
  shows "\<not> has to 0x08" "\<not> has to 0x20"
proof -
  have "to_flags to AND 0x08 = (to_flags to AND 0x28) AND 0x08" "to_flags to AND 0x20 = (to_flags to AND 0x28) AND 0x20"
    by (simp_all add: and.assoc)
  then show "\<not> has to 0x08" "\<not> has to 0x20" using assms by (simp_all add: has_def)
qed

definition on :: "bool \<Rightarrow> 64 word \<Rightarrow> 64 word" where "on b f = (if b then f else 0)"

lemma flags_on: "(if b then t\<lparr>to_flags := to_flags t OR f\<rparr> else t) = t\<lparr>to_flags := to_flags t OR on b f\<rparr>"
  by (simp add: on_def)

text \<open>How many selective blocks fit behind the other options: \<open>TCP_MAXOLEN\<close> bytes without those of the other options with their padding and
  without the padding and the header of this one, at eight bytes a block.\<close>

definition sack_fits :: "tcpopt \<Rightarrow> nat" where
  "sack_fits to =
     (36 - ((if has to TOF_MSS then 4 else 0) + (if has to TOF_SCALE then 4 else 0) + (if has to TOF_TS then 12 else 0) +
            (if has to TOF_SIGNATURE then 20 else 0))) div 8"

definition sacks_sent :: "bool \<Rightarrow> tcpopt \<Rightarrow> sackblk list \<Rightarrow> nat" where
  "sacks_sent syn to blks = (if has to TOF_SACK \<and> \<not> syn then min (length blks) (sack_fits to) else 0)"

lemma tcp_addoptions_parse:
  assumes u: "to_flags to AND 0x28 = 0" and b: "to_sacks to = Blk_array blks" "length blks = unat (to_nsacks to)"
  shows "\<exists>to' out n r. tcp_addoptions to = Inr (to', opt_end out) \<and> length out \<le> 40 \<and> n = sacks_sent syn to blks \<and>
    parse_all syn ds t0 (opt_end out) = Inr r \<and>
    to_flags r = to_flags t0 OR on (syn \<and> has to TOF_MSS) TOF_MSS OR on (syn \<and> has to TOF_SCALE) TOF_SCALE OR
      on (syn \<and> ds \<and> has to TOF_SACKPERM) TOF_SACKPERM OR on (has to TOF_TS) TOF_TS OR on (n \<noteq> 0) TOF_SACK \<and>
    (syn \<and> has to TOF_MSS \<longrightarrow> to_mss r = to_mss to) \<and>
    (syn \<and> has to TOF_SCALE \<longrightarrow> to_wscale r = min (to_wscale to) TCP_MAX_WINSHIFT) \<and>
    (has to TOF_TS \<longrightarrow> to_tsval r = to_tsval to \<and> to_tsecr r = to_tsecr to) \<and>
    (n \<noteq> 0 \<longrightarrow> (\<exists>bytes. to_sacks r = Opt_bytes bytes \<and> sack_option (Some (unat (to_nsacks r), bytes)) = take n blks))"
proof -
  define t1 where "t1 = (if has to TOF_MSS \<and> syn then t0\<lparr>to_flags := to_flags t0 OR TOF_MSS, to_mss := to_mss to\<rparr> else t0)"
  define t2 where "t2 = (if has to TOF_SCALE \<and> syn then t1\<lparr>to_flags := to_flags t1 OR TOF_SCALE, to_wscale := min (to_wscale to) TCP_MAX_WINSHIFT\<rparr> else t1)"
  define t3 where "t3 = (if has to TOF_SACKPERM \<and> syn \<and> ds then t2\<lparr>to_flags := to_flags t2 OR TOF_SACKPERM\<rparr> else t2)"
  define t4 where "t4 = (if has to TOF_TS then t3\<lparr>to_flags := to_flags t3 OR TOF_TS, to_tsval := to_tsval to, to_tsecr := to_tsecr to\<rparr> else t3)"
  define m5 m4 m3 m2 m1 :: "64 word list" where "m5 = [TOF_SACK]" and "m4 = TOF_SIGNATURE # m5" and "m3 = 0x08 # TOF_TS # 0x20 # m4"
    and "m2 = TOF_SACKPERM # m3" and "m1 = TOF_SCALE # m2"
  have ms: "tof_masks = TOF_MSS # m1" by (simp add: tof_masks_eq m1_def m2_def m3_def m4_def m5_def)
  obtain x o1 where 1: "add_loop (TOF_MSS # m1) to [] = add_loop m1 (to\<lparr>to_mss := x\<rparr>) o1" "length o1 = (if has to TOF_MSS then 4 else 0)"
      "parses syn ds t0 o1 t1"
    using stage_mss[of m1 to syn ds t0] unfolding t1_def[symmetric] by (elim exE conjE) (rule that; assumption)
  let ?to1 = "to\<lparr>to_mss := x\<rparr>"
  have l1: "even (length o1)" "length o1 \<le> 4" using 1(2) by simp_all
  obtain o2 where 2: "add_loop m1 ?to1 o1 = add_loop m2 ?to1 o2" "length o2 = length o1 + (if has to TOF_SCALE then 4 else 0)"
      "parses syn ds t0 o2 t2"
    using stage_scale[OF 1(3) l1, of m2 ?to1] unfolding has_upd upd_sel t2_def[symmetric] m1_def[symmetric] by (elim exE conjE) (rule that; assumption)
  have l2: "even (length o2)" "length o2 \<le> 8" using l1 2(2) by simp_all
  obtain o3 where 3: "add_loop m2 ?to1 o2 = add_loop m3 ?to1 o3" "length o3 = length o2 + (if has to TOF_SACKPERM then 2 else 0)"
      "parses syn ds t0 o3 t3"
    using stage_sackperm[OF 2(3) l2, of m3 ?to1] unfolding has_upd t3_def[symmetric] m2_def[symmetric] by (elim exE conjE) (rule that; assumption)
  have l3: "even (length o3)" "length o3 \<le> 10" using l2 3(2) by simp_all
  have s3: "add_loop m3 ?to1 o3 = add_loop (TOF_TS # 0x20 # m4) ?to1 o3"
    unfolding m3_def by (rule add_loop_skip) (simp add: has_unknown[OF u])
  obtain y z o4 where 4: "add_loop (TOF_TS # 0x20 # m4) ?to1 o3 = add_loop (0x20 # m4) (?to1\<lparr>to_tsval := y, to_tsecr := z\<rparr>) o4"
      "even (length o4)" "length o4 \<le> 20" "length o4 div 4 = length o3 div 4 + (if has to TOF_TS then 3 else 0)" "parses syn ds t0 o4 t4"
    using stage_ts[OF 3(3) l3, of "0x20 # m4" ?to1] unfolding has_upd upd_sel t4_def[symmetric] by (elim exE conjE) (rule that; assumption)
  let ?to2 = "?to1\<lparr>to_tsval := y, to_tsecr := z\<rparr>"
  have s4: "add_loop (0x20 # m4) ?to2 o4 = add_loop m4 ?to2 o4"
    by (rule add_loop_skip) (simp add: has_unknown[OF u])
  obtain s o5 where 5: "add_loop m4 ?to2 o4 = add_loop m5 (?to2\<lparr>to_signature := s\<rparr>) o5" "even (length o5)" "length o5 \<le> 40"
      "length o5 div 4 = length o4 div 4 + (if has to TOF_SIGNATURE then 5 else 0)" "parses syn ds t0 o5 t4"
    using stage_signature[OF 4(5,2,3), of m5 ?to2] unfolding has_upd m4_def[symmetric] by (elim exE conjE) (rule that; assumption)
  let ?to3 = "?to2\<lparr>to_signature := s\<rparr>"
  have b3: "to_sacks ?to3 = Blk_array blks" "length blks = unat (to_nsacks ?to3)" using b by simp_all
  define n where "n = (if has to TOF_SACK then min (length blks) ((36 - 4 * (length o5 div 4)) div 8) else 0)"
  have n3: "n = (if has ?to3 TOF_SACK then min (length blks) ((36 - 4 * (length o5 div 4)) div 8) else 0)" unfolding n_def has_upd ..
  obtain out rest where 6: "add_loop m5 ?to3 o5 = Inr (?to3, out)" "length out \<le> 40"
      "parse_all syn ds t0 (opt_end out) = Inr (if syn \<or> n = 0 then t4
        else t4\<lparr>to_flags := to_flags t4 OR TOF_SACK, to_nsacks := of_nat n, to_sacks := Opt_bytes (concat (map sack_bytes (take n blks)) @ rest)\<rparr>)"
    using stage_sack[OF 5(5,2,3) b3 n3] unfolding m5_def[symmetric] by (elim exE conjE) (rule that; assumption)
  have "length o3 div 4 = (if has to TOF_MSS then 1 else 0) + (if has to TOF_SCALE then 1 else 0)" using 1(2) 2(2) 3(2) by simp
  then have "(36 - 4 * (length o5 div 4)) div 8 = sack_fits to" unfolding 5(4) 4(4) sack_fits_def by simp
  then have n: "n = (if has to TOF_SACK then min (length blks) (sack_fits to) else 0)" "n \<le> length blks"
    using n_def by simp_all
  have "(36 - 4 * (length o5 div 4)) div 8 \<le> 36 div 8" by (rule div_le_mono) simp
  then have n4: "n \<le> 4" unfolding n_def by (simp add: min.coboundedI2)
  define k where "k = (if syn then 0 else n)"
  define r where "r = (if k = 0 then t4
    else t4\<lparr>to_flags := to_flags t4 OR TOF_SACK, to_nsacks := of_nat n, to_sacks := Opt_bytes (concat (map sack_bytes (take n blks)) @ rest)\<rparr>)"
  have "unat (of_nat n :: byte) = n" unfolding unat_of_nat using n4 by simp
  then have so: "sack_option (Some (unat (of_nat n :: byte), concat (map sack_bytes (take n blks)) @ rest)) = take n blks"
    using sack_option_blocks[of "take n blks" rest] n(2) by simp
  have fl: "to_flags r = to_flags t4 OR on (k \<noteq> 0) TOF_SACK" "to_flags t4 = to_flags t3 OR on (has to TOF_TS) TOF_TS"
      "to_flags t3 = to_flags t2 OR on (syn \<and> ds \<and> has to TOF_SACKPERM) TOF_SACKPERM"
      "to_flags t2 = to_flags t1 OR on (syn \<and> has to TOF_SCALE) TOF_SCALE" "to_flags t1 = to_flags t0 OR on (syn \<and> has to TOF_MSS) TOF_MSS"
    by (simp_all add: r_def t4_def t3_def t2_def t1_def on_def conj_commute)
  have "tcp_addoptions to = Inr (?to3, opt_end out)"
    unfolding tcp_addoptions_def ms 1(1) 2(1) 3(1) s3 4(1) s4 5(1) 6(1) by simp
  moreover have "parse_all syn ds t0 (opt_end out) = Inr r" unfolding 6(3) by (simp add: r_def k_def)
  moreover have "to_flags r = to_flags t0 OR on (syn \<and> has to TOF_MSS) TOF_MSS OR on (syn \<and> has to TOF_SCALE) TOF_SCALE OR
      on (syn \<and> ds \<and> has to TOF_SACKPERM) TOF_SACKPERM OR on (has to TOF_TS) TOF_TS OR on (k \<noteq> 0) TOF_SACK"
    unfolding fl by (simp only: or.assoc)
  moreover have "to_mss r = to_mss t1" "to_wscale r = to_wscale t2" "to_tsval r = to_tsval t4" "to_tsecr r = to_tsecr t4"
    by (simp_all add: r_def t4_def t3_def t2_def)
  moreover have kn: "sacks_sent syn to blks = k" by (simp add: k_def n(1) sacks_sent_def)
  ultimately show ?thesis unfolding kn using 6(2) so
    by (intro exI[of _ ?to3] exI[of _ out] exI[of _ k] exI[of _ r]) (simp add: t1_def t2_def t4_def, simp add: k_def r_def)
qed

subsection \<open>Any bytes at all\<close>

definition opt_sane :: "nat \<Rightarrow> tcpopt \<Rightarrow> bool" where
  "opt_sane len r \<longleftrightarrow> (has r TOF_SCALE \<longrightarrow> to_wscale r \<le> TCP_MAX_WINSHIFT) \<and>
     (has r TOF_SACK \<longrightarrow> (\<exists>bytes. to_sacks r = Opt_bytes bytes \<and> 0 < to_nsacks r \<and> unat (to_nsacks r) * TCPOLEN_SACK \<le> length bytes) \<and>
        unat (to_nsacks r) * TCPOLEN_SACK + 2 \<le> len)"

lemma opt_len_ok:
  assumes "0 < cnt" "cnt \<le> int (length cp)"
  shows "\<exists>v. opt_len cp cnt = Inr v \<and> (case v of None \<Rightarrow> True | Some n \<Rightarrow> int n \<le> cnt \<and> n < 256)"
proof -
  have "unat l < 256" for l :: byte using unsigned_less[of l, where 'a = nat] by simp
  then show ?thesis using assms by (cases cp) (auto simp: opt_len_def opt_byte_def)
qed

lemma has_or: "has (t\<lparr>to_flags := to_flags t OR f\<rparr>) g \<longleftrightarrow> (to_flags t OR f) AND g = g" by (simp add: has_def)

lemma or_other: "f AND g = 0 \<Longrightarrow> (x OR f) AND g = x AND (g :: 64 word)"
  by (simp add: bit.conj_disj_distrib2)

lemma do_option_ok:
  assumes n: "int n \<le> int (length cp)" "n < 256" "n \<le> len" "0 < n" and s: "opt_sane len t"
  shows "\<exists>t'. do_option syn ds t cp n = Inr t' \<and> opt_sane len t'"
proof -
  have sacks: "0 < (of_nat ((n - 2) div 8) :: byte) \<and> unat (of_nat ((n - 2) div 8) :: byte) * 8 \<le> length (drop 2 cp) \<and>
      unat (of_nat ((n - 2) div 8) :: byte) * 8 + 2 \<le> len" if "2 < n" "(n - 2) mod 8 = 0"
  proof -
    have d: "(n - 2) div 8 * 8 = n - 2" using div_mult_mod_eq[of "n - 2" 8] that(2) by simp
    then have "0 < (n - 2) div 8" using that(1) by (cases "(n - 2) div 8") auto
    moreover have u: "unat (of_nat ((n - 2) div 8) :: byte) = (n - 2) div 8" unfolding unat_of_nat using n(2) by simp
    ultimately show ?thesis using d n that(1) by (simp add: word_less_nat_alt u) linarith
  qed
  have "cp \<noteq> []" using n by auto
  then have o: "opt_byte cp 0 = Inr (hd cp)" by (cases cp) (simp_all add: opt_byte_def)
  show ?thesis using n(1,4) s sacks
    by (auto simp: do_option_def o opt_byte_def opt_bytes_def opt_sane_def has_def or_other tof_consts opt_consts)
qed

lemma dooptions_ok:
  "cnt \<le> int (length cp) \<Longrightarrow> cnt \<le> int len \<Longrightarrow> opt_sane len t \<Longrightarrow> \<exists>r. dooptions_loop syn ds t cp cnt = Inr r \<and> opt_sane len r"
proof (induction syn ds t cp cnt rule: dooptions_loop.induct)
  case (1 syn ds t cp cnt)
  show ?case
  proof (cases "0 < cnt")
    case True
    obtain v where v: "opt_len cp cnt = Inr v" "case v of None \<Rightarrow> True | Some n \<Rightarrow> int n \<le> cnt \<and> n < 256"
      using opt_len_ok[OF True 1(2)] by blast
    show ?thesis
    proof (cases v)
      case None
      then show ?thesis using v 1(4) True by (simp add: dooptions_loop.simps[of syn ds t])
    next
      case (Some n)
      have n: "int n \<le> cnt" "n < 256" "0 < n" using v Some opt_len_pos by auto
      obtain t' where t': "do_option syn ds t cp n = Inr t'" "opt_sane len t'"
        using do_option_ok[of n cp len t syn ds] n 1(2,3,4) by auto
      have "\<exists>r. dooptions_loop syn ds t' (drop n cp) (cnt - int n) = Inr r \<and> opt_sane len r"
        using n 1(2,3) t' by (intro 1(1)[OF True v(1)[unfolded Some] refl t'(1)]) auto
      then show ?thesis using v t' Some True by (simp add: dooptions_loop.simps[of syn ds t])
    qed
  next
    case False
    then show ?thesis using 1(4) by (simp add: dooptions_loop.simps[of syn ds t])
  qed
qed

subsection \<open>Properties\<close>

lemmas has_simps = has_def on_def tof_consts


definition sample_ack :: tcpopt where
  "sample_ack = \<lparr>to_flags = 0x90, to_tsval = 5, to_tsecr = 6, to_sacks = Blk_array [\<lparr>blk_start = 100, blk_end = 200\<rparr>], to_signature = None,
     to_mss = 0, to_wscale = 0, to_nsacks = 1\<rparr>"



text \<open>C31: the writer never exceeds the 40 bytes a header has for options and pads them to a multiple of four.\<close>

theorem tcp_addoptions_bounded:
  assumes "to_flags to AND 0x28 = 0" "to_sacks to = Blk_array blks" "length blks = unat (to_nsacks to)"
  shows "\<exists>to' bs. tcp_addoptions to = Inr (to', bs) \<and> length bs \<le> TCP_MAXOLEN \<and> length bs mod 4 = 0"
proof -
  obtain to' out where "tcp_addoptions to = Inr (to', opt_end out)" "length out \<le> 40"
    using tcp_addoptions_parse[OF assms, where syn = True and ds = True and ?t0.0 = to] by (elim exE conjE) (rule that; assumption)
  then show ?thesis using parse_end(2,3)[of out] by (simp add: TCP_MAXOLEN_def)
qed

theorem tcp_addoptions_bounded_witness:
  "\<exists>to' bs. tcp_addoptions sample_ack = Inr (to', bs) \<and> length bs \<le> TCP_MAXOLEN \<and> length bs mod 4 = 0"
  by (rule tcp_addoptions_bounded[where blks = "[\<lparr>blk_start = 100, blk_end = 200\<rparr>]"]) (simp_all add: sample_ack_def)

text \<open>C19: the reader returns on any bytes, reads nothing outside the \<open>cnt\<close> bytes it was given, and reports no window scale above 14 and no
  selective block that is not inside the options.\<close>

theorem tcp_dooptions_safe:
  assumes "cnt \<le> int (length cp)"
  shows "\<exists>r. tcp_dooptions ds t0 cp cnt syn = Inr r \<and> opt_sane (nat cnt) r"
proof -
  have "opt_sane (nat cnt) (t0\<lparr>to_flags := 0\<rparr>)" by (simp add: opt_sane_def has_simps)
  from dooptions_ok[OF assms _ this] show ?thesis by (simp add: tcp_dooptions_def)
qed

theorem tcp_dooptions_safe_witness: "\<exists>r. tcp_dooptions True sample_ack [5, 10, 1, 2, 3] 5 False = Inr r \<and> opt_sane 5 r"
  using tcp_dooptions_safe[of 5 "[5, 10, 1, 2, 3]" True sample_ack False] by simp

end
