(* ===== verification/Bpf.thy ===== *)
theory Bpf
  imports Mbuf
begin

text \<open>
  The packet filter machine: \<open>sys/net/bpf_filter.c\<close> with the encodings of \<open>sys/net/bpf.h\<close>.

  A program is a list of instructions, the program counter an index.  The packet is a flat buffer of \<open>buflen\<close> bytes, or, when \<open>buflen\<close> is
  0, an mbuf chain behind the same pointer; taking a flat buffer for an mbuf is \<open>Inl Out_of_bounds\<close>, as is running past the program, the
  scratch memory or the storage of an mbuf.  Shifting a 32-bit number by 32 or more is undefined in C and is \<open>Inl Bad_shift\<close> here.

  Jumps only go forward, so the interpreter is total: it stops at a return or leaves the program.
\<close>

subsection \<open>Encodings\<close>

record bpf_insn =
  code :: "16 word"
  jt :: byte
  jf :: byte
  bk :: u32

definition BPF_MEMWORDS :: nat where "BPF_MEMWORDS = 16"

definition BPF_CLASS :: "16 word \<Rightarrow> 16 word" where "BPF_CLASS c = c AND 0x07"

abbreviation (input) BPF_LD :: "16 word" where "BPF_LD \<equiv> 0x00"
abbreviation (input) BPF_LDX :: "16 word" where "BPF_LDX \<equiv> 0x01"
abbreviation (input) BPF_ST :: "16 word" where "BPF_ST \<equiv> 0x02"
abbreviation (input) BPF_STX :: "16 word" where "BPF_STX \<equiv> 0x03"
abbreviation (input) BPF_ALU :: "16 word" where "BPF_ALU \<equiv> 0x04"
abbreviation (input) BPF_JMP :: "16 word" where "BPF_JMP \<equiv> 0x05"
abbreviation (input) BPF_RET :: "16 word" where "BPF_RET \<equiv> 0x06"
abbreviation (input) BPF_MISC :: "16 word" where "BPF_MISC \<equiv> 0x07"

datatype src = SRC_K | SRC_X
datatype alu_op = BPF_ADD | BPF_SUB | BPF_MUL | BPF_DIV | BPF_OR | BPF_AND | BPF_LSH | BPF_RSH
datatype jmp_op = BPF_JEQ | BPF_JGT | BPF_JGE | BPF_JSET

datatype bpf_op = RET_K | RET_A | LD_W_ABS | LD_H_ABS | LD_B_ABS | LD_W_LEN | LDX_W_LEN | LD_W_IND | LD_H_IND | LD_B_IND
  | LDX_MSH_B | LD_IMM | LDX_IMM | LD_MEM | LDX_MEM | OP_ST | OP_STX | JMP_JA | OP_JMP jmp_op src | OP_ALU alu_op src | ALU_NEG
  | MISC_TAX | MISC_TXA

text \<open>The labels of the \<open>switch\<close>: class, size (\<open>BPF_H\<close> 0x08, \<open>BPF_B\<close> 0x10), mode (\<open>BPF_ABS\<close> 0x20, \<open>BPF_IND\<close> 0x40, \<open>BPF_MEM\<close> 0x60,
  \<open>BPF_LEN\<close> 0x80, \<open>BPF_MSH\<close> 0xa0), operation and source (\<open>BPF_X\<close> 0x08).\<close>

definition opcodes :: "(16 word \<times> bpf_op) list" where
  "opcodes =
    [(BPF_RET + 0x00, RET_K), (BPF_RET + 0x10, RET_A),
     (BPF_LD + 0x20, LD_W_ABS), (BPF_LD + 0x28, LD_H_ABS), (BPF_LD + 0x30, LD_B_ABS),
     (BPF_LD + 0x80, LD_W_LEN), (BPF_LDX + 0x80, LDX_W_LEN),
     (BPF_LD + 0x40, LD_W_IND), (BPF_LD + 0x48, LD_H_IND), (BPF_LD + 0x50, LD_B_IND),
     (BPF_LDX + 0xb0, LDX_MSH_B), (BPF_LD, LD_IMM), (BPF_LDX, LDX_IMM),
     (BPF_LD + 0x60, LD_MEM), (BPF_LDX + 0x60, LDX_MEM), (BPF_ST, OP_ST), (BPF_STX, OP_STX),
     (BPF_JMP, JMP_JA),
     (BPF_JMP + 0x20, OP_JMP BPF_JGT SRC_K), (BPF_JMP + 0x30, OP_JMP BPF_JGE SRC_K),
     (BPF_JMP + 0x10, OP_JMP BPF_JEQ SRC_K), (BPF_JMP + 0x40, OP_JMP BPF_JSET SRC_K),
     (BPF_JMP + 0x28, OP_JMP BPF_JGT SRC_X), (BPF_JMP + 0x38, OP_JMP BPF_JGE SRC_X),
     (BPF_JMP + 0x18, OP_JMP BPF_JEQ SRC_X), (BPF_JMP + 0x48, OP_JMP BPF_JSET SRC_X),
     (BPF_ALU + 0x08, OP_ALU BPF_ADD SRC_X), (BPF_ALU + 0x18, OP_ALU BPF_SUB SRC_X),
     (BPF_ALU + 0x28, OP_ALU BPF_MUL SRC_X), (BPF_ALU + 0x38, OP_ALU BPF_DIV SRC_X),
     (BPF_ALU + 0x58, OP_ALU BPF_AND SRC_X), (BPF_ALU + 0x48, OP_ALU BPF_OR SRC_X),
     (BPF_ALU + 0x68, OP_ALU BPF_LSH SRC_X), (BPF_ALU + 0x78, OP_ALU BPF_RSH SRC_X),
     (BPF_ALU + 0x00, OP_ALU BPF_ADD SRC_K), (BPF_ALU + 0x10, OP_ALU BPF_SUB SRC_K),
     (BPF_ALU + 0x20, OP_ALU BPF_MUL SRC_K), (BPF_ALU + 0x30, OP_ALU BPF_DIV SRC_K),
     (BPF_ALU + 0x50, OP_ALU BPF_AND SRC_K), (BPF_ALU + 0x40, OP_ALU BPF_OR SRC_K),
     (BPF_ALU + 0x60, OP_ALU BPF_LSH SRC_K), (BPF_ALU + 0x70, OP_ALU BPF_RSH SRC_K),
     (BPF_ALU + 0x80, ALU_NEG), (BPF_MISC, MISC_TAX), (BPF_MISC + 0x80, MISC_TXA)]"

definition bpf_decode :: "16 word \<Rightarrow> bpf_op option" where
  "bpf_decode c = map_of opcodes c"

subsection \<open>Reading the packet\<close>

datatype packet = Flat "byte list" | Chain chain

definition buflen :: "packet \<Rightarrow> u32" where
  "buflen p = (case p of Flat bs \<Rightarrow> of_nat (length bs) | Chain _ \<Rightarrow> 0)"

definition m_read :: "mbuf \<Rightarrow> nat \<Rightarrow> nat \<Rightarrow> byte list res" where
  "m_read m i n = (if m_off m + i + n \<le> length (m_buf m) then Inr (m_bytes m i n) else Inl Out_of_bounds)"

fun xseek :: "chain \<Rightarrow> nat \<Rightarrow> (mbuf \<times> chain \<times> nat) option" where
  "xseek [] k = None"
| "xseek (m # ms) k = (if m_len m \<le> k then xseek ms (k - m_len m) else Some (m, ms, k))"

text \<open>The second component of the C functions, \<open>*err\<close>, is \<open>None\<close> here.\<close>

definition m_xword :: "chain \<Rightarrow> u32 \<Rightarrow> u32 option res" where
  "m_xword c k =
     (if c = [] then Inl Null_deref
      else case xseek c (unat k) of None \<Rightarrow> Inr None
      | Some (m, ms, k) \<Rightarrow>
          if m_len m - k \<ge> 4 then res_bind (m_read m k 4) (\<lambda>bs. Inr (Some (be_num bs)))
          else (case ms of [] \<Rightarrow> Inr None
            | m0 # _ \<Rightarrow>
                if m_len m0 + m_len m - k < 4 then Inr None
                else res_bind (m_read m k (m_len m - k)) (\<lambda>cp. res_bind (m_read m0 0 (4 - (m_len m - k))) (\<lambda>np.
                  Inr (Some (be_num (cp @ np)))))))"

definition m_xhalf :: "chain \<Rightarrow> u32 \<Rightarrow> 16 word option res" where
  "m_xhalf c k =
     (if c = [] then Inl Null_deref
      else case xseek c (unat k) of None \<Rightarrow> Inr None
      | Some (m, ms, k) \<Rightarrow>
          if m_len m - k \<ge> 2 then res_bind (m_read m k 2) (\<lambda>bs. Inr (Some (be_num bs)))
          else (case ms of [] \<Rightarrow> Inr None
            | m0 # _ \<Rightarrow> res_bind (m_read m k 1) (\<lambda>cp. res_bind (m_read m0 0 1) (\<lambda>np. Inr (Some (be_num (cp @ np)))))))"

definition MINDEX :: "chain \<Rightarrow> u32 \<Rightarrow> byte option res" where
  "MINDEX c k =
     (if c = [] then Inl Null_deref
      else case xseek c (unat k) of None \<Rightarrow> Inr None
      | Some (m, ms, k) \<Rightarrow> res_bind (m_read m k 1) (\<lambda>bs. Inr (Some (hd bs))))"

text \<open>A load at \<open>k\<close>: out of range of a flat buffer the program returns 0, \<open>None\<close> here, and \<open>mread\<close> reads a chain.\<close>

definition bpf_load :: "packet \<Rightarrow> bool \<Rightarrow> nat \<Rightarrow> u32 \<Rightarrow> (chain \<Rightarrow> u32 \<Rightarrow> 'a::len word option res) \<Rightarrow> 'a word option res" where
  "bpf_load p out n k mread =
     (if out then
        (if buflen p \<noteq> 0 then Inr None else case p of Chain c \<Rightarrow> mread c k | Flat _ \<Rightarrow> Inl Out_of_bounds)
      else case p of Flat bs \<Rightarrow> (if unat k + n \<le> length bs then Inr (Some (be_num (take n (drop (unat k) bs)))) else Inl Out_of_bounds)
        | Chain _ \<Rightarrow> Inl Out_of_bounds)"

subsection \<open>One instruction\<close>

record bpf_st =
  bA :: u32
  bX :: u32
  bmem :: "u32 list"

datatype bpf_out = Ret u32 | Next bpf_st nat

definition load_A :: "bpf_st \<Rightarrow> 'a::len word option res \<Rightarrow> bpf_out res" where
  "load_A st r = res_bind r (\<lambda>v. case v of None \<Rightarrow> Inr (Ret 0) | Some w \<Rightarrow> Inr (Next (st\<lparr>bA := ucast w\<rparr>) 0))"

definition exec_ld :: "u32 \<Rightarrow> packet \<Rightarrow> bpf_insn \<Rightarrow> bpf_st \<Rightarrow> bpf_op \<Rightarrow> bpf_out res" where
  "exec_ld wirelen p ins st op =
     (let k = bk ins; n = buflen p; X = bX st; kx = X + k in
      case op of
        LD_W_ABS \<Rightarrow> load_A st (bpf_load p (k > n \<or> 4 > n - k) 4 k m_xword)
      | LD_H_ABS \<Rightarrow> (let out = (k > n \<or> 2 > n - k) in
          if out \<and> n = 0 then
            res_bind (bpf_load p out 2 k m_xhalf) (\<lambda>v. Inr (Next (st\<lparr>bA := (case v of None \<Rightarrow> 0 | Some w \<Rightarrow> ucast w)\<rparr>) 0))
          else load_A st (bpf_load p out 2 k m_xhalf))
      | LD_B_ABS \<Rightarrow> load_A st (bpf_load p (k \<ge> n) 1 k MINDEX)
      | LD_W_LEN \<Rightarrow> Inr (Next (st\<lparr>bA := wirelen\<rparr>) 0)
      | LDX_W_LEN \<Rightarrow> Inr (Next (st\<lparr>bX := wirelen\<rparr>) 0)
      | LD_W_IND \<Rightarrow> load_A st (bpf_load p (k > n \<or> X > n - k \<or> 4 > n - kx) 4 kx m_xword)
      | LD_H_IND \<Rightarrow> load_A st (bpf_load p (X > n \<or> k > n - X \<or> 2 > n - kx) 2 kx m_xhalf)
      | LD_B_IND \<Rightarrow> load_A st (bpf_load p (k \<ge> n \<or> X \<ge> n - k) 1 kx MINDEX)
      | LDX_MSH_B \<Rightarrow> res_bind (bpf_load p (k \<ge> n) 1 k MINDEX) (\<lambda>v. case v of None \<Rightarrow> Inr (Ret 0)
          | Some w \<Rightarrow> Inr (Next (st\<lparr>bX := push_bit 2 (ucast w AND 0xf)\<rparr>) 0))
      | LD_IMM \<Rightarrow> Inr (Next (st\<lparr>bA := k\<rparr>) 0)
      | LDX_IMM \<Rightarrow> Inr (Next (st\<lparr>bX := k\<rparr>) 0)
      | _ \<Rightarrow> Inr (Ret 0))"

definition exec_mem :: "bpf_insn \<Rightarrow> bpf_st \<Rightarrow> bpf_op \<Rightarrow> bpf_out res" where
  "exec_mem ins st op =
     (if unat (bk ins) < length (bmem st) then
        (case op of
           LD_MEM \<Rightarrow> Inr (Next (st\<lparr>bA := bmem st ! unat (bk ins)\<rparr>) 0)
         | LDX_MEM \<Rightarrow> Inr (Next (st\<lparr>bX := bmem st ! unat (bk ins)\<rparr>) 0)
         | OP_ST \<Rightarrow> Inr (Next (st\<lparr>bmem := (bmem st)[unat (bk ins) := bA st]\<rparr>) 0)
         | OP_STX \<Rightarrow> Inr (Next (st\<lparr>bmem := (bmem st)[unat (bk ins) := bX st]\<rparr>) 0)
         | _ \<Rightarrow> Inr (Ret 0))
      else Inl Out_of_bounds)"

fun jmp_test :: "jmp_op \<Rightarrow> u32 \<Rightarrow> u32 \<Rightarrow> bool" where
  "jmp_test BPF_JGT a v = (a > v)"
| "jmp_test BPF_JGE a v = (a \<ge> v)"
| "jmp_test BPF_JEQ a v = (a = v)"
| "jmp_test BPF_JSET a v = (a AND v \<noteq> 0)"

fun alu :: "alu_op \<Rightarrow> src \<Rightarrow> u32 \<Rightarrow> u32 \<Rightarrow> u32 option res" where
  "alu BPF_ADD s a v = Inr (Some (a + v))"
| "alu BPF_SUB s a v = Inr (Some (a - v))"
| "alu BPF_MUL s a v = Inr (Some (a * v))"
| "alu BPF_DIV s a v = (if v = 0 then (if s = SRC_X then Inr None else Inl Div_by_zero) else Inr (Some (a div v)))"
| "alu BPF_AND s a v = Inr (Some (a AND v))"
| "alu BPF_OR s a v = Inr (Some (a OR v))"
| "alu BPF_LSH s a v = (if v < 32 then Inr (Some (push_bit (unat v) a)) else Inl Bad_shift)"
| "alu BPF_RSH s a v = (if v < 32 then Inr (Some (drop_bit (unat v) a)) else Inl Bad_shift)"

definition src_val :: "src \<Rightarrow> bpf_insn \<Rightarrow> bpf_st \<Rightarrow> u32" where
  "src_val s ins st = (case s of SRC_K \<Rightarrow> bk ins | SRC_X \<Rightarrow> bX st)"

definition bpf_exec1 :: "u32 \<Rightarrow> packet \<Rightarrow> bpf_insn \<Rightarrow> bpf_st \<Rightarrow> bpf_out res" where
  "bpf_exec1 wirelen p ins st =
     (case bpf_decode (code ins) of
        None \<Rightarrow> Inr (Ret 0)
      | Some op \<Rightarrow> (case op of
          RET_K \<Rightarrow> Inr (Ret (bk ins))
        | RET_A \<Rightarrow> Inr (Ret (bA st))
        | LD_MEM \<Rightarrow> exec_mem ins st op | LDX_MEM \<Rightarrow> exec_mem ins st op | OP_ST \<Rightarrow> exec_mem ins st op | OP_STX \<Rightarrow> exec_mem ins st op
        | JMP_JA \<Rightarrow> Inr (Next st (unat (bk ins)))
        | OP_JMP j s \<Rightarrow> Inr (Next st (unat (if jmp_test j (bA st) (src_val s ins st) then jt ins else jf ins)))
        | OP_ALU a s \<Rightarrow> load_A st (alu a s (bA st) (src_val s ins st))
        | ALU_NEG \<Rightarrow> Inr (Next (st\<lparr>bA := - bA st\<rparr>) 0)
        | MISC_TAX \<Rightarrow> Inr (Next (st\<lparr>bX := bA st\<rparr>) 0)
        | MISC_TXA \<Rightarrow> Inr (Next (st\<lparr>bA := bX st\<rparr>) 0)
        | _ \<Rightarrow> exec_ld wirelen p ins st op))"

subsection \<open>The interpreter\<close>

function bpf_run :: "bpf_insn list \<Rightarrow> u32 \<Rightarrow> packet \<Rightarrow> nat \<Rightarrow> bpf_st \<Rightarrow> u32 res" where
  "bpf_run prog wirelen p pc st =
     (if pc < length prog then
        (case bpf_exec1 wirelen p (prog ! pc) st of
           Inl f \<Rightarrow> Inl f
         | Inr (Ret v) \<Rightarrow> Inr v
         | Inr (Next st' off) \<Rightarrow> bpf_run prog wirelen p (pc + off + 1) st')
      else Inl Out_of_bounds)"
  by pat_completeness auto
termination
  by (relation "measure (\<lambda>(prog, _, _, pc, _). length prog - pc)") auto

declare bpf_run.simps [simp del]

definition bpf_filter :: "bpf_insn list option \<Rightarrow> packet \<Rightarrow> u32 \<Rightarrow> u32 res" where
  "bpf_filter prog p wirelen =
     (case prog of None \<Rightarrow> Inr (- 1)
      | Some f \<Rightarrow> bpf_run f wirelen p 0 \<lparr>bA = 0, bX = 0, bmem = replicate BPF_MEMWORDS 0\<rparr>)"

subsection \<open>The validator\<close>

definition bpf_code_map :: "16 word list" where
  "bpf_code_map = [0x10ff, 0x3070, 0x3131, 0x3031, 0x3131, 0x1011, 0x1013, 0x1010, 0x0093, 0, 0, 0x0002, 0, 0, 0, 0]"

definition BPF_VALIDATE_CODE :: "16 word \<Rightarrow> bool" where
  "BPF_VALIDATE_CODE c \<longleftrightarrow> c \<le> 0xff \<and> bpf_code_map ! unat (drop_bit 4 c) AND push_bit (unat (c AND 0xf)) 1 \<noteq> 0"

fun validate_loop :: "bpf_insn list \<Rightarrow> bool" where
  "validate_loop [] \<longleftrightarrow> True"
| "validate_loop (p # ps) \<longleftrightarrow>
     BPF_VALIDATE_CODE (code p) \<and>
     (if BPF_CLASS (code p) = BPF_JMP then
        (let offset = (if code p = BPF_JMP then bk p else if jt p > jf p then ucast (jt p) else ucast (jf p))
         in offset < (of_nat (length ps) :: u32))
      else if code p = BPF_ST \<or> code p = BPF_STX \<or> code p = BPF_LD + 0x60 \<or> code p = BPF_LDX + 0x60 then bk p < of_nat BPF_MEMWORDS
      else \<not> (code p = BPF_ALU + 0x30 \<and> bk p = 0)) \<and>
     validate_loop ps"

definition bpf_validate :: "bpf_insn list \<Rightarrow> int \<Rightarrow> bool" where
  "bpf_validate f len \<longleftrightarrow> 0 \<le> len \<and> (len = 0 \<or> validate_loop (take (nat len) f) \<and> BPF_CLASS (code (f ! (nat len - 1))) = BPF_RET)"

end
