(* ===== verification/Bpf_Safe.thy ===== *)
theory Bpf_Safe
  imports Bpf
begin

text \<open>
  What the packet filter machine does with a well-formed packet: the opcode table against the validator's bit map, the bytes the chain
  readers return, the range tests of the loads, and one instruction of a valid program.
\<close>

subsection \<open>Opcodes\<close>

lemma decode_all:
  assumes "bpf_decode c = Some op" "list_all (\<lambda>(c, op). P c op) opcodes"
  shows "P c op"
  using assms map_of_SomeD[of opcodes c op] by (auto simp: bpf_decode_def list_all_iff)

lemma decode_RET: "bpf_decode c = Some op \<Longrightarrow> BPF_CLASS c = BPF_RET \<longleftrightarrow> op = RET_K \<or> op = RET_A"
  by (erule decode_all) (simp add: opcodes_def BPF_CLASS_def)

lemma decode_JMP: "bpf_decode c = Some op \<Longrightarrow> BPF_CLASS c = BPF_JMP \<longleftrightarrow> op = JMP_JA \<or> (case op of OP_JMP j s \<Rightarrow> True | _ \<Rightarrow> False)"
  by (erule decode_all) (simp add: opcodes_def BPF_CLASS_def)

lemma decode_JA: "bpf_decode c = Some op \<Longrightarrow> op = JMP_JA \<longleftrightarrow> c = BPF_JMP"
  by (erule decode_all) (simp add: opcodes_def)

lemma decode_MEM: "bpf_decode c = Some op \<Longrightarrow> op \<in> {LD_MEM, LDX_MEM, OP_ST, OP_STX} \<longrightarrow>
  (c = BPF_ST \<or> c = BPF_STX \<or> c = BPF_LD + 0x60 \<or> c = BPF_LDX + 0x60) \<and> BPF_CLASS c \<noteq> BPF_JMP"
  by (erule decode_all) (simp add: opcodes_def BPF_CLASS_def)

lemma decode_DIV: "bpf_decode c = Some op \<Longrightarrow> op = OP_ALU BPF_DIV SRC_K \<longleftrightarrow> c = BPF_ALU + 0x30"
  by (erule decode_all) (simp add: opcodes_def)

definition codes_of :: "nat \<Rightarrow> 16 word list" where
  "codes_of h = map (\<lambda>l. of_nat (16 * h + l)) (filter (\<lambda>l. bit (bpf_code_map ! h) l) [0..<16])"

lemma codes_of_all: "concat (map codes_of [0..<16]) =
  [0, 1, 2, 3, 4, 5, 6, 7, 0xc, 0x14, 0x15, 0x16, 0x1c, 0x1d, 0x20, 0x24, 0x25, 0x28, 0x2c, 0x2d, 0x30, 0x34, 0x35, 0x3c, 0x3d,
   0x40, 0x44, 0x45, 0x48, 0x4c, 0x4d, 0x50, 0x54, 0x5c, 0x60, 0x61, 0x64, 0x6c, 0x74, 0x7c, 0x80, 0x81, 0x84, 0x87, 0xb1]"
  by (simp add: codes_of_def bpf_code_map_def upt_rec)

lemma BPF_VALIDATE_CODE_bit:
  "BPF_VALIDATE_CODE c \<longleftrightarrow> unat c < 256 \<and> bit (bpf_code_map ! (unat c div 16)) (unat c mod 16)"
proof -
  have "unat (drop_bit 4 c) = unat c div 16" by (simp add: drop_bit_eq_div unat_div)
  moreover have "unat (c AND 0xf) = unat c mod 16"
  proof -
    have "c AND 0xf = take_bit 4 c" by (simp add: take_bit_eq_mask mask_eq_exp_minus_1)
    then show ?thesis by (simp add: take_bit_eq_mod unat_mod)
  qed
  moreover have "(w AND push_bit n 1 \<noteq> 0) = bit w n" for w :: "16 word" and n
    by (simp add: bit_iff_and_push_bit_not_eq_0)
  moreover have "c \<le> 0xff \<longleftrightarrow> unat c < 256" by (auto simp: word_le_nat_alt)
  ultimately show ?thesis by (simp add: BPF_VALIDATE_CODE_def)
qed

lemma BPF_VALIDATE_CODE_list: "BPF_VALIDATE_CODE c \<longleftrightarrow> c \<in> set (concat (map codes_of [0..<16]))"
proof
  assume "BPF_VALIDATE_CODE c"
  then have lt: "unat c < 256" and b: "bit (bpf_code_map ! (unat c div 16)) (unat c mod 16)"
    by (simp_all add: BPF_VALIDATE_CODE_bit)
  have "c = of_nat (16 * (unat c div 16) + unat c mod 16)"
    unfolding mult_div_mod_eq by simp
  then have "c \<in> set (codes_of (unat c div 16))"
    unfolding codes_of_def set_map set_filter using b by (intro image_eqI[of _ _ "unat c mod 16"]) auto
  then show "c \<in> set (concat (map codes_of [0..<16]))" using lt by (simp only: set_concat set_map) auto
next
  assume "c \<in> set (concat (map codes_of [0..<16]))"
  then obtain h where h: "h < 16" and "c \<in> set (codes_of h)" by (simp only: set_concat set_map) auto
  then obtain l where "l < 16" and b: "bit (bpf_code_map ! h) l" and c: "c = of_nat (16 * h + l)"
    by (auto simp: codes_of_def)
  moreover have "unat c = 16 * h + l"
    unfolding c unat_of_nat using h \<open>l < 16\<close> by simp
  ultimately show "BPF_VALIDATE_CODE c" using h by (simp add: BPF_VALIDATE_CODE_bit)
qed

lemma decode_iff: "bpf_decode c \<noteq> None \<longleftrightarrow> c \<in> fst ` set opcodes"
  by (simp add: bpf_decode_def map_of_eq_None_iff)

lemma codes_eq: "set (concat (map codes_of [0..<16])) = set (map fst opcodes)"
  unfolding codes_of_all by (rule equalityI) (simp_all add: opcodes_def)

lemma validate_code_decode: "BPF_VALIDATE_CODE c \<longleftrightarrow> bpf_decode c \<noteq> None"
  unfolding BPF_VALIDATE_CODE_list codes_eq decode_iff by simp

subsection \<open>Reading a chain\<close>

definition wf_pkt_chain :: "chain \<Rightarrow> bool" where
  "wf_pkt_chain c \<longleftrightarrow> c \<noteq> [] \<and>
     (\<forall>m \<in> set c. \<not> is_hole m \<and> m_off m + m_len m \<le> length (m_buf m) \<and> m_off m < length (m_buf m))"

definition wf_packet :: "packet \<Rightarrow> bool" where
  "wf_packet p = (case p of Flat bs \<Rightarrow> 0 < length bs \<and> length bs < 2 ^ 32 | Chain c \<Rightarrow> wf_pkt_chain c)"

lemma xseek_Some:
  "xseek c k = Some (m, ms, k') \<Longrightarrow> \<exists>pre. c = pre @ m # ms \<and> k = chain_len pre + k' \<and> k' < m_len m"
proof (induction c arbitrary: k)
  case (Cons a c)
  show ?case
  proof (cases "m_len a \<le> k")
    case True
    then obtain pre where "c = pre @ m # ms" "k - m_len a = chain_len pre + k'" "k' < m_len m"
      using Cons by auto
    then show ?thesis using True by (intro exI[of _ "a # pre"]) auto
  next
    case False
    then show ?thesis using Cons.prems by (intro exI[of _ "[]"]) auto
  qed
qed simp

lemma xseek_None: "xseek c k = None \<longleftrightarrow> chain_len c \<le> k"
proof (induction c arbitrary: k)
  case (Cons a c)
  show ?case using Cons[of "k - m_len a"] by (cases "m_len a \<le> k") (simp_all add: le_diff_conv2 add.commute)
qed simp

lemma m_read_ok: "m_off m + i + n \<le> length (m_buf m) \<Longrightarrow> m_read m i n = Inr (m_bytes m i n)"
  by (simp add: m_read_def)

lemma plain_data: "\<not> is_hole m \<Longrightarrow> mbuf_data m = m_bytes m 0 (m_len m)"
  by (simp add: mbuf_data_def)

lemma plain_length: "\<not> is_hole m \<Longrightarrow> m_off m + m_len m \<le> length (m_buf m) \<Longrightarrow> length (mbuf_data m) = m_len m"
  by (simp add: plain_data m_bytes_def)

lemma pkt_length: "\<forall>m \<in> set c. \<not> is_hole m \<and> m_off m + m_len m \<le> length (m_buf m) \<Longrightarrow> length (chain_data c) = chain_len c"
  by (induction c) (auto simp: plain_length)

lemma m_bytes_data:
  "\<not> is_hole m \<Longrightarrow> i + n \<le> m_len m \<Longrightarrow> m_bytes m i n = take n (drop i (mbuf_data m))"
  by (simp add: plain_data m_bytes_def drop_take add.commute min_def)

text \<open>What the seek leaves: the data from offset \<open>k\<close> on is the rest of one mbuf and the mbufs behind it.\<close>

lemma xseek_data:
  assumes "wf_pkt_chain c" "xseek c k = Some (m, ms, k')"
  shows "drop k (chain_data c) = drop k' (mbuf_data m) @ chain_data ms" "k' < m_len m" "\<not> is_hole m"
    "m_off m + m_len m \<le> length (m_buf m)" "length (mbuf_data m) = m_len m"
    "chain_len c = k + (m_len m - k') + chain_len ms"
    "\<forall>m \<in> set ms. \<not> is_hole m \<and> m_off m + m_len m \<le> length (m_buf m) \<and> m_off m < length (m_buf m)" "m \<in> set c" "set ms \<subseteq> set c"
proof -
  obtain pre where c: "c = pre @ m # ms" "k = chain_len pre + k'" "k' < m_len m"
    using xseek_Some[OF assms(2)] by blast
  then have wf: "\<forall>m \<in> set pre. \<not> is_hole m \<and> m_off m + m_len m \<le> length (m_buf m)" "\<not> is_hole m" "m_off m + m_len m \<le> length (m_buf m)"
    and ms: "\<forall>m \<in> set ms. \<not> is_hole m \<and> m_off m + m_len m \<le> length (m_buf m) \<and> m_off m < length (m_buf m)"
    using assms(1) by (auto simp: wf_pkt_chain_def)
  show "drop k (chain_data c) = drop k' (mbuf_data m) @ chain_data ms"
    using c wf pkt_length[OF wf(1)] by (simp add: plain_length)
  show "length (mbuf_data m) = m_len m" using wf(2,3) by (rule plain_length)
  show "chain_len c = k + (m_len m - k') + chain_len ms" using c by simp
  show "m \<in> set c" "set ms \<subseteq> set c" using c(1) by auto
  show "k' < m_len m" by (rule c(3))
  show "\<not> is_hole m" by (rule wf(2))
  show "m_off m + m_len m \<le> length (m_buf m)" by (rule wf(3))
  show "\<forall>m \<in> set ms. \<not> is_hole m \<and> m_off m + m_len m \<le> length (m_buf m) \<and> m_off m < length (m_buf m)" by (rule ms)
qed

lemma wf_pkt_chain_ne: "wf_pkt_chain c \<Longrightarrow> c \<noteq> []" by (simp add: wf_pkt_chain_def)

lemma MINDEX_spec:
  assumes "wf_pkt_chain c"
  shows "MINDEX c k = Inr (if unat k < chain_len c then Some (chain_data c ! unat k) else None)"
proof (cases "xseek c (unat k)")
  case None
  then show ?thesis using assms xseek_None[of c "unat k"] by (simp add: MINDEX_def wf_pkt_chain_ne)
next
  case (Some t)
  obtain m ms k' where t: "t = (m, ms, k')" by (cases t)
  note x = xseek_data[OF assms Some[unfolded t]]
  have r: "m_read m k' 1 = Inr (m_bytes m k' 1)" using x(2,4) by (intro m_read_ok) simp
  have "hd (m_bytes m k' 1) = mbuf_data m ! k'"
    using x(2,3,5) by (subst m_bytes_data) (simp_all add: take_Suc_conv_app_nth hd_drop_conv_nth)
  moreover have "chain_data c ! unat k = hd (drop (unat k) (chain_data c))"
    using pkt_length[of c] assms x(2,6) by (intro hd_drop_conv_nth[symmetric]) (simp add: wf_pkt_chain_def)
  then have "chain_data c ! unat k = mbuf_data m ! k'"
    unfolding x(1) using x(2,5) by (simp add: hd_append hd_drop_conv_nth)
  ultimately show ?thesis
    using assms Some t r x(2,6) by (simp add: MINDEX_def wf_pkt_chain_ne)
qed

lemma m_xword_spec:
  assumes "wf_pkt_chain c"
  shows "\<exists>r. m_xword c k = Inr r \<and>
    (case r of None \<Rightarrow> chain_len c < unat k + 4 \<or> (\<exists>m \<in> set c. m_len m < 3)
     | Some w \<Rightarrow> unat k + 4 \<le> chain_len c \<and> w = be_num (take 4 (drop (unat k) (chain_data c))))"
proof (cases "xseek c (unat k)")
  case None
  then show ?thesis using assms xseek_None[of c "unat k"] by (simp add: m_xword_def wf_pkt_chain_ne)
next
  case (Some t)
  obtain m ms k' where t: "t = (m, ms, k')" by (cases t)
  note x = xseek_data[OF assms Some[unfolded t]]
  let ?l = "m_len m - k'"
  show ?thesis
  proof (cases "4 \<le> ?l")
    case True
    have "m_read m k' 4 = Inr (m_bytes m k' 4)" using x(4) True by (intro m_read_ok) simp
    moreover have "m_bytes m k' 4 = take 4 (drop (unat k) (chain_data c))"
      unfolding x(1) using True x(2,3,5) by (subst m_bytes_data) simp_all
    ultimately show ?thesis using assms Some t True x(6) by (simp add: m_xword_def wf_pkt_chain_ne)
  next
    case short: False
    show ?thesis
    proof (cases ms)
      case Nil
      then show ?thesis using assms Some t short x(6) by (simp add: m_xword_def wf_pkt_chain_ne)
    next
      case (Cons m0 ms')
      show ?thesis
      proof (cases "m_len m0 + m_len m - k' < 4")
        case True
        then have "chain_len c < unat k + 4 \<or> m_len m0 < 3" using x(2) by linarith
        moreover have "m0 \<in> set c" using x(9) Cons by simp
        ultimately show ?thesis using assms Some t short Cons True by (auto simp: m_xword_def wf_pkt_chain_ne)
      next
        case False
        have m0: "\<not> is_hole m0" "m_off m0 + m_len m0 \<le> length (m_buf m0)" using x(7) Cons by simp_all
        have "m_read m k' ?l = Inr (drop k' (mbuf_data m))"
          using x(2,3,4,5) by (subst m_read_ok) (simp_all add: m_bytes_data)
        moreover have "m_read m0 0 (4 - ?l) = Inr (take (4 - ?l) (mbuf_data m0))"
          using m0 False x(2) by (subst m_read_ok) (simp_all add: m_bytes_data)
        moreover have "drop k' (mbuf_data m) @ take (4 - ?l) (mbuf_data m0) = take 4 (drop (unat k) (chain_data c))"
          unfolding x(1) Cons using short x(5) False m0 by (simp add: plain_length)
        ultimately show ?thesis
          using assms Some t short Cons False x(2,6) by (simp add: m_xword_def wf_pkt_chain_ne)
      qed
    qed
  qed
qed

lemma m_xhalf_spec:
  assumes "wf_pkt_chain c"
  shows "\<exists>r. m_xhalf c k = Inr r \<and>
    (case r of None \<Rightarrow> chain_len c < unat k + 2
     | Some w \<Rightarrow> (\<exists>m \<in> set c. m_len m = 0) \<or> unat k + 2 \<le> chain_len c \<and> w = be_num (take 2 (drop (unat k) (chain_data c))))"
proof (cases "xseek c (unat k)")
  case None
  then show ?thesis using assms xseek_None[of c "unat k"] by (simp add: m_xhalf_def wf_pkt_chain_ne)
next
  case (Some t)
  obtain m ms k' where t: "t = (m, ms, k')" by (cases t)
  note x = xseek_data[OF assms Some[unfolded t]]
  let ?l = "m_len m - k'"
  show ?thesis
  proof (cases "2 \<le> ?l")
    case True
    have "m_read m k' 2 = Inr (m_bytes m k' 2)" using x(4) True by (intro m_read_ok) simp
    moreover have "m_bytes m k' 2 = take 2 (drop (unat k) (chain_data c))"
      unfolding x(1) using True x(2,3,5) by (subst m_bytes_data) simp_all
    moreover have "unat k + 2 \<le> chain_len c" using x(6) True by linarith
    ultimately show ?thesis using assms Some t True by (simp add: m_xhalf_def wf_pkt_chain_ne)
  next
    case short: False
    show ?thesis
    proof (cases ms)
      case Nil
      then show ?thesis using assms Some t short x(6) by (simp add: m_xhalf_def wf_pkt_chain_ne)
    next
      case (Cons m0 ms')
      have m0: "\<not> is_hole m0" "m_off m0 + m_len m0 \<le> length (m_buf m0)" "m_off m0 < length (m_buf m0)" "m0 \<in> set c"
        using x(7,9) Cons by simp_all
      have l: "?l = 1" using short x(2) by linarith
      have rs: "m_read m k' 1 = Inr (drop k' (mbuf_data m))" "m_read m0 0 1 = Inr (m_bytes m0 0 1)"
        using x(2,3,4,5) l m0 by (subst m_read_ok; simp add: m_bytes_data)+
      show ?thesis
      proof (cases "m_len m0 = 0")
        case True
        then show ?thesis using assms Some t short Cons rs m0(4) by (auto simp: m_xhalf_def wf_pkt_chain_ne)
      next
        case False
        then have "drop k' (mbuf_data m) @ m_bytes m0 0 1 = take 2 (drop (unat k) (chain_data c))"
          unfolding x(1) Cons using l x(5) m0 by (simp add: plain_length m_bytes_data numeral_2_eq_2)
        moreover have "unat k + 2 \<le> chain_len c" using x(6) l Cons False by simp
        ultimately show ?thesis
          using assms Some t short Cons rs by (simp add: m_xhalf_def wf_pkt_chain_ne)
      qed
    qed
  qed
qed

subsection \<open>Loads\<close>

lemma sub_range: "k \<le> n \<Longrightarrow> w \<le> n - k \<Longrightarrow> unat k + unat w \<le> unat (n :: u32)"
  by (simp add: word_le_nat_alt unat_sub)

lemma add_range:
  assumes "k \<le> n" "x \<le> n - (k :: u32)"
  shows "unat (x + k) = unat x + unat k" "x + k \<le> n"
proof -
  have "unat k + unat x \<le> unat n" using assms by (rule sub_range)
  moreover have "unat n < 2 ^ 32" using unsigned_less[of n, where 'a = nat] by simp
  ultimately show "unat (x + k) = unat x + unat k" by (subst unat_add_lem[symmetric]) simp
  then show "x + k \<le> n" using \<open>unat k + unat x \<le> unat n\<close> by (simp add: word_le_nat_alt)
qed

lemma buflen_simps:
  "length bs < 2 ^ 32 \<Longrightarrow> unat (buflen (Flat bs)) = length bs" "buflen (Chain c) = 0"
  by (simp_all add: buflen_def unat_of_nat)

lemma bpf_load_Flat:
  assumes "0 < length bs" "length bs < 2 ^ 32" "\<not> out \<Longrightarrow> unat k + n \<le> length bs"
  shows "bpf_load (Flat bs) out n k mread = Inr (if out then None else Some (be_num (take n (drop (unat k) bs))))"
proof -
  have "buflen (Flat bs) \<noteq> 0" using buflen_simps(1)[OF assms(2)] assms(1) by auto
  then show ?thesis using assms(3) by (simp add: bpf_load_def)
qed

lemma bpf_load_Chain: "out \<Longrightarrow> bpf_load (Chain c) out n k mread = mread c k"
  by (simp add: bpf_load_def buflen_def)

text \<open>The six range tests, over a flat buffer and over a chain.\<close>

lemma abs_range:
  "length bs < 2 ^ 32 \<Longrightarrow> \<not> (k > buflen (Flat bs) \<or> w > buflen (Flat bs) - k) \<Longrightarrow> unat k + unat w \<le> length bs"
  using sub_range[of k "buflen (Flat bs)" w] by (simp add: buflen_simps not_less)

lemma byte_range: "length bs < 2 ^ 32 \<Longrightarrow> \<not> k \<ge> buflen (Flat bs) \<Longrightarrow> unat k + 1 \<le> length bs"
  using buflen_simps(1)[of bs] by (simp add: word_le_nat_alt)

lemma ind_range:
  assumes "length bs < 2 ^ 32" "\<not> (k > buflen (Flat bs) \<or> x > buflen (Flat bs) - k \<or> w > buflen (Flat bs) - (x + k))"
  shows "unat (x + k) + unat w \<le> length bs"
  using assms sub_range[OF add_range(2), of k "buflen (Flat bs)" x w] by (simp add: buflen_simps not_less)

lemma ind_range':
  assumes "length bs < 2 ^ 32" "\<not> (x > buflen (Flat bs) \<or> k > buflen (Flat bs) - x \<or> w > buflen (Flat bs) - (x + k))"
  shows "unat (x + k) + unat w \<le> length bs"
  using ind_range[OF assms(1), of x k w] assms(2) by (simp add: add.commute not_less)

lemma ind_byte_range:
  assumes "length bs < 2 ^ 32" "\<not> (k \<ge> buflen (Flat bs) \<or> x \<ge> buflen (Flat bs) - k)"
  shows "unat (x + k) + 1 \<le> length bs"
proof -
  let ?n = "buflen (Flat bs)"
  have le: "k \<le> ?n" "x \<le> ?n - k" and lt: "x < ?n - k" using assms(2) by auto
  have "unat x < unat ?n - unat k" using lt le(1) by (simp add: word_less_nat_alt unat_sub)
  then show ?thesis using add_range(1)[OF le] buflen_simps(1)[OF assms(1)] by simp
qed

lemma chain_ranges:
  "k > buflen (Chain c) \<or> 4 > buflen (Chain c) - k" "k > buflen (Chain c) \<or> 2 > buflen (Chain c) - k" "k \<ge> buflen (Chain c)"
  "k > buflen (Chain c) \<or> x > buflen (Chain c) - k \<or> 4 > buflen (Chain c) - (x + k)"
  "x > buflen (Chain c) \<or> k > buflen (Chain c) - x \<or> 2 > buflen (Chain c) - (x + k)"
  "k \<ge> buflen (Chain c) \<or> x \<ge> buflen (Chain c) - k"
  by (auto simp: buflen_simps word_neq_0_conv[symmetric])

lemma flat_ranges:
  assumes "length bs < 2 ^ 32"
  shows "\<not> (k > buflen (Flat bs) \<or> 4 > buflen (Flat bs) - k) \<Longrightarrow> unat k + 4 \<le> length bs"
    "\<not> (k > buflen (Flat bs) \<or> 2 > buflen (Flat bs) - k) \<Longrightarrow> unat k + 2 \<le> length bs"
    "\<not> (k > buflen (Flat bs) \<or> x > buflen (Flat bs) - k \<or> 4 > buflen (Flat bs) - (x + k)) \<Longrightarrow> unat (x + k) + 4 \<le> length bs"
    "\<not> (x > buflen (Flat bs) \<or> k > buflen (Flat bs) - x \<or> 2 > buflen (Flat bs) - (x + k)) \<Longrightarrow> unat (x + k) + 2 \<le> length bs"
  using abs_range[OF assms, of k 4] abs_range[OF assms, of k 2] ind_range[OF assms, of k x 4] ind_range'[OF assms, of x k 2]
  by simp_all

lemma chain_loads:
  "bpf_load (Chain c) (k > buflen (Chain c) \<or> 4 > buflen (Chain c) - k) 4 k m_xword = m_xword c k"
  "bpf_load (Chain c) (k > buflen (Chain c) \<or> 2 > buflen (Chain c) - k) 2 k m_xhalf = m_xhalf c k"
  "bpf_load (Chain c) (k \<ge> buflen (Chain c)) 1 k MINDEX = MINDEX c k"
  "bpf_load (Chain c) (k > buflen (Chain c) \<or> x > buflen (Chain c) - k \<or> 4 > buflen (Chain c) - (x + k)) 4 (x + k) m_xword
   = m_xword c (x + k)"
  "bpf_load (Chain c) (x > buflen (Chain c) \<or> k > buflen (Chain c) - x \<or> 2 > buflen (Chain c) - (x + k)) 2 (x + k) m_xhalf
   = m_xhalf c (x + k)"
  "bpf_load (Chain c) (k \<ge> buflen (Chain c) \<or> x \<ge> buflen (Chain c) - k) 1 (x + k) MINDEX = MINDEX c (x + k)"
  by (rule bpf_load_Chain, rule chain_ranges)+

subsection \<open>A load on a well-formed packet\<close>

lemma load_total:
  assumes "wf_packet p"
  shows "(\<exists>v. bpf_load p (k > buflen p \<or> 4 > buflen p - k) 4 k m_xword = Inr v) \<and>
    (\<exists>v. bpf_load p (k > buflen p \<or> 2 > buflen p - k) 2 k m_xhalf = Inr v) \<and>
    (\<exists>v. bpf_load p (k \<ge> buflen p) 1 k MINDEX = Inr v) \<and>
    (\<exists>v. bpf_load p (k > buflen p \<or> x > buflen p - k \<or> 4 > buflen p - (x + k)) 4 (x + k) m_xword = Inr v) \<and>
    (\<exists>v. bpf_load p (x > buflen p \<or> k > buflen p - x \<or> 2 > buflen p - (x + k)) 2 (x + k) m_xhalf = Inr v) \<and>
    (\<exists>v. bpf_load p (k \<ge> buflen p \<or> x \<ge> buflen p - k) 1 (x + k) MINDEX = Inr v)"
proof (cases p)
  case (Flat bs)
  then have bs: "0 < length bs" "length bs < 2 ^ 32" using assms by (simp_all add: wf_packet_def)
  note L = bpf_load_Flat[OF bs]
  show ?thesis unfolding Flat
    by (intro conjI exI; rule L; erule flat_ranges[OF bs(2)] byte_range[OF bs(2)] ind_byte_range[OF bs(2)])
next
  case (Chain c)
  then have c: "wf_pkt_chain c" using assms by (simp add: wf_packet_def)
  have t: "\<exists>v. m_xword c j = Inr v" "\<exists>v. m_xhalf c j = Inr v" "\<exists>v. MINDEX c j = Inr v" for j
    using m_xword_spec[OF c, of j] m_xhalf_spec[OF c, of j] MINDEX_spec[OF c, of j] by blast+
  show ?thesis unfolding Chain chain_loads by (intro conjI t)
qed

subsection \<open>Every instruction of a valid program\<close>

definition keeps :: "bpf_st \<Rightarrow> bpf_out res \<Rightarrow> bool" where
  "keeps st r = (case r of Inl _ \<Rightarrow> False | Inr (Ret _) \<Rightarrow> True | Inr (Next st' off) \<Rightarrow> off = 0 \<and> length (bmem st') = length (bmem st))"

lemma load_A_keeps: "\<exists>v. r = Inr v \<Longrightarrow> keeps st (load_A st r)"
  by (auto simp: load_A_def keeps_def split: option.splits)

lemma exec_ld_keeps:
  assumes "wf_packet p"
  shows "keeps st (exec_ld wirelen p ins st op)"
proof -
  note L = load_total[OF assms, of "bk ins" "bX st"]
  obtain h where h: "bpf_load p (bk ins > buflen p \<or> 2 > buflen p - bk ins) 2 (bk ins) m_xhalf = Inr h" using L by blast
  obtain b where b: "bpf_load p (bk ins \<ge> buflen p) 1 (bk ins) MINDEX = Inr b" using L by blast
  show ?thesis
  proof (cases op)
    case LD_H_ABS
    then show ?thesis by (simp only: exec_ld_def Let_def bpf_op.case h) (simp add: keeps_def load_A_def split: option.split)
  next
    case LDX_MSH_B
    then show ?thesis by (simp only: exec_ld_def Let_def bpf_op.case b) (simp add: keeps_def split: option.split)
  qed (simp_all only: exec_ld_def Let_def bpf_op.case, (rule load_A_keeps, use L in blast | simp add: keeps_def)+)
qed

lemma exec_mem_keeps: "unat (bk ins) < length (bmem st) \<Longrightarrow> keeps st (exec_mem ins st op)"
  by (cases op) (simp_all add: exec_mem_def keeps_def)

lemma load_A_alu:
  "(\<exists>st'. load_A st (alu a s x v) = Inr (Next st' 0) \<and> bmem st' = bmem st) \<or> load_A st (alu a s x v) = Inr (Ret 0) \<or>
   (load_A st (alu a s x v) = Inl Div_by_zero \<and> a = BPF_DIV \<and> s = SRC_K \<and> v = 0) \<or>
   (load_A st (alu a s x v) = Inl Bad_shift \<and> (a = BPF_LSH \<or> a = BPF_RSH) \<and> 32 \<le> v)"
  by (cases a; cases s) (auto simp: load_A_def not_less)

definition insn_ok :: "nat \<Rightarrow> bpf_insn \<Rightarrow> bool" where
  "insn_ok n ins \<longleftrightarrow> (\<exists>op. bpf_decode (code ins) = Some op \<and>
     (op = JMP_JA \<longrightarrow> unat (bk ins) < n) \<and>
     (\<forall>j s. op = OP_JMP j s \<longrightarrow> unat (jt ins) < n \<and> unat (jf ins) < n) \<and>
     (op \<in> {LD_MEM, LDX_MEM, OP_ST, OP_STX} \<longrightarrow> unat (bk ins) < BPF_MEMWORDS) \<and>
     (op = OP_ALU BPF_DIV SRC_K \<longrightarrow> bk ins \<noteq> 0) \<and>
     (n = 0 \<longrightarrow> op = RET_K \<or> op = RET_A))"

definition big_shift :: "bpf_insn \<Rightarrow> bpf_st \<Rightarrow> bool" where
  "big_shift ins st = (case bpf_decode (code ins) of
     Some (OP_ALU a s) \<Rightarrow> (a = BPF_LSH \<or> a = BPF_RSH) \<and> 32 \<le> src_val s ins st | _ \<Rightarrow> False)"

lemma bpf_exec1_ok:
  assumes ok: "insn_ok n ins" and p: "wf_packet p" and m: "length (bmem st) = BPF_MEMWORDS"
  shows "(\<exists>v. bpf_exec1 wirelen p ins st = Inr (Ret v)) \<or>
    (\<exists>st' off. bpf_exec1 wirelen p ins st = Inr (Next st' off) \<and> off < n \<and> length (bmem st') = BPF_MEMWORDS) \<or>
    (bpf_exec1 wirelen p ins st = Inl Bad_shift \<and> big_shift ins st)"
    (is "?G (bpf_exec1 wirelen p ins st)")
proof -
  obtain op where op: "bpf_decode (code ins) = Some op" and o: "op = JMP_JA \<longrightarrow> unat (bk ins) < n"
     "\<forall>j s. op = OP_JMP j s \<longrightarrow> unat (jt ins) < n \<and> unat (jf ins) < n"
     "op \<in> {LD_MEM, LDX_MEM, OP_ST, OP_STX} \<longrightarrow> unat (bk ins) < BPF_MEMWORDS"
     "op = OP_ALU BPF_DIV SRC_K \<longrightarrow> bk ins \<noteq> 0" "n = 0 \<longrightarrow> op = RET_K \<or> op = RET_A"
    using ok[unfolded insn_ok_def] by (elim exE conjE) (rule that)
  have K: "?G r" if "keeps st r" "n \<noteq> 0" for r
    using that m by (auto simp: keeps_def split: sum.splits bpf_out.splits)
  note E = K[OF exec_ld_keeps[OF p]] K[OF exec_mem_keeps]
  show ?thesis
  proof (cases op)
    case (OP_ALU a s)
    then show ?thesis
      using load_A_alu[of st a s "bA st" "src_val s ins st"] o m by (auto simp: bpf_exec1_def op big_shift_def src_val_def)
  qed (use o m in \<open>simp_all add: bpf_exec1_def op E\<close>)
qed

end
