(* ===== verification/Bpf_Props.thy ===== *)
theory Bpf_Props
  imports Bpf_Safe Mbuf_Edit
begin

text \<open>
  Properties of the packet filter machine: valid programs are safe, the validator knows the interpreter's instructions, and a chain is
  filtered as its bytes in one buffer would be, except where the interpreter treats the two differently.
\<close>

lemma validate_loop_nth:
  "validate_loop f \<Longrightarrow> i < length f \<Longrightarrow> validate_loop (drop i f)"
proof (induction f arbitrary: i)
  case (Cons p f)
  then show ?case by (cases i) auto
qed simp

lemma validate_insn:
  assumes "validate_loop (ins # ps)" "length ps < 2 ^ 31" "ps = [] \<longrightarrow> BPF_CLASS (code ins) = BPF_RET"
  shows "insn_ok (length ps) ins"
proof -
  have "BPF_VALIDATE_CODE (code ins)" using assms(1) by simp
  then obtain op where op: "bpf_decode (code ins) = Some op" by (auto simp: validate_code_decode)
  have len: "unat (of_nat (length ps) :: u32) = length ps" using assms(2) by (simp add: unat_of_nat)
  have lt: "x < of_nat (length ps) \<longleftrightarrow> unat x < length ps" for x :: u32 by (simp add: word_less_nat_alt len)
  have up: "unat (ucast b :: u32) = unat b" for b :: byte using unsigned_less[of b, where 'a = nat] by (simp add: unsigned_ucast_eq take_bit_nat_eq_self)
  have "unat (bk ins) < length ps" if j: "op = JMP_JA"
  proof -
    have "BPF_CLASS (code ins) = BPF_JMP" "code ins = BPF_JMP" using j decode_JA[OF op] decode_JMP[OF op] by auto
    then show ?thesis using assms(1) by (simp add: Let_def lt)
  qed
  moreover have "unat (jt ins) < length ps \<and> unat (jf ins) < length ps" if j: "op = OP_JMP j s" for j s
  proof -
    have "BPF_CLASS (code ins) = BPF_JMP" "code ins \<noteq> BPF_JMP"
      using j decode_JA[OF op] decode_JMP[OF op] by auto
    then have "(if jt ins > jf ins then unat (jt ins) else unat (jf ins)) < length ps"
      using assms(1) by (simp add: Let_def lt up split: if_splits)
    then show ?thesis by (auto simp: word_less_nat_alt split: if_splits)
  qed
  moreover have "unat (bk ins) < BPF_MEMWORDS" if m: "op \<in> {LD_MEM, LDX_MEM, OP_ST, OP_STX}"
  proof -
    note c = decode_MEM[OF op, rule_format, OF m]
    show ?thesis using assms(1) unfolding validate_loop.simps if_not_P[OF conjunct2[OF c]] if_P[OF conjunct1[OF c]]
      by (simp add: word_less_nat_alt BPF_MEMWORDS_def)
  qed
  moreover have "bk ins \<noteq> 0" if d: "op = OP_ALU BPF_DIV SRC_K"
  proof -
    have "code ins = BPF_ALU + 0x30" using decode_DIV[OF op] d by blast
    then show ?thesis using assms(1) by (simp add: BPF_CLASS_def)
  qed
  moreover have "length ps = 0 \<longrightarrow> op = RET_K \<or> op = RET_A" using assms(3) decode_RET[OF op] by simp
  ultimately show ?thesis using op unfolding insn_ok_def by blast
qed

lemma validate_nth:
  assumes "bpf_validate prog (int (length prog))" "pc < length prog" "length prog < 2 ^ 31"
  shows "insn_ok (length prog - pc - 1) (prog ! pc)"
proof -
  have v: "validate_loop prog" "BPF_CLASS (code (prog ! (length prog - 1))) = BPF_RET"
    using assms(1,2) by (auto simp: bpf_validate_def)
  have d: "drop pc prog = prog ! pc # drop (Suc pc) prog" using assms(2) by (simp add: Cons_nth_drop_Suc)
  have "insn_ok (length (drop (Suc pc) prog)) (prog ! pc)"
  proof (rule validate_insn)
    show "validate_loop (prog ! pc # drop (Suc pc) prog)" using validate_loop_nth[OF v(1) assms(2)] unfolding d .
    show "drop (Suc pc) prog = [] \<longrightarrow> BPF_CLASS (code (prog ! pc)) = BPF_RET"
    proof
      assume "drop (Suc pc) prog = []"
      then have "pc = length prog - 1" using assms(2) by simp
      then show "BPF_CLASS (code (prog ! pc)) = BPF_RET" using v(2) by simp
    qed
  qed (use assms(3) in simp)
  then show ?thesis by simp
qed

definition const_shift :: "bpf_insn \<Rightarrow> bool" where
  "const_shift ins = (case bpf_decode (code ins) of
     Some (OP_ALU a s) \<Rightarrow> (a = BPF_LSH \<or> a = BPF_RSH) \<longrightarrow> s = SRC_K \<and> bk ins < 32 | _ \<Rightarrow> True)"

lemma const_not_big: "const_shift ins \<Longrightarrow> \<not> big_shift ins st"
  by (auto simp: const_shift_def big_shift_def src_val_def split: option.splits bpf_op.splits)

lemma bpf_run_ok:
  assumes valid: "\<And>pc. pc < length prog \<Longrightarrow> insn_ok (length prog - pc - 1) (prog ! pc)" and p: "wf_packet p"
  shows "pc < length prog \<Longrightarrow> length (bmem st) = BPF_MEMWORDS \<Longrightarrow>
    (\<exists>v. bpf_run prog wirelen p pc st = Inr v) \<or>
    (bpf_run prog wirelen p pc st = Inl Bad_shift \<and> \<not> (\<forall>ins \<in> set prog. const_shift ins))"
proof (induction "length prog - pc" arbitrary: pc st rule: less_induct)
  case less
  note pc = less(2) and m = less(3)
  note run = bpf_run.simps[of prog wirelen p pc st] if_P[OF pc]
  consider (r) v where "bpf_exec1 wirelen p (prog ! pc) st = Inr (Ret v)"
    | (n) st' off where "bpf_exec1 wirelen p (prog ! pc) st = Inr (Next st' off)" "off < length prog - pc - 1"
        "length (bmem st') = BPF_MEMWORDS"
    | (s) "bpf_exec1 wirelen p (prog ! pc) st = Inl Bad_shift" "big_shift (prog ! pc) st"
    using bpf_exec1_ok[OF valid[OF pc] p m, of wirelen] by blast
  then show ?case
  proof cases
    case r
    then show ?thesis by (simp add: run)
  next
    case n
    then have lt: "pc + off + 1 < length prog" by simp
    show ?thesis using less(1)[OF _ lt n(3)] n(1) lt by (simp add: run)
  next
    case s
    then have "\<not> const_shift (prog ! pc)" using const_not_big by blast
    then show ?thesis using s pc nth_mem by (auto simp: run)
  qed
qed

subsection \<open>A chain and its bytes in one buffer\<close>

definition sim :: "bpf_out res \<Rightarrow> bpf_out res \<Rightarrow> bool" where
  "sim r r' = (case r of Inr (Next st off) \<Rightarrow> r' = r | Inr (Ret v) \<Rightarrow> v = 0 \<or> r' = r | Inl _ \<Rightarrow> True)"

lemma sim_refl: "sim r r" by (auto simp: sim_def split: sum.split bpf_out.split)

lemma sim_load_A: "(\<And>w. x = Inr (Some w) \<Longrightarrow> y = Inr (Some w)) \<Longrightarrow> sim (load_A st x) (load_A st y)"
  by (cases x) (auto simp: sim_def load_A_def split: option.splits)

lemma be_num_byte: "be_num [b] = (b :: byte)"
  by (rule bit_word_eqI) (simp add: be_num_def bit_simps)

lemma chain_reads:
  assumes "wf_pkt_chain c" "\<forall>m \<in> set c. 3 \<le> m_len m"
  shows "unat k + 4 \<le> chain_len c \<Longrightarrow> m_xword c k = Inr (Some (be_num (take 4 (drop (unat k) (chain_data c)))))"
    "unat k + 2 \<le> chain_len c \<Longrightarrow> m_xhalf c k = Inr (Some (be_num (take 2 (drop (unat k) (chain_data c)))))"
    "unat k + 1 \<le> chain_len c \<Longrightarrow> MINDEX c k = Inr (Some (be_num (take 1 (drop (unat k) (chain_data c)))))"
proof -
  assume "unat k + 4 \<le> chain_len c"
  then show "m_xword c k = Inr (Some (be_num (take 4 (drop (unat k) (chain_data c)))))"
    using m_xword_spec[OF assms(1), of k] assms(2) by (auto simp: not_less split: option.splits)
next
  assume "unat k + 2 \<le> chain_len c"
  then show "m_xhalf c k = Inr (Some (be_num (take 2 (drop (unat k) (chain_data c)))))"
    using m_xhalf_spec[OF assms(1), of k] assms(2) by (fastforce simp: not_less split: option.splits)
next
  assume k: "unat k + 1 \<le> chain_len c"
  have "length (chain_data c) = chain_len c" using assms(1) by (intro pkt_length) (simp add: wf_pkt_chain_def)
  then have "take 1 (drop (unat k) (chain_data c)) = [chain_data c ! unat k]"
    using k by (simp add: take_Suc hd_drop_conv_nth flip: drop_Suc)
  then show "MINDEX c k = Inr (Some (be_num (take 1 (drop (unat k) (chain_data c)))))"
    using MINDEX_spec[OF assms(1), of k] k by (simp add: be_num_byte)
qed

lemma load_agrees:
  assumes "0 < length bs" "length bs < 2 ^ 32" "\<not> out \<Longrightarrow> unat k + n \<le> length bs"
    and "unat k + n \<le> length bs \<Longrightarrow> r = Inr (Some (be_num (take n (drop (unat k) bs))))"
    and "bpf_load (Flat bs) out n k mread = Inr (Some w)"
  shows "r = Inr (Some w)"
proof -
  have "bpf_load (Flat bs) out n k mread = Inr (if out then None else Some (be_num (take n (drop (unat k) bs))))"
    using assms(1-3) by (rule bpf_load_Flat)
  then show ?thesis using assms(3-5) by (auto split: if_splits)
qed

lemma exec_ld_sim:
  assumes c: "wf_pkt_chain c" "\<forall>m \<in> set c. 3 \<le> m_len m" and bs: "0 < length (chain_data c)" "length (chain_data c) < 2 ^ 32"
  shows "sim (exec_ld wirelen (Flat (chain_data c)) ins st op) (exec_ld wirelen (Chain c) ins st op)"
proof -
  let ?F = "Flat (chain_data c)" and ?k = "bk ins" and ?x = "bX st"
  have len: "length (chain_data c) = chain_len c" using c(1) by (intro pkt_length) (simp add: wf_pkt_chain_def)
  note L = load_agrees[OF bs] and R = chain_reads[OF c, folded len]
  have h: "m_xhalf c ?k = Inr (Some w)" if "bpf_load ?F (?k > buflen ?F \<or> 2 > buflen ?F - ?k) 2 ?k m_xhalf = Inr (Some w)" for w
    using flat_ranges(2)[OF bs(2)] R(2) that by (rule L)
  have b: "MINDEX c ?k = Inr (Some w)" if "bpf_load ?F (?k \<ge> buflen ?F) 1 ?k MINDEX = Inr (Some w)" for w
    using byte_range[OF bs(2)] R(3) that by (rule L)
  have nz: "buflen ?F \<noteq> 0" using buflen_simps(1)[OF bs(2)] bs(1) by auto
  note unf = exec_ld_def Let_def bpf_op.case chain_loads
  show ?thesis
  proof (cases op)
    case LD_W_ABS
    show ?thesis unfolding LD_W_ABS unf by (rule sim_load_A, rule L[OF flat_ranges(1)[OF bs(2)] R(1)])
  next
    case LD_H_ABS
    have "(bk ins > buflen (Chain c) \<or> 2 > buflen (Chain c) - bk ins) \<and> buflen (Chain c) = 0"
      using chain_ranges(2) by (simp add: buflen_simps)
    then show ?thesis unfolding LD_H_ABS unf using h nz
      by (cases "bpf_load ?F (?k > buflen ?F \<or> 2 > buflen ?F - ?k) 2 ?k m_xhalf")
        (auto simp: sim_def load_A_def split: option.splits)
  next
    case LD_B_ABS
    show ?thesis unfolding LD_B_ABS unf by (rule sim_load_A, rule b)
  next
    case LD_W_IND
    show ?thesis unfolding LD_W_IND unf by (rule sim_load_A, rule L[OF flat_ranges(3)[OF bs(2)] R(1)])
  next
    case LD_H_IND
    show ?thesis unfolding LD_H_IND unf by (rule sim_load_A, rule L[OF flat_ranges(4)[OF bs(2)] R(2)])
  next
    case LD_B_IND
    show ?thesis unfolding LD_B_IND unf by (rule sim_load_A, rule L[OF ind_byte_range[OF bs(2)] R(3)])
  next
    case LDX_MSH_B
    show ?thesis unfolding LDX_MSH_B unf using b
      by (cases "bpf_load ?F (?k \<ge> buflen ?F) 1 ?k MINDEX") (auto simp: sim_def split: option.splits)
  qed (simp_all only: unf sim_refl)
qed

lemma bpf_exec1_sim:
  assumes "wf_pkt_chain c" "\<forall>m \<in> set c. 3 \<le> m_len m" "0 < length (chain_data c)" "length (chain_data c) < 2 ^ 32"
  shows "sim (bpf_exec1 wirelen (Flat (chain_data c)) ins st) (bpf_exec1 wirelen (Chain c) ins st)"
proof (cases "bpf_decode (code ins)")
  case (Some op)
  then show ?thesis using exec_ld_sim[OF assms] by (cases op) (simp_all add: bpf_exec1_def sim_refl)
qed (simp add: bpf_exec1_def sim_refl)

lemma bpf_run_sim:
  assumes "wf_pkt_chain c" "\<forall>m \<in> set c. 3 \<le> m_len m" "0 < length (chain_data c)" "length (chain_data c) < 2 ^ 32"
  shows "bpf_run prog wirelen (Flat (chain_data c)) pc st = Inr v \<Longrightarrow> v \<noteq> 0 \<Longrightarrow> bpf_run prog wirelen (Chain c) pc st = Inr v"
proof (induction "length prog - pc" arbitrary: pc st rule: less_induct)
  case less
  let ?F = "Flat (chain_data c)"
  note run = bpf_run.simps[of prog wirelen _ pc st]
  have pc: "pc < length prog" using less(2) by (auto simp: run[of ?F] split: if_splits)
  have S: "sim (bpf_exec1 wirelen ?F (prog ! pc) st) (bpf_exec1 wirelen (Chain c) (prog ! pc) st)"
    by (rule bpf_exec1_sim[OF assms])
  show ?case
  proof (cases "bpf_exec1 wirelen ?F (prog ! pc) st")
    case (Inl e)
    then show ?thesis using less(2) pc by (simp add: run[of ?F])
  next
    case (Inr r)
    show ?thesis
    proof (cases r)
      case (Ret u)
      then show ?thesis using Inr S less(2,3) pc by (simp add: run[of ?F] run[of "Chain c"] sim_def)
    next
      case (Next st' off)
      then have "bpf_run prog wirelen ?F (pc + off + 1) st' = Inr v" using Inr less(2) pc by (simp add: run[of ?F])
      then have "bpf_run prog wirelen (Chain c) (pc + off + 1) st' = Inr v" using less(1)[of "pc + off + 1" st'] less(3) pc by simp
      then show ?thesis using Inr Next S pc by (simp add: run[of "Chain c"] sim_def)
    qed
  qed
qed

subsection \<open>Properties\<close>

text \<open>A sample program: load the type of an Ethernet frame, accept 96 bytes of it when it is IPv4.\<close>

definition sample_prog :: "bpf_insn list" where
  "sample_prog = [\<lparr>code = 0x28, jt = 0, jf = 0, bk = 12\<rparr>, \<lparr>code = 0x15, jt = 0, jf = 2, bk = 0x800\<rparr>,
     \<lparr>code = 0x74, jt = 0, jf = 0, bk = 8\<rparr>, \<lparr>code = 0x06, jt = 0, jf = 0, bk = 96\<rparr>, \<lparr>code = 0x06, jt = 0, jf = 0, bk = 0\<rparr>]"

definition sample_frame :: chain where
  "sample_frame = [data_mb 1 {} [1, 2, 3, 4, 5, 6, 7, 8, 9, 10, 11, 12, 8] 0, data_mb 2 {} [0, 0x45, 0] 0]"

lemmas frame_simps = sample_frame_def data_mb_def mbuf_data_def m_bytes_def

lemma sample_frame_wf: "wf_pkt_chain sample_frame" "chain_len sample_frame = 16"
  by (simp_all add: wf_pkt_chain_def frame_simps)

lemma sample_frame_data: "chain_data sample_frame = [1, 2, 3, 4, 5, 6, 7, 8, 9, 10, 11, 12, 8, 0, 0x45, 0]"
  by (simp add: frame_simps)

lemmas prog_simps = bpf_validate_def sample_prog_def BPF_VALIDATE_CODE_def bpf_code_map_def BPF_CLASS_def BPF_MEMWORDS_def

text \<open>C5: a program the validator accepts, run on a well-formed packet (a non-empty buffer, or a chain without holes), always returns.  The only
  undefined operation it can reach is a shift by 32 or more, and a program that shifts by constants below 32 does not reach it.\<close>

theorem bpf_validated_safe:
  assumes "bpf_validate prog (int (length prog))" "prog \<noteq> []" "length prog < 2 ^ 31" "wf_packet p"
  shows "(\<exists>v. bpf_filter (Some prog) p wirelen = Inr v) \<or>
    (bpf_filter (Some prog) p wirelen = Inl Bad_shift \<and> \<not> (\<forall>ins \<in> set prog. const_shift ins))"
proof -
  have "insn_ok (length prog - pc - 1) (prog ! pc)" if "pc < length prog" for pc
    using validate_nth[OF assms(1) that assms(3)] .
  then show ?thesis
    using bpf_run_ok[of prog p 0 _ wirelen] assms(2,4) by (simp add: bpf_filter_def BPF_MEMWORDS_def)
qed

theorem bpf_validated_safe_witness: "\<exists>v. bpf_filter (Some sample_prog) (Chain sample_frame) 60 = Inr v"
proof -
  have "bpf_validate sample_prog (int (length sample_prog))" by (simp add: prog_simps)
  moreover have "\<forall>ins \<in> set sample_prog. const_shift ins"
    by (simp add: sample_prog_def const_shift_def bpf_decode_def opcodes_def)
  moreover have "wf_packet (Chain sample_frame)" by (simp add: wf_packet_def sample_frame_wf)
  ultimately show ?thesis using bpf_validated_safe[of sample_prog "Chain sample_frame" 60] by (simp add: sample_prog_def)
qed

text \<open>C29: the validator's bit map accepts exactly the instruction codes that have a label in the interpreter's switch, and no label occurs twice.\<close>

theorem bpf_code_map_exact: "{c. BPF_VALIDATE_CODE c} = fst ` set opcodes \<and> distinct (map fst opcodes)"
proof -
  have "distinct (map fst opcodes)" by (simp add: opcodes_def)
  then show ?thesis unfolding validate_code_decode decode_iff by simp
qed

text \<open>C17: a program gives a chain the verdict it gives the same bytes in one buffer: whatever it accepts there, with the same snapshot
  length, it accepts in a chain whose mbufs have at least three bytes each.\<close>

theorem bpf_chain_accepts:
  assumes "wf_pkt_chain c" "\<forall>m \<in> set c. 3 \<le> m_len m" "chain_len c < 2 ^ 32"
    "bpf_filter prog (Flat (chain_data c)) wirelen = Inr v" "v \<noteq> 0"
  shows "bpf_filter prog (Chain c) wirelen = Inr v"
proof -
  have len: "length (chain_data c) = chain_len c" using assms(1) by (intro pkt_length) (simp add: wf_pkt_chain_def)
  have "0 < chain_len c" using assms(1,2) by (cases c) (auto simp: wf_pkt_chain_def)
  then have "0 < length (chain_data c)" "length (chain_data c) < 2 ^ 32" using len assms(3) by simp_all
  note R = bpf_run_sim[OF assms(1,2) this]
  show ?thesis using assms(4,5) R by (simp add: bpf_filter_def split: option.splits)
qed

theorem bpf_chain_accepts_witness: "bpf_filter (Some sample_prog) (Chain sample_frame) 60 = Inr 96"
proof (rule bpf_chain_accepts)
  show "bpf_filter (Some sample_prog) (Flat (chain_data sample_frame)) 60 = Inr 96"
    unfolding sample_frame_data by (simp add: bpf_filter_def bpf_run.simps sample_prog_def bpf_exec1_def bpf_decode_def opcodes_def
      exec_ld_def bpf_load_def buflen_def load_A_def be_num_def src_val_def)
qed (use sample_frame_wf in \<open>simp_all add: frame_simps\<close>)

text \<open>C30: the readers of a chain: a byte is read exactly when the chain has it; a word, when it is read, is the four bytes at the offset in
  network order, and it is refused only past the end or around an mbuf of fewer than three bytes.\<close>

theorem bpf_chain_readers:
  assumes "wf_pkt_chain c"
  shows "MINDEX c k = Inr (if unat k < chain_len c then Some (chain_data c ! unat k) else None) \<and>
    (\<exists>r. m_xword c k = Inr r \<and>
      (case r of None \<Rightarrow> chain_len c < unat k + 4 \<or> (\<exists>m \<in> set c. m_len m < 3)
       | Some w \<Rightarrow> unat k + 4 \<le> chain_len c \<and> w = be_num (take 4 (drop (unat k) (chain_data c)))))"
  using MINDEX_spec[OF assms] m_xword_spec[OF assms] by blast

theorem bpf_chain_readers_witness: "m_xword sample_frame 11 = Inr (Some 0x0c080045)"
proof -
  obtain r where r: "m_xword sample_frame 11 = Inr r" and s: "case r of None \<Rightarrow> chain_len sample_frame < unat (11 :: u32) + 4 \<or> (\<exists>m \<in> set sample_frame. m_len m < 3)
       | Some w \<Rightarrow> unat (11 :: u32) + 4 \<le> chain_len sample_frame \<and> w = be_num (take 4 (drop (unat (11 :: u32)) (chain_data sample_frame)))"
    using bpf_chain_readers[OF sample_frame_wf(1), of 11] by blast
  have "\<not> (chain_len sample_frame < unat (11 :: u32) + 4 \<or> (\<exists>m \<in> set sample_frame. m_len m < 3))"
    by (simp add: frame_simps)
  then obtain w where "r = Some w" "w = be_num (take 4 (drop (unat (11 :: u32)) (chain_data sample_frame)))"
    using s by (cases r) auto
  then show ?thesis using r unfolding sample_frame_data by (simp add: be_num_def)
qed

text \<open>C38: an absolute half-word load past the end of a chain does not end the program: the accumulator becomes 0 and the next instruction runs,
  where the same load from a buffer returns 0 from the filter.\<close>

theorem bpf_ldh_ignores_error:
  assumes "wf_pkt_chain c" "chain_len c \<le> unat (bk ins)" "code ins = 0x28" "wf_packet (Flat (chain_data c))"
  shows "bpf_exec1 wirelen (Chain c) ins st = Inr (Next (st\<lparr>bA := 0\<rparr>) 0) \<and>
    bpf_exec1 wirelen (Flat (chain_data c)) ins st = Inr (Ret 0)"
proof -
  have d: "bpf_decode (code ins) = Some LD_H_ABS" using assms(3) by (simp add: bpf_decode_def opcodes_def)
  have len: "length (chain_data c) = chain_len c" using assms(1) by (intro pkt_length) (simp add: wf_pkt_chain_def)
  have bs: "0 < length (chain_data c)" "length (chain_data c) < 2 ^ 32" using assms(4) by (simp_all add: wf_packet_def)
  have x: "xseek c (unat (bk ins)) = None" using assms(2) by (simp add: xseek_None)
  have m: "m_xhalf c (bk ins) = Inr None" using x assms(1) by (simp add: m_xhalf_def wf_pkt_chain_ne)
  have o: "bk ins > buflen (Flat (chain_data c)) \<or> 2 > buflen (Flat (chain_data c)) - bk ins"
    using flat_ranges(2)[OF bs(2), of "bk ins"] assms(2) len by fastforce
  have nz: "buflen (Flat (chain_data c)) \<noteq> 0" using buflen_simps(1)[OF bs(2)] bs(1) by auto
  have z: "buflen (Chain c) = 0" by (simp add: buflen_def)
  have "bpf_exec1 wirelen (Chain c) ins st = Inr (Next (st\<lparr>bA := 0\<rparr>) 0)"
    using chain_ranges(2)[of c "bk ins"] z
    by (simp only: bpf_exec1_def d option.case bpf_op.case exec_ld_def Let_def chain_loads m) (simp add: bpf_load_Chain m)
  moreover have "bpf_exec1 wirelen (Flat (chain_data c)) ins st = Inr (Ret 0)"
    using o nz by (simp add: bpf_exec1_def d exec_ld_def Let_def bpf_load_def load_A_def)
  ultimately show ?thesis by simp
qed

theorem bpf_ldh_ignores_error_witness:
  "bpf_exec1 60 (Chain sample_frame) \<lparr>code = 0x28, jt = 0, jf = 0, bk = 40\<rparr> \<lparr>bA = 7, bX = 0, bmem = []\<rparr> =
   Inr (Next \<lparr>bA = 0, bX = 0, bmem = []\<rparr> 0)"
  using bpf_ldh_ignores_error[OF sample_frame_wf(1), of "\<lparr>code = 0x28, jt = 0, jf = 0, bk = 40\<rparr>" 60 "\<lparr>bA = 7, bX = 0, bmem = []\<rparr>"]
  by (simp add: sample_frame_wf(2) wf_packet_def sample_frame_data)

text \<open>C39: an indexed byte load whose sum of index and offset wraps around 32 bits is refused on a buffer and reads from the front of a chain.\<close>

theorem bpf_ind_wraps:
  assumes "wf_pkt_chain c" "wf_packet (Flat (chain_data c))" "code ins = 0x50"
    "2 ^ 32 \<le> unat (bX st) + unat (bk ins)" "unat (bX st + bk ins) < chain_len c"
  shows "bpf_exec1 wirelen (Chain c) ins st = Inr (Next (st\<lparr>bA := ucast (chain_data c ! unat (bX st + bk ins))\<rparr>) 0) \<and>
    bpf_exec1 wirelen (Flat (chain_data c)) ins st = Inr (Ret 0)"
proof -
  let ?n = "buflen (Flat (chain_data c))"
  have d: "bpf_decode (code ins) = Some LD_B_IND" using assms(3) by (simp add: bpf_decode_def opcodes_def)
  have bs: "0 < length (chain_data c)" "length (chain_data c) < 2 ^ 32" using assms(2) by (simp_all add: wf_packet_def)
  have nz: "?n \<noteq> 0" using buflen_simps(1)[OF bs(2)] bs(1) by auto
  have o: "bk ins \<ge> ?n \<or> bX st \<ge> ?n - bk ins"
  proof (rule ccontr)
    assume "\<not> ?thesis"
    then have "unat (bX st + bk ins) = unat (bX st) + unat (bk ins)" by (intro add_range(1)[of _ ?n]) auto
    then show False using assms(4) unsigned_less[of "bX st + bk ins", where 'a = nat] by simp
  qed
  have "bpf_exec1 wirelen (Chain c) ins st = Inr (Next (st\<lparr>bA := ucast (chain_data c ! unat (bX st + bk ins))\<rparr>) 0)"
    using MINDEX_spec[OF assms(1), of "bX st + bk ins"] assms(5)
    by (simp only: bpf_exec1_def d option.case bpf_op.case exec_ld_def Let_def chain_loads) (simp add: load_A_def)
  moreover have "bpf_exec1 wirelen (Flat (chain_data c)) ins st = Inr (Ret 0)"
    using o nz by (simp add: bpf_exec1_def d exec_ld_def Let_def bpf_load_def load_A_def)
  ultimately show ?thesis by simp
qed

theorem bpf_ind_wraps_witness:
  "bpf_exec1 60 (Chain sample_frame) \<lparr>code = 0x50, jt = 0, jf = 0, bk = 0xffffffff\<rparr> \<lparr>bA = 7, bX = 3, bmem = []\<rparr> =
   Inr (Next \<lparr>bA = 3, bX = 3, bmem = []\<rparr> 0)"
  using bpf_ind_wraps[OF sample_frame_wf(1), of "\<lparr>code = 0x50, jt = 0, jf = 0, bk = 0xffffffff\<rparr>" "\<lparr>bA = 7, bX = 3, bmem = []\<rparr>" 60]
  by (simp add: sample_frame_wf(2) wf_packet_def sample_frame_data)

end
