(* ===== verification/Promisc.thy ===== *)
theory Promisc
  imports Prelude
begin

text \<open>
  Promiscuous sockets: \<open>sys/netinet/in_promisc.c\<close> and \<open>in_promisc.h\<close>.

  The first part is the layer-2 information of a connection: copying it, comparing two stacks of tags and hashing one.  The second part is the
  registry of SYN filters: a list of reference-counted filters, and the instance a listening socket attaches to.  A filter is removed from the
  list and freed at the same time, so a filter's address that is not in the list is freed memory, \<open>Inl Use_after_free\<close>.  Filter callbacks,
  constructors and the copy of socket options from the caller are parameters.  Locks are not modelled.
\<close>

subsection \<open>Layer-2 information\<close>

definition IN_L2INFO_MAX_TAGS :: nat where "IN_L2INFO_MAX_TAGS = 16"
definition INL2I_TAG_ANY :: "16 word" where "INL2I_TAG_ANY = 0x01"

record in_l2tagstack =
  inl2t_cnt :: "16 word"
  inl2t_masks :: "u32 list"
  inl2t_tags :: "u32 list"

record in_l2info =
  inl2i_local_addr :: "byte list"
  inl2i_foreign_addr :: "byte list"
  inl2i_flags :: "16 word"
  inl2i_tagstack :: in_l2tagstack

definition zero_l2info :: in_l2info where
  "zero_l2info = \<lparr>inl2i_local_addr = replicate 6 0, inl2i_foreign_addr = replicate 6 0, inl2i_flags = 0,
     inl2i_tagstack = \<lparr>inl2t_cnt = 0, inl2t_masks = replicate IN_L2INFO_MAX_TAGS 0, inl2t_tags = replicate IN_L2INFO_MAX_TAGS 0\<rparr>\<rparr>"

text \<open>\<open>avail\<close> is whether the zone has memory.\<close>

definition in_promisc_l2info_alloc :: "bool \<Rightarrow> in_l2info option" where
  "in_promisc_l2info_alloc avail = (if avail then Some zero_l2info else None)"

definition in_promisc_l2tagstack_copy :: "in_l2tagstack \<Rightarrow> in_l2tagstack \<Rightarrow> in_l2tagstack" where
  "in_promisc_l2tagstack_copy dst src = src"

definition in_promisc_l2info_copy :: "in_l2info \<Rightarrow> in_l2info \<Rightarrow> in_l2info" where
  "in_promisc_l2info_copy dst src =
     dst\<lparr>inl2i_local_addr := inl2i_local_addr src, inl2i_foreign_addr := inl2i_foreign_addr src, inl2i_flags := inl2i_flags src,
       inl2i_tagstack := in_promisc_l2tagstack_copy (inl2i_tagstack dst) (inl2i_tagstack src)\<rparr>"

definition in_promisc_l2info_copy_swap :: "in_l2info \<Rightarrow> in_l2info \<Rightarrow> in_l2info" where
  "in_promisc_l2info_copy_swap dst src =
     dst\<lparr>inl2i_local_addr := inl2i_foreign_addr src, inl2i_foreign_addr := inl2i_local_addr src, inl2i_flags := inl2i_flags src,
       inl2i_tagstack := in_promisc_l2tagstack_copy (inl2i_tagstack dst) (inl2i_tagstack src)\<rparr>"

subsubsection \<open>Comparing tags\<close>

text \<open>The loop that skips zero-masked tags: \<open>n\<close> tags are left, the first of them at \<open>i\<close>.\<close>

fun skip_zero :: "in_l2tagstack \<Rightarrow> nat \<Rightarrow> nat \<Rightarrow> (nat \<times> nat) res" where
  "skip_zero ts 0 i = Inr (0, i)"
| "skip_zero ts (Suc n) i =
     (if i < length (inl2t_masks ts) then (if inl2t_masks ts ! i = 0 then skip_zero ts n (i + 1) else Inr (Suc n, i)) else Inl Out_of_bounds)"

definition masked_tag :: "in_l2tagstack \<Rightarrow> nat \<Rightarrow> u32 res" where
  "masked_tag ts i =
     (if i < length (inl2t_masks ts) \<and> i < length (inl2t_tags ts) then Inr (inl2t_tags ts ! i AND inl2t_masks ts ! i) else Inl Out_of_bounds)"

lemma skip_zero_le: "skip_zero ts n i = Inr (n', i') \<Longrightarrow> n' \<le> n"
  by (induction ts n i rule: skip_zero.induct) (auto split: if_splits)

function tagcmp_loop :: "in_l2tagstack \<Rightarrow> in_l2tagstack \<Rightarrow> nat \<Rightarrow> nat \<Rightarrow> nat \<Rightarrow> nat \<Rightarrow> int res" where
  "tagcmp_loop ts1 ts2 n1 i1 n2 i2 =
     (case skip_zero ts1 n1 i1 of Inl f \<Rightarrow> Inl f
      | Inr (n1', i1') \<Rightarrow>
          (case skip_zero ts2 n2 i2 of Inl f \<Rightarrow> Inl f
           | Inr (n2', i2') \<Rightarrow>
               if n1' = 0 \<or> n2' = 0 then Inr (if n1' = 0 \<and> n2' = 0 then 0 else 1)
               else (case masked_tag ts1 i1' of Inl f \<Rightarrow> Inl f
                 | Inr t1 \<Rightarrow> (case masked_tag ts2 i2' of Inl f \<Rightarrow> Inl f
                     | Inr t2 \<Rightarrow> if t1 \<noteq> t2 then Inr 1 else tagcmp_loop ts1 ts2 (n1' - 1) (i1' + 1) (n2' - 1) (i2' + 1)))))"
  by pat_completeness auto

termination
  by (relation "measure (\<lambda>(_, _, n1, _, _, _). n1)") (auto dest: skip_zero_le)

declare tagcmp_loop.simps [simp del]

text \<open>\<open>None\<close> is a null pointer; with a count of 0 the stack behind it is not read.\<close>

definition null_tags :: in_l2tagstack where "null_tags = \<lparr>inl2t_cnt = 0, inl2t_masks = [], inl2t_tags = []\<rparr>"

definition in_promisc_tagcmp :: "in_l2tagstack option \<Rightarrow> in_l2tagstack option \<Rightarrow> int res" where
  "in_promisc_tagcmp p1 p2 =
     (let tagcnt1 = (case p1 of None \<Rightarrow> 0 | Some ts \<Rightarrow> unat (inl2t_cnt ts)); tagcnt2 = (case p2 of None \<Rightarrow> 0 | Some ts \<Rightarrow> unat (inl2t_cnt ts))
      in if tagcnt1 + tagcnt2 = 0 then Inr 0
         else tagcmp_loop (case p1 of None \<Rightarrow> null_tags | Some ts \<Rightarrow> ts) (case p2 of None \<Rightarrow> null_tags | Some ts \<Rightarrow> ts) tagcnt1 0 tagcnt2 0)"

subsubsection \<open>Hashing tags\<close>

definition rotl32 :: "u32 \<Rightarrow> nat \<Rightarrow> u32" where
  "rotl32 x r = push_bit r x OR drop_bit (32 - r) x"

definition fmix32 :: "u32 \<Rightarrow> u32" where
  "fmix32 h =
     (let h = h XOR drop_bit 16 h; h = h * 0x85ebca6b; h = h XOR drop_bit 13 h; h = h * 0xc2b2ae35; h = h XOR drop_bit 16 h in h)"

definition hash_block :: "u32 \<Rightarrow> u32 \<Rightarrow> u32" where
  "hash_block h1 k = (let k1 = rotl32 (k * 0xcc9e2d51) 15 * 0x1b873593; h1 = rotl32 (h1 XOR k1) 13 in h1 * 5 + 0xe6546b64)"

text \<open>The loop of the body, with the hash and the count of blocks it has seen so far; \<open>m\<close> blocks are left, the first at \<open>i\<close>.\<close>

fun hash_loop :: "u32 list \<Rightarrow> u32 list \<Rightarrow> nat \<Rightarrow> nat \<Rightarrow> u32 \<Rightarrow> int \<Rightarrow> (u32 \<times> int) res" where
  "hash_loop key masks 0 i h1 nblocks = Inr (h1, nblocks)"
| "hash_loop key masks (Suc m) i h1 nblocks =
     (if i < length masks then
        (if masks ! i \<noteq> 0 then
           (if i < length key then hash_loop key masks m (i + 1) (hash_block h1 (key ! i AND masks ! i)) nblocks else Inl Out_of_bounds)
         else hash_loop key masks m (i + 1) h1 (nblocks - 1))
      else Inl Out_of_bounds)"

definition in_promisc_hash32 :: "u32 list \<Rightarrow> u32 list \<Rightarrow> nat \<Rightarrow> u32 \<Rightarrow> u32 res" where
  "in_promisc_hash32 key masks nblocks seed =
     res_bind (hash_loop key masks nblocks 0 seed (int nblocks)) (\<lambda>(h1, n). Inr (fmix32 (h1 XOR push_bit 2 (of_int n))))"

subsection \<open>Sockets and protocol control blocks\<close>

datatype errno = ENOMEM | EEXIST | EINVAL | ENOENT | EOPNOTSUPP | Copy_error nat

type_synonym error = "errno option"

record psocket =
  so_promisc :: bool
  so_l2info :: "in_l2info option"

definition in_promisc_socket_init :: "bool \<Rightarrow> psocket \<Rightarrow> psocket \<times> error" where
  "in_promisc_socket_init avail so =
     (let l = in_promisc_l2info_alloc avail in (so\<lparr>so_l2info := l\<rparr>, if l = None then Some ENOMEM else None))"

definition in_promisc_socket_destroy :: "psocket \<Rightarrow> psocket" where
  "in_promisc_socket_destroy so = (if so_l2info so \<noteq> None then so\<lparr>so_l2info := None\<rparr> else so)"

definition in_promisc_socket_newconn :: "psocket \<Rightarrow> psocket \<Rightarrow> psocket res" where
  "in_promisc_socket_newconn head so =
     (case (so_l2info so, so_l2info head) of
        (Some l, Some h) \<Rightarrow> Inr (so\<lparr>so_l2info := Some (l\<lparr>inl2i_flags := inl2i_flags h AND NOT INL2I_TAG_ANY,
          inl2i_tagstack := in_promisc_l2tagstack_copy (inl2i_tagstack l) (inl2i_tagstack h)\<rparr>)\<rparr>)
      | _ \<Rightarrow> Inl Null_deref)"

subsection \<open>SYN filters\<close>

definition SYNF_ACCEPT :: int where "SYNF_ACCEPT = 0"
definition SYNF_REJECT_SILENT :: int where "SYNF_REJECT_SILENT = 3"

datatype callback = Null_callback | Callback nat

text \<open>\<open>struct syn_filter\<close> and \<open>struct syn_filter_internal\<close>; the constructor and destructor may be null.\<close>

record syn_filter =
  synf_name :: string
  synf_callback :: callback
  synf_create :: "nat option"
  synf_destroy :: "nat option"

record syn_filter_internal =
  params :: syn_filter
  sf_refcount :: u32

record syn_filter_instance =
  inst_sfi :: nat
  ctor_arg :: string
  instance_arg :: "nat option"

record pinpcb =
  inp_l2info :: "in_l2info option"
  inp_promisc :: bool
  inp_synfilter :: bool
  inp_synf :: "syn_filter_instance option"

type_synonym registry = "(nat \<times> syn_filter_internal) list"

definition in_promisc_inpcb_init :: "bool \<Rightarrow> psocket \<Rightarrow> pinpcb \<Rightarrow> pinpcb \<times> error" where
  "in_promisc_inpcb_init avail so inp =
     (case in_promisc_l2info_alloc avail of
        None \<Rightarrow> (inp\<lparr>inp_l2info := None\<rparr>, Some ENOMEM)
      | Some l \<Rightarrow> (inp\<lparr>inp_l2info := Some l, inp_promisc := inp_promisc inp \<or> so_promisc so\<rparr>, None))"

fun syn_filter_get_locked :: "registry \<Rightarrow> string \<Rightarrow> (nat \<times> syn_filter_internal) option" where
  "syn_filter_get_locked [] name = None"
| "syn_filter_get_locked ((a, p) # ps) name = (if synf_name (params p) = name then Some (a, p) else syn_filter_get_locked ps name)"

definition set_sfi :: "nat \<Rightarrow> syn_filter_internal \<Rightarrow> registry \<Rightarrow> registry" where
  "set_sfi a p sfs = map (\<lambda>(b, q). (b, if b = a then p else q)) sfs"

definition syn_filter_alloc :: "nat option \<Rightarrow> syn_filter \<Rightarrow> (nat \<times> syn_filter_internal) option" where
  "syn_filter_alloc mem sf = (case mem of None \<Rightarrow> None | Some a \<Rightarrow> Some (a, \<lparr>params = sf, sf_refcount = 1\<rparr>))"

definition syn_filter_attach :: "registry \<Rightarrow> string \<Rightarrow> registry \<times> nat option" where
  "syn_filter_attach sfs name =
     (case syn_filter_get_locked sfs name of None \<Rightarrow> (sfs, None)
      | Some (a, p) \<Rightarrow> (set_sfi a (p\<lparr>sf_refcount := sf_refcount p + 1\<rparr>) sfs, Some a))"

definition syn_filter_detach_locked :: "registry \<Rightarrow> nat \<Rightarrow> registry res" where
  "syn_filter_detach_locked sfs a =
     (case map_of sfs a of None \<Rightarrow> Inl Use_after_free
      | Some p \<Rightarrow> if sf_refcount p = 1 then Inr (filter (\<lambda>(b, _). b \<noteq> a) sfs)
                  else Inr (set_sfi a (p\<lparr>sf_refcount := sf_refcount p - 1\<rparr>) sfs))"

definition syn_filter_null_callback :: int where "syn_filter_null_callback = SYNF_REJECT_SILENT"

text \<open>\<open>call\<close> stands for the code behind a callback.\<close>

definition syn_filter_run_callback :: "(nat \<Rightarrow> nat option \<Rightarrow> 'arg \<Rightarrow> int) \<Rightarrow> registry \<Rightarrow> pinpcb \<Rightarrow> 'arg \<Rightarrow> int res" where
  "syn_filter_run_callback call sfs inp arg =
     (case inp_synf inp of None \<Rightarrow> Inr SYNF_ACCEPT
      | Some i \<Rightarrow> (case map_of sfs (inst_sfi i) of None \<Rightarrow> Inl Use_after_free
          | Some p \<Rightarrow> Inr (case synf_callback (params p) of Null_callback \<Rightarrow> syn_filter_null_callback
              | Callback c \<Rightarrow> call c (instance_arg i) arg)))"

text \<open>\<open>ctor\<close> stands for the constructors; without one the result is the control block itself, which is not null.\<close>

definition syn_filter_run_constructor :: "(nat \<Rightarrow> string \<Rightarrow> nat option) \<Rightarrow> registry \<Rightarrow> syn_filter_instance \<Rightarrow> nat \<Rightarrow> nat option res" where
  "syn_filter_run_constructor ctor sfs i inp =
     (case map_of sfs (inst_sfi i) of None \<Rightarrow> Inl Use_after_free
      | Some p \<Rightarrow> Inr (case synf_create (params p) of None \<Rightarrow> Some inp | Some c \<Rightarrow> ctor c (ctor_arg i)))"

definition syn_filter_run_destructor :: "registry \<Rightarrow> pinpcb \<Rightarrow> (registry \<times> pinpcb) res" where
  "syn_filter_run_destructor sfs inp =
     (case inp_synf inp of None \<Rightarrow> Inr (sfs, inp\<lparr>inp_synfilter := False\<rparr>)
      | Some i \<Rightarrow> res_bind (syn_filter_detach_locked sfs (inst_sfi i)) (\<lambda>sfs.
          Inr (sfs, inp\<lparr>inp_synf := None, inp_synfilter := False\<rparr>)))"

definition in_promisc_inpcb_destroy :: "registry \<Rightarrow> pinpcb \<Rightarrow> (registry \<times> pinpcb) res" where
  "in_promisc_inpcb_destroy sfs inp = syn_filter_run_destructor sfs (inp\<lparr>inp_l2info := None\<rparr>)"

definition syn_filter_add :: "nat option \<Rightarrow> registry \<Rightarrow> syn_filter \<Rightarrow> registry \<times> error" where
  "syn_filter_add mem sfs sf =
     (case syn_filter_get_locked sfs (synf_name sf) of
        Some (a, p) \<Rightarrow>
          if synf_callback (params p) \<noteq> Null_callback then (sfs, Some EEXIST)
          else (set_sfi a (p\<lparr>params := (params p)\<lparr>synf_callback := synf_callback sf\<rparr>\<rparr>) sfs, None)
      | None \<Rightarrow> (case syn_filter_alloc mem sf of None \<Rightarrow> (sfs, Some ENOMEM) | Some ap \<Rightarrow> (ap # sfs, None)))"

definition syn_filter_del :: "registry \<Rightarrow> string \<Rightarrow> registry res" where
  "syn_filter_del sfs name =
     (case syn_filter_get_locked sfs name of None \<Rightarrow> Inr sfs
      | Some (a, p) \<Rightarrow> syn_filter_detach_locked (set_sfi a (p\<lparr>params := (params p)\<lparr>synf_callback := Null_callback\<rparr>\<rparr>) sfs) a)"

datatype mod_event = MOD_LOAD | MOD_UNLOAD | MOD_SHUTDOWN | MOD_OTHER

definition syn_filter_generic_mod_event :: "bool \<Rightarrow> nat option \<Rightarrow> registry \<Rightarrow> mod_event \<Rightarrow> syn_filter \<Rightarrow> (registry \<times> error) res" where
  "syn_filter_generic_mod_event unloadable mem sfs event sf =
     (case event of
        MOD_LOAD \<Rightarrow> Inr (syn_filter_add mem sfs sf)
      | MOD_UNLOAD \<Rightarrow> if unloadable then res_bind (syn_filter_del sfs (synf_name sf)) (\<lambda>sfs. Inr (sfs, None)) else Inr (sfs, Some EOPNOTSUPP)
      | MOD_SHUTDOWN \<Rightarrow> Inr (sfs, None)
      | MOD_OTHER \<Rightarrow> Inr (sfs, Some EOPNOTSUPP))"

definition SYNF_NAME_MAX :: nat where "SYNF_NAME_MAX = 16"
definition SYNF_ARG_MAX :: nat where "SYNF_ARG_MAX = 256 - SYNF_NAME_MAX"

text \<open>The option as copied from the caller: two arrays of characters.\<close>

record syn_filter_optarg =
  sfa_name :: string
  sfa_arg :: string

definition cstr :: "string \<Rightarrow> string" where "cstr cs = takeWhile (\<lambda>c. c \<noteq> CHR 0x00) cs"

definition syn_filter_getopt :: "psocket \<Rightarrow> registry \<Rightarrow> pinpcb \<Rightarrow> (errno + string \<times> string) res" where
  "syn_filter_getopt so sfs inp =
     (if \<not> so_promisc so then Inr (Inl EINVAL)
      else case inp_synf inp of None \<Rightarrow> Inl Null_deref
      | Some i \<Rightarrow> (case map_of sfs (inst_sfi i) of None \<Rightarrow> Inl Use_after_free
          | Some p \<Rightarrow> Inr (Inr (synf_name (params p), ctor_arg i))))"

text \<open>\<open>IP_SYNFILTER\<close>: \<open>val\<close> is \<open>None\<close> for a null \<open>sopt_val\<close>, otherwise what \<open>sooptcopyin\<close> returns.\<close>

definition syn_filter_setopt ::
    "(nat \<Rightarrow> string \<Rightarrow> nat option) \<Rightarrow> psocket \<Rightarrow> registry \<Rightarrow> nat \<Rightarrow> pinpcb \<Rightarrow> (nat + syn_filter_optarg) option \<Rightarrow> (registry \<times> pinpcb \<times> error) res" where
  "syn_filter_setopt ctor so sfs addr inp val =
     (if \<not> so_promisc so then Inr (sfs, inp, Some EINVAL)
      else case val of
        None \<Rightarrow> res_bind (syn_filter_run_destructor sfs inp) (\<lambda>(sfs, inp). Inr (sfs, inp, None))
      | Some (Inl e) \<Rightarrow> Inr (sfs, inp, Some (Copy_error e))
      | Some (Inr sfa) \<Rightarrow>
          let name = cstr ((sfa_name sfa)[SYNF_NAME_MAX - 1 := CHR 0x00]); arg = (sfa_arg sfa)[SYNF_ARG_MAX - 1 := CHR 0x00] in
          if inp_synf inp \<noteq> None then Inr (sfs, inp, Some EINVAL)
          else case syn_filter_attach sfs name of
            (sfs, None) \<Rightarrow> Inr (sfs, inp, Some ENOENT)
          | (sfs, Some a) \<Rightarrow>
              let i = \<lparr>inst_sfi = a, ctor_arg = arg, instance_arg = None\<rparr> in
              res_bind (syn_filter_run_constructor ctor sfs i addr) (\<lambda>r.
                if r = None then res_bind (syn_filter_detach_locked sfs a) (\<lambda>sfs. Inr (sfs, inp\<lparr>inp_synf := None\<rparr>, Some EINVAL))
                else Inr (sfs, inp\<lparr>inp_synf := Some (i\<lparr>instance_arg := r\<rparr>), inp_synfilter := True\<rparr>, None)))"

text \<open>\<open>IP_SYNFILTER_RESULT\<close>: what becomes of the packet of a deferred decision; \<open>limited\<close> is whether the rate limit for resets is exceeded.\<close>

definition SYNF_REJECT_RST :: int where "SYNF_REJECT_RST = 2"

datatype synf_action = Free_mbuf | Respond_rst | Syncache_add | No_action

definition syn_filter_result :: "psocket \<Rightarrow> nat + int \<Rightarrow> bool \<Rightarrow> synf_action \<times> error" where
  "syn_filter_result so cbarg limited =
     (if \<not> so_promisc so then (No_action, Some EINVAL)
      else case cbarg of
        Inl e \<Rightarrow> (No_action, Some (Copy_error e))
      | Inr decision \<Rightarrow>
          if decision = SYNF_REJECT_SILENT then (Free_mbuf, None)
          else if decision = SYNF_REJECT_RST then (if limited then Free_mbuf else Respond_rst, None)
          else if decision = SYNF_ACCEPT then (Syncache_add, None)
          else (No_action, Some EINVAL))"

end
