(* ===== verification/Promisc_Props.thy ===== *)
theory Promisc_Props
  imports Promisc
begin

text \<open>
  Properties of promiscuous sockets.  Tag stacks are read as the list of their visible tags.  For the registry of SYN filters, \<open>ref_ok\<close> says
  that every reference count is the number of instances plus the module's own reference; each operation is shown to keep it, and
  \<open>synf_reach\<close> runs the operations in any order.
\<close>

subsection \<open>Tags that are compared\<close>

definition visible :: "in_l2tagstack \<Rightarrow> nat \<Rightarrow> nat \<Rightarrow> u32 list" where
  "visible ts n i = map (\<lambda>j. inl2t_tags ts ! j AND inl2t_masks ts ! j) (filter (\<lambda>j. inl2t_masks ts ! j \<noteq> 0) [i..<i + n])"

definition wf_tags :: "in_l2tagstack \<Rightarrow> bool" where
  "wf_tags ts \<longleftrightarrow> length (inl2t_masks ts) = IN_L2INFO_MAX_TAGS \<and> length (inl2t_tags ts) = IN_L2INFO_MAX_TAGS \<and>
     unat (inl2t_cnt ts) \<le> IN_L2INFO_MAX_TAGS"

lemma visible_0 [simp]: "visible ts 0 i = []" by (simp add: visible_def)

lemma visible_Suc: "visible ts (Suc n) i =
  (if inl2t_masks ts ! i = 0 then visible ts n (Suc i) else (inl2t_tags ts ! i AND inl2t_masks ts ! i) # visible ts n (Suc i))"
proof -
  have "[i..<i + Suc n] = i # [Suc i..<Suc i + n]" by (simp add: upt_conv_Cons del: upt_Suc)
  then show ?thesis by (simp add: visible_def del: upt_Suc)
qed

lemma skip_zero_spec:
  "i + n \<le> length (inl2t_masks ts) \<Longrightarrow> \<exists>n' i'. skip_zero ts n i = Inr (n', i') \<and> n' + i' = n + i \<and> visible ts n' i' = visible ts n i \<and>
    (n' = 0 \<or> inl2t_masks ts ! i' \<noteq> 0)"
  by (induction ts n i rule: skip_zero.induct) (auto simp: visible_Suc)

lemma tagcmp_loop_spec:
  assumes "length (inl2t_tags ts1) = length (inl2t_masks ts1)" "length (inl2t_tags ts2) = length (inl2t_masks ts2)"
  shows "i1 + n1 \<le> length (inl2t_masks ts1) \<Longrightarrow> i2 + n2 \<le> length (inl2t_masks ts2) \<Longrightarrow>
    tagcmp_loop ts1 ts2 n1 i1 n2 i2 = Inr (if visible ts1 n1 i1 = visible ts2 n2 i2 then 0 else 1)"
proof (induction n1 arbitrary: i1 n2 i2 rule: less_induct)
  case (less n1)
  obtain m1 j1 where 1: "skip_zero ts1 n1 i1 = Inr (m1, j1)" "m1 + j1 = n1 + i1" "visible ts1 m1 j1 = visible ts1 n1 i1"
      "m1 = 0 \<or> inl2t_masks ts1 ! j1 \<noteq> 0"
    using skip_zero_spec[OF less(2)] by blast
  obtain m2 j2 where 2: "skip_zero ts2 n2 i2 = Inr (m2, j2)" "m2 + j2 = n2 + i2" "visible ts2 m2 j2 = visible ts2 n2 i2"
      "m2 = 0 \<or> inl2t_masks ts2 ! j2 \<noteq> 0"
    using skip_zero_spec[OF less(3)] by blast
  note run = tagcmp_loop.simps[of ts1 ts2 n1 i1 n2 i2]
  show ?case
  proof (cases "m1 = 0 \<or> m2 = 0")
    case True
    have e: "visible ts m j = [] \<longleftrightarrow> m = 0" if "m = 0 \<or> inl2t_masks ts ! j \<noteq> 0" for ts m j
      using that by (cases m) (auto simp: visible_Suc)
    have "visible ts1 m1 j1 = visible ts2 m2 j2 \<longleftrightarrow> m1 = 0 \<and> m2 = 0"
      using True e[OF 1(4)] e[OF 2(4)] by (cases "m1 = 0"; cases "m2 = 0") auto
    then show ?thesis using True 1 2 by (simp add: run)
  next
    case False
    then obtain k1 k2 where k: "m1 = Suc k1" "m2 = Suc k2" by (metis not0_implies_Suc)
    let ?t1 = "inl2t_tags ts1 ! j1 AND inl2t_masks ts1 ! j1" and ?t2 = "inl2t_tags ts2 ! j2 AND inl2t_masks ts2 ! j2"
    have t: "masked_tag ts1 j1 = Inr ?t1" "masked_tag ts2 j2 = Inr ?t2"
      using less(2,3) 1(2) 2(2) k assms by (simp_all add: masked_tag_def)
    have v: "visible ts1 n1 i1 = ?t1 # visible ts1 k1 (Suc j1)" "visible ts2 n2 i2 = ?t2 # visible ts2 k2 (Suc j2)"
      using 1(3,4) 2(3,4) k by (simp_all add: visible_Suc)
    have "k1 < n1" using skip_zero_le[OF 1(1)] k by simp
    then have "tagcmp_loop ts1 ts2 k1 (Suc j1) k2 (Suc j2) = Inr (if visible ts1 k1 (Suc j1) = visible ts2 k2 (Suc j2) then 0 else 1)"
      using less(2,3) 1(2) 2(2) k by (intro less(1)) simp_all
    then show ?thesis unfolding v using k 1(1) 2(1) t by (simp add: run)
  qed
qed

definition tags_of :: "in_l2tagstack option \<Rightarrow> u32 list" where
  "tags_of p = (case p of None \<Rightarrow> [] | Some ts \<Rightarrow> visible ts (unat (inl2t_cnt ts)) 0)"

definition wf_tags_opt :: "in_l2tagstack option \<Rightarrow> bool" where
  "wf_tags_opt p = (case p of None \<Rightarrow> True | Some ts \<Rightarrow> wf_tags ts)"

lemma in_promisc_tagcmp_spec:
  assumes "wf_tags_opt p1" "wf_tags_opt p2"
  shows "in_promisc_tagcmp p1 p2 = Inr (if tags_of p1 = tags_of p2 then 0 else 1)"
  using assms by (auto simp: in_promisc_tagcmp_def tags_of_def wf_tags_opt_def wf_tags_def null_tags_def tagcmp_loop_spec Let_def intro!: gr0I split: option.splits)

lemma hash_loop_spec:
  assumes "i + m \<le> length (inl2t_masks ts)" "i + m \<le> length (inl2t_tags ts)"
  shows "hash_loop (inl2t_tags ts) (inl2t_masks ts) m i h n =
    Inr (foldl hash_block h (visible ts m i), n - int (m - length (visible ts m i))) \<and> length (visible ts m i) \<le> m"
  using assms
proof (induction m arbitrary: i h n)
  case (Suc m)
  have IH: "hash_loop (inl2t_tags ts) (inl2t_masks ts) m (i + 1) h' n' =
      Inr (foldl hash_block h' (visible ts m (Suc i)), n' - int (m - length (visible ts m (Suc i))))" "length (visible ts m (Suc i)) \<le> m" for h' n'
    using Suc.IH[of "Suc i" h' n'] Suc.prems by simp_all
  show ?case using Suc.prems IH(1) IH(2) by (auto simp: visible_Suc Suc_diff_le)
qed simp

lemma in_promisc_hash32_spec:
  assumes "wf_tags ts"
  shows "in_promisc_hash32 (inl2t_tags ts) (inl2t_masks ts) (unat (inl2t_cnt ts)) seed =
    Inr (fmix32 (foldl hash_block seed (tags_of (Some ts)) XOR push_bit 2 (of_nat (length (tags_of (Some ts))))))"
proof -
  let ?m = "unat (inl2t_cnt ts)"
  have "0 + ?m \<le> length (inl2t_masks ts)" "0 + ?m \<le> length (inl2t_tags ts)" using assms by (simp_all add: wf_tags_def)
  note S = hash_loop_spec[OF this, of seed "int ?m"]
  have "int ?m - int (?m - length (visible ts ?m 0)) = int (length (visible ts ?m 0))" using S by linarith
  then show ?thesis using S by (simp add: in_promisc_hash32_def tags_of_def)
qed

subsection \<open>Reference counts\<close>

text \<open>\<open>att a\<close> counts the instances that point to the filter at \<open>a\<close>.  A filter whose module is loaded holds one reference more.\<close>

definition held :: "syn_filter_internal \<Rightarrow> nat" where
  "held p = (if synf_callback (params p) = Null_callback then 0 else 1)"

definition ref_ok :: "registry \<Rightarrow> (nat \<Rightarrow> nat) \<Rightarrow> bool" where
  "ref_ok sfs att \<longleftrightarrow> distinct (map fst sfs) \<and>
     (\<forall>(a, p) \<in> set sfs. unat (sf_refcount p) = held p + att a \<and> 0 < sf_refcount p) \<and>
     (\<forall>a. 0 < att a \<longrightarrow> a \<in> fst ` set sfs)"

lemma set_set_sfi:
  "(b, q) \<in> set (set_sfi a p sfs) \<longleftrightarrow> (b = a \<and> q = p \<and> a \<in> fst ` set sfs) \<or> (b \<noteq> a \<and> (b, q) \<in> set sfs)"
  by (induction sfs) (auto simp: set_sfi_def split: if_splits)

lemma fst_set_sfi: "map fst (set_sfi a p sfs) = map fst sfs"
  by (induction sfs) (auto simp: set_sfi_def)

lemma fst_set_sfi_set: "fst ` set (set_sfi a p sfs) = fst ` set sfs"
  using arg_cong[OF fst_set_sfi[of a p sfs], of set] by simp

lemma map_of_set_sfi: "map_of sfs a = Some q \<Longrightarrow> map_of (set_sfi a p sfs) a = Some p"
  by (induction sfs) (auto simp: set_sfi_def)

lemma set_sfi_twice: "set_sfi a q (set_sfi a p sfs) = set_sfi a q sfs"
  by (induction sfs) (auto simp: set_sfi_def)

lemma get_locked_Some: "syn_filter_get_locked sfs name = Some (a, p) \<Longrightarrow> (a, p) \<in> set sfs \<and> synf_name (params p) = name"
  by (induction sfs name rule: syn_filter_get_locked.induct) (auto split: if_splits)

lemma get_locked_set:
  assumes "syn_filter_get_locked sfs name = Some (a, p)" "distinct (map fst sfs)" "synf_name (params q) = name"
  shows "syn_filter_get_locked (set_sfi a q sfs) name = Some (a, q)"
  using assms
proof (induction sfs)
  case (Cons x sfs)
  obtain b r where x: "x = (b, r)" by (cases x)
  show ?case
  proof (cases "synf_name (params r) = name")
    case True
    then show ?thesis using Cons.prems x by (simp add: set_sfi_def)
  next
    case False
    then have g: "syn_filter_get_locked sfs name = Some (a, p)" using Cons.prems x by simp
    then have "b \<noteq> a" using get_locked_Some[OF g] Cons.prems(2) x by (auto simp: image_iff)
    then show ?thesis using Cons.IH[OF g] Cons.prems False x by (simp add: set_sfi_def)
  qed
qed simp

lemma ref_set:
  assumes ok: "ref_ok sfs att" and a: "a \<in> fst ` set sfs" and q: "unat (sf_refcount q) = held q + n" "0 < sf_refcount q"
  shows "ref_ok (set_sfi a q sfs) (att(a := n))"
proof -
  have d: "distinct (map fst sfs)" using ok by (simp add: ref_ok_def)
  have "unat (sf_refcount r) = held r + (att(a := n)) b \<and> 0 < sf_refcount r" if "(b, r) \<in> set (set_sfi a q sfs)" for b r
    using that q ok unfolding set_set_sfi by (auto simp: ref_ok_def)
  moreover have "b \<in> fst ` set (set_sfi a q sfs)" if "0 < (att(a := n)) b" for b
    using that ok a unfolding fst_set_sfi_set by (auto simp: ref_ok_def split: if_splits)
  ultimately show ?thesis using d unfolding ref_ok_def fst_set_sfi by blast
qed

lemma ref_remove:
  assumes "ref_ok sfs att"
  shows "ref_ok (filter (\<lambda>(b, _). b \<noteq> a) sfs) (att(a := 0))"
proof -
  have "distinct (map fst (filter (\<lambda>(b, _). b \<noteq> a) sfs))" using assms by (auto simp: ref_ok_def intro: distinct_map_filter)
  moreover have "unat (sf_refcount r) = held r + (att(a := 0)) b \<and> 0 < sf_refcount r" if "(b, r) \<in> set (filter (\<lambda>(b, _). b \<noteq> a) sfs)" for b r
    using that assms by (auto simp: ref_ok_def)
  moreover have "b \<in> fst ` set (filter (\<lambda>(b, _). b \<noteq> a) sfs)" if "0 < (att(a := 0)) b" for b
  proof -
    have "b \<noteq> a" "0 < att b" using that by (auto split: if_splits)
    then have "b \<in> fst ` set sfs" using assms unfolding ref_ok_def by blast
    then obtain q where "(b, q) \<in> set sfs" by auto
    then have "(b, q) \<in> set (filter (\<lambda>(b, _). b \<noteq> a) sfs)" using \<open>b \<noteq> a\<close> by simp
    then show ?thesis by (rule rev_image_eqI) simp
  qed
  ultimately show ?thesis unfolding ref_ok_def by blast
qed

lemma ref_lookup: "ref_ok sfs att \<Longrightarrow> (a, p) \<in> set sfs \<Longrightarrow> map_of sfs a = Some p"
  by (simp add: ref_ok_def)

lemma ref_attached:
  assumes "ref_ok sfs att" "0 < att a"
  obtains p where "map_of sfs a = Some p" "(a, p) \<in> set sfs" "unat (sf_refcount p) = held p + att a"
proof -
  have "a \<in> fst ` set sfs" using assms unfolding ref_ok_def by blast
  then obtain p where "(a, p) \<in> set sfs" by auto
  then show ?thesis using that ref_lookup[OF assms(1)] assms(1) by (auto simp: ref_ok_def)
qed

text \<open>Dropping one reference, of an instance or of the module.\<close>

lemma ref_detach:
  assumes ok: "ref_ok sfs att" and p: "(a, p) \<in> set sfs" and q: "map_of sfs' a = Some q" "sf_refcount q = sf_refcount p"
    and n: "held q + n + 1 = held p + att a" and s: "\<And>r. set_sfi a r sfs' = set_sfi a r sfs"
      "filter (\<lambda>(b, _). b \<noteq> a) sfs' = filter (\<lambda>(b, _). b \<noteq> a) sfs"
  shows "\<exists>s'. syn_filter_detach_locked sfs' a = Inr s' \<and> ref_ok s' (att(a := n))"
proof -
  have c: "unat (sf_refcount p) = held p + att a" "0 < sf_refcount p" using ok p by (auto simp: ref_ok_def)
  show ?thesis
  proof (cases "sf_refcount q = 1")
    case True
    then have "n = 0" using c n q(2) by simp
    then show ?thesis using True q s(2) ref_remove[OF ok, of a] by (simp add: syn_filter_detach_locked_def)
  next
    case False
    let ?q = "q\<lparr>sf_refcount := sf_refcount q - 1\<rparr>"
    have "unat (sf_refcount q - 1) = unat (sf_refcount q) - 1"
      using c(2) q(2) by (subst unat_sub) (simp_all add: word_less_nat_alt word_le_nat_alt)
    then have u: "unat (sf_refcount ?q) = held ?q + n" using c n q(2) by (simp add: held_def)
    have "unat (sf_refcount q) \<noteq> 1" using False by (simp add: word_unat_eq_iff)
    moreover have "held ?q = held q" by (simp add: held_def)
    ultimately have "0 < unat (sf_refcount ?q)" using u c(1) n q(2) by simp linarith
    then have "0 < sf_refcount ?q" by (simp only: word_less_nat_alt unat_0)
    then show ?thesis using False q(1) s(1) ref_set[OF ok, of a ?q n] u p
      by (force simp: syn_filter_detach_locked_def)
  qed
qed

subsection \<open>The operations\<close>

definition quiet :: "registry \<Rightarrow> string \<Rightarrow> bool" where
  "quiet sfs name \<longleftrightarrow> (\<forall>a p. syn_filter_get_locked sfs name = Some (a, p) \<longrightarrow> synf_callback (params p) \<noteq> Null_callback)"

lemma ref_update_attached:
  assumes "ref_ok sfs att" "0 < att a"
  shows "\<exists>s'. syn_filter_detach_locked sfs a = Inr s' \<and> ref_ok s' (att(a := att a - 1))"
proof -
  obtain p where p: "map_of sfs a = Some p" "(a, p) \<in> set sfs" using ref_attached[OF assms] by blast
  show ?thesis using assms(2) p by (intro ref_detach[OF assms(1) p(2) p(1)]) auto
qed

lemma ref_del:
  assumes ok: "ref_ok sfs att" and q: "quiet sfs name"
  shows "\<exists>s'. syn_filter_del sfs name = Inr s' \<and> ref_ok s' att"
proof (cases "syn_filter_get_locked sfs name")
  case None
  then show ?thesis using ok by (simp add: syn_filter_del_def)
next
  case (Some x)
  obtain a p where x: "x = (a, p)" by (cases x)
  have p: "(a, p) \<in> set sfs" "synf_callback (params p) \<noteq> Null_callback"
    using get_locked_Some Some x q by (auto simp: quiet_def)
  let ?q = "p\<lparr>params := (params p)\<lparr>synf_callback := Null_callback\<rparr>\<rparr>"
  have f: "filter (\<lambda>(b, _). b \<noteq> a) (set_sfi a ?q sfs) = filter (\<lambda>(b, _). b \<noteq> a) sfs"
    by (induction sfs) (auto simp: set_sfi_def)
  have m: "map_of (set_sfi a ?q sfs) a = Some ?q" using ref_lookup[OF ok p(1)] by (rule map_of_set_sfi)
  have "\<exists>s'. syn_filter_detach_locked (set_sfi a ?q sfs) a = Inr s' \<and> ref_ok s' (att(a := att a))"
    using p(2) by (intro ref_detach[OF ok p(1) m _ _ set_sfi_twice f]) (simp_all add: held_def)
  then show ?thesis using Some x by (simp add: syn_filter_del_def)
qed

lemma ref_add:
  assumes ok: "ref_ok sfs att" and q: "quiet sfs (synf_name sf)" and sf: "synf_callback sf \<noteq> Null_callback"
    and mem: "\<And>a. mem = Some a \<Longrightarrow> a \<notin> fst ` set sfs"
  shows "ref_ok (fst (syn_filter_add mem sfs sf)) att"
proof (cases "syn_filter_get_locked sfs (synf_name sf)")
  case (Some x)
  then show ?thesis using ok q by (cases x) (auto simp: syn_filter_add_def quiet_def)
next
  case None
  show ?thesis
  proof (cases mem)
    case m: (Some a)
    have "att a = 0" using ok mem[OF m] by (auto simp: ref_ok_def)
    then show ?thesis using None m mem[OF m] ok sf by (auto simp: syn_filter_add_def syn_filter_alloc_def ref_ok_def held_def)
  qed (use None ok in \<open>simp add: syn_filter_add_def syn_filter_alloc_def\<close>)
qed

lemma ref_attach:
  assumes ok: "ref_ok sfs att" and at: "syn_filter_attach sfs name = (sfs', Some a)" and b: "att a + 1 < 2 ^ 32 - 1"
  shows "ref_ok sfs' (att(a := att a + 1)) \<and> a \<in> fst ` set sfs'"
proof -
  obtain p where g: "syn_filter_get_locked sfs name = Some (a, p)" and s: "sfs' = set_sfi a (p\<lparr>sf_refcount := sf_refcount p + 1\<rparr>) sfs"
    using at by (auto simp: syn_filter_attach_def split: option.splits)
  have p: "(a, p) \<in> set sfs" using get_locked_Some[OF g] by simp
  then have c: "unat (sf_refcount p) = held p + att a" "0 < sf_refcount p" using ok by (auto simp: ref_ok_def)
  have h: "held p \<le> 1" by (simp add: held_def)
  have "unat (sf_refcount p + 1) = unat (sf_refcount p) + unat (1 :: u32)"
    using c(1) h b by (subst unat_add_lem[symmetric]) simp
  then have u: "unat (sf_refcount p + 1) = held p + (att a + 1)" using c(1) by simp
  then have "0 < sf_refcount p + 1" by (simp add: word_less_nat_alt)
  then show ?thesis unfolding s using u p ref_set[OF ok, of a "p\<lparr>sf_refcount := sf_refcount p + 1\<rparr>" "att a + 1"]
    by (force simp: held_def fst_set_sfi_set)
qed

definition points :: "pinpcb \<Rightarrow> nat \<Rightarrow> nat" where
  "points inp a = (case inp_synf inp of None \<Rightarrow> 0 | Some i \<Rightarrow> if inst_sfi i = a then 1 else 0)"

lemma ref_destructor:
  assumes ok: "ref_ok sfs att" and le: "\<And>a. points inp a \<le> att a"
  shows "\<exists>sfs' inp'. syn_filter_run_destructor sfs inp = Inr (sfs', inp') \<and> inp_synf inp' = None \<and> ref_ok sfs' (\<lambda>a. att a - points inp a)"
proof (cases "inp_synf inp")
  case None
  then show ?thesis using ok by (simp add: syn_filter_run_destructor_def points_def)
next
  case (Some i)
  have "0 < att (inst_sfi i)" using le[of "inst_sfi i"] Some by (simp add: points_def)
  from ref_update_attached[OF ok this] obtain s' where "syn_filter_detach_locked sfs (inst_sfi i) = Inr s'"
      "ref_ok s' (att(inst_sfi i := att (inst_sfi i) - 1))" by blast
  moreover have "att(inst_sfi i := att (inst_sfi i) - 1) = (\<lambda>a. att a - points inp a)" using Some by (auto simp: points_def)
  ultimately show ?thesis using Some by (simp add: syn_filter_run_destructor_def)
qed

lemma ref_setopt:
  assumes ok: "ref_ok sfs att" and le: "\<And>a. points inp a \<le> att a" and b: "\<And>a. att a + 1 < 2 ^ 32 - 1"
  shows "\<exists>sfs' inp' e. syn_filter_setopt ctor so sfs n inp val = Inr (sfs', inp', e) \<and> ref_ok sfs' (\<lambda>a. att a - points inp a + points inp' a)"
proof -
  have keep: "(\<lambda>a. att a - points inp a + points inp a) = att" using le by auto
  show ?thesis
  proof (cases "so_promisc so \<and> val \<noteq> None")
    case False
    then show ?thesis using ok keep ref_destructor[OF ok le] by (cases val) (auto simp: syn_filter_setopt_def points_def)
  next
    case True
    then obtain v where v: "val = Some v" by auto
    show ?thesis
    proof (cases "inp_synf inp = None \<and> (\<exists>sfa. v = Inr sfa)")
      case False
      then show ?thesis using True v ok keep by (cases v) (auto simp: syn_filter_setopt_def Let_def)
    next
      case attach: True
      then obtain sfa where sfa: "v = Inr sfa" and none: "inp_synf inp = None" by blast
      have p0: "points inp a = 0" for a using none by (simp add: points_def)
      define name where "name = cstr ((sfa_name sfa)[SYNF_NAME_MAX - 1 := CHR 0x00])"
      define arg where "arg = (sfa_arg sfa)[SYNF_ARG_MAX - 1 := CHR 0x00]"
      obtain s r where sr: "syn_filter_attach sfs name = (s, r)" by (cases "syn_filter_attach sfs name")
      have unf: "syn_filter_setopt ctor so sfs n inp val = (case r of None \<Rightarrow> Inr (s, inp, Some ENOENT)
        | Some a \<Rightarrow> res_bind (syn_filter_run_constructor ctor s \<lparr>inst_sfi = a, ctor_arg = arg, instance_arg = None\<rparr> n) (\<lambda>c.
            if c = None then res_bind (syn_filter_detach_locked s a) (\<lambda>sfs. Inr (sfs, inp\<lparr>inp_synf := None\<rparr>, Some EINVAL))
            else Inr (s, inp\<lparr>inp_synf := Some (\<lparr>inst_sfi = a, ctor_arg = arg, instance_arg = None\<rparr>\<lparr>instance_arg := c\<rparr>), inp_synfilter := True\<rparr>, None)))"
        using True v sfa none sr unfolding name_def arg_def One_nat_def by (simp add: syn_filter_setopt_def Let_def split: option.split)
      show ?thesis
      proof (cases r)
        case None
        then have "s = sfs" using sr by (auto simp: syn_filter_attach_def split: option.splits)
        then show ?thesis using None ok keep by (intro exI[of _ sfs] exI[of _ inp] exI[of _ "Some ENOENT"]) (simp add: unf)
      next
        case (Some a)
        have at: "ref_ok s (att(a := att a + 1))" "a \<in> fst ` set s" using ref_attach[OF ok sr[unfolded Some] b] by auto
        let ?i = "\<lparr>inst_sfi = a, ctor_arg = arg, instance_arg = None\<rparr>"
        obtain p where mp: "map_of s a = Some p" using at(2) map_of_eq_None_iff[of s a] by (cases "map_of s a") auto
        obtain c where c: "syn_filter_run_constructor ctor s ?i n = Inr c"
          using mp by (simp add: syn_filter_run_constructor_def)
        show ?thesis
        proof (cases c)
          case None
          from ref_update_attached[OF at(1), of a] obtain s' where "syn_filter_detach_locked s a = Inr s'" "ref_ok s' att" by auto
          then show ?thesis using Some c None p0
            by (intro exI[of _ s'] exI[of _ "inp\<lparr>inp_synf := None\<rparr>"] exI[of _ "Some EINVAL"]) (simp add: unf points_def)
        next
          case inst: (Some x)
          let ?inp = "inp\<lparr>inp_synf := Some (?i\<lparr>instance_arg := c\<rparr>), inp_synfilter := True\<rparr>"
          have "att(a := att a + 1) = (\<lambda>b. att b - points inp b + points ?inp b)" using p0 by (auto simp: points_def)
          then show ?thesis using Some c inst at(1) by (intro exI[of _ s] exI[of _ ?inp] exI[of _ None]) (simp add: unf)
        qed
      qed
    qed
  qed
qed

subsection \<open>The registry and its sockets\<close>

type_synonym pinpcbs = "(nat \<times> pinpcb) list"

definition put_inp :: "nat \<Rightarrow> pinpcb \<Rightarrow> pinpcbs \<Rightarrow> pinpcbs" where
  "put_inp n inp inps = map (\<lambda>(m, q). (m, if m = n then inp else q)) inps"

definition attached :: "pinpcbs \<Rightarrow> nat \<Rightarrow> nat" where
  "attached inps a = sum_list (map (\<lambda>(_, inp). points inp a) inps)"

text \<open>Modules come and go, sockets are created, set and remove filters and are destroyed, in any order.  The one restriction is that a filter
  whose module was unloaded while sockets used it is neither loaded nor unloaded again before the last of them lets go.\<close>

inductive synf_reach :: "(nat \<Rightarrow> string \<Rightarrow> nat option) \<Rightarrow> registry \<Rightarrow> pinpcbs \<Rightarrow> bool" for ctor where
  synf_init: "synf_reach ctor [] []"
| synf_new: "synf_reach ctor sfs inps \<Longrightarrow> n \<notin> fst ` set inps \<Longrightarrow> inp_synf inp = None \<Longrightarrow> length inps + 1 < 2 ^ 31 \<Longrightarrow>
    synf_reach ctor sfs ((n, inp) # inps)"
| synf_event: "synf_reach ctor sfs inps \<Longrightarrow> quiet sfs (synf_name sf) \<Longrightarrow> synf_callback sf \<noteq> Null_callback \<Longrightarrow>
    (case mem of None \<Rightarrow> True | Some a \<Rightarrow> a \<notin> fst ` set sfs) \<Longrightarrow>
    syn_filter_generic_mod_event u mem sfs event sf = Inr (sfs', e) \<Longrightarrow> synf_reach ctor sfs' inps"
| synf_setopt: "synf_reach ctor sfs inps \<Longrightarrow> (n, inp) \<in> set inps \<Longrightarrow>
    syn_filter_setopt ctor so sfs n inp val = Inr (sfs', inp', e) \<Longrightarrow> synf_reach ctor sfs' (put_inp n inp' inps)"
| synf_close: "synf_reach ctor sfs inps \<Longrightarrow> (n, inp) \<in> set inps \<Longrightarrow>
    in_promisc_inpcb_destroy sfs inp = Inr (sfs', inp') \<Longrightarrow> synf_reach ctor sfs' (put_inp n inp' inps)"

lemma put_inp_fst: "map fst (put_inp n inp inps) = map fst inps"
  by (induction inps) (auto simp: put_inp_def)

lemma put_inp_absent: "n \<notin> fst ` set inps \<Longrightarrow> put_inp n inp inps = inps"
  by (induction inps) (auto simp: put_inp_def)

lemma attached_put:
  "distinct (map fst inps) \<Longrightarrow> (n, old) \<in> set inps \<Longrightarrow> attached (put_inp n inp inps) a + points old a = attached inps a + points inp a"
proof (induction inps)
  case (Cons x inps)
  obtain m q where x: "x = (m, q)" by (cases x)
  show ?case
  proof (cases "m = n")
    case True
    then have "n \<notin> fst ` set inps" "old = q" using Cons.prems x by (auto simp: rev_image_eqI)
    then show ?thesis using put_inp_absent[of n inps inp] True x by (simp add: attached_def put_inp_def)
  next
    case False
    then have "(n, old) \<in> set inps" using Cons.prems x by simp
    then show ?thesis using Cons.IH Cons.prems False x by (simp add: attached_def put_inp_def)
  qed
qed simp

lemma points_attached: "(n, inp) \<in> set inps \<Longrightarrow> points inp a \<le> attached inps a"
  by (induction inps) (auto simp: attached_def)

lemma attached_le: "attached inps a \<le> length inps"
  by (induction inps) (auto simp: attached_def points_def split: option.splits)

lemma reach_step:
  assumes "ref_ok sfs' (\<lambda>a. attached inps a - points inp a + points inp' a)" "distinct (map fst inps)" "(n, inp) \<in> set inps"
  shows "ref_ok sfs' (attached (put_inp n inp' inps))"
proof -
  have "attached (put_inp n inp' inps) a = attached inps a - points inp a + points inp' a" for a
    using attached_put[OF assms(2,3), of inp' a] points_attached[OF assms(3), of a] by linarith
  then have "attached (put_inp n inp' inps) = (\<lambda>a. attached inps a - points inp a + points inp' a)" by (rule ext)
  then show ?thesis using assms(1) by (simp only:)
qed

lemma ref_close:
  assumes "ref_ok sfs att" "\<And>a. points inp a \<le> att a"
  shows "\<exists>sfs' inp'. in_promisc_inpcb_destroy sfs inp = Inr (sfs', inp') \<and> ref_ok sfs' (\<lambda>a. att a - points inp a + points inp' a)"
proof -
  have p: "points (inp\<lparr>inp_l2info := None\<rparr>) a = points inp a" for a by (simp add: points_def)
  obtain sfs' inp' where d: "syn_filter_run_destructor sfs (inp\<lparr>inp_l2info := None\<rparr>) = Inr (sfs', inp')" "inp_synf inp' = None"
      "ref_ok sfs' (\<lambda>a. att a - points inp a)"
    using ref_destructor[OF assms(1), of "inp\<lparr>inp_l2info := None\<rparr>"] assms(2) unfolding p by blast
  have "points inp' a = 0" for a using d(2) by (simp add: points_def)
  then show ?thesis using d(1,3) by (simp add: in_promisc_inpcb_destroy_def)
qed

lemma ref_event:
  assumes "ref_ok sfs att" "quiet sfs (synf_name sf)" "synf_callback sf \<noteq> Null_callback" "case mem of None \<Rightarrow> True | Some a \<Rightarrow> a \<notin> fst ` set sfs"
  shows "\<exists>sfs' e. syn_filter_generic_mod_event u mem sfs event sf = Inr (sfs', e) \<and> ref_ok sfs' att"
proof (cases event)
  case MOD_LOAD
  have "ref_ok (fst (syn_filter_add mem sfs sf)) att" using assms by (intro ref_add) auto
  then show ?thesis using MOD_LOAD by (cases "syn_filter_add mem sfs sf") (simp add: syn_filter_generic_mod_event_def)
next
  case MOD_UNLOAD
  then show ?thesis using ref_del[OF assms(1,2)] assms(1) by (auto simp: syn_filter_generic_mod_event_def)
qed (use assms(1) in \<open>simp_all add: syn_filter_generic_mod_event_def\<close>)

lemma synf_reach_ok: "synf_reach ctor sfs inps \<Longrightarrow> ref_ok sfs (attached inps) \<and> distinct (map fst inps) \<and> length inps < 2 ^ 31"
proof (induction rule: synf_reach.induct)
  case synf_init
  then show ?case by (simp add: ref_ok_def attached_def)
next
  case (synf_new sfs inps n inp)
  then have "attached ((n, inp) # inps) = attached inps" by (auto simp: attached_def points_def)
  then show ?case using synf_new by simp
next
  case (synf_event sfs inps sf mem u event sfs' e)
  then show ?case using ref_event[of sfs "attached inps" sf mem u event] by auto
next
  case (synf_setopt sfs inps n inp so val sfs' inp' e)
  have "attached inps a + 1 < 2 ^ 32 - 1" for a using attached_le[of inps a] synf_setopt(4) by simp
  then have "ref_ok sfs' (\<lambda>a. attached inps a - points inp a + points inp' a)"
    using ref_setopt[of sfs "attached inps" inp ctor so n val] points_attached synf_setopt by auto
  then show ?case using reach_step synf_setopt by (auto simp: put_inp_fst) (simp add: put_inp_def)
next
  case (synf_close sfs inps n inp sfs' inp')
  then have "ref_ok sfs' (\<lambda>a. attached inps a - points inp a + points inp' a)"
    using ref_close[of sfs "attached inps" inp] points_attached by auto
  then show ?case using reach_step synf_close by (auto simp: put_inp_fst) (simp add: put_inp_def)
qed

subsection \<open>Loading a filter again\<close>

lemma del_run:
  assumes ok: "distinct (map fst sfs)" and g: "syn_filter_get_locked sfs name = Some (a, p)"
  shows "syn_filter_del sfs name = Inr (if sf_refcount p = 1 then filter (\<lambda>(b, _). b \<noteq> a) sfs
    else set_sfi a (p\<lparr>params := (params p)\<lparr>synf_callback := Null_callback\<rparr>, sf_refcount := sf_refcount p - 1\<rparr>) sfs)"
proof -
  let ?q = "p\<lparr>params := (params p)\<lparr>synf_callback := Null_callback\<rparr>\<rparr>"
  have "map_of sfs a = Some p" using get_locked_Some[OF g] ok by simp
  then have m: "map_of (set_sfi a ?q sfs) a = Some ?q" by (rule map_of_set_sfi)
  have f: "filter (\<lambda>(b, _). b \<noteq> a) (set_sfi a ?q sfs) = filter (\<lambda>(b, _). b \<noteq> a) sfs"
    by (induction sfs) (auto simp: set_sfi_def)
  show ?thesis using g m f by (simp add: syn_filter_del_def syn_filter_detach_locked_def set_sfi_twice)
qed

lemma reload_frees:
  assumes d: "distinct (map fst sfs)" and g: "syn_filter_get_locked sfs (synf_name sf) = Some (a, p)" and r: "sf_refcount p = 2"
  shows "\<exists>s1 s2 s3. syn_filter_del sfs (synf_name sf) = Inr s1 \<and> syn_filter_add mem s1 sf = (s2, None) \<and>
    syn_filter_del s2 (synf_name sf) = Inr s3 \<and> map_of s3 a = None"
proof -
  let ?n = "synf_name sf"
  have nm: "synf_name (params p) = ?n" using get_locked_Some[OF g] by simp
  define q where "q = p\<lparr>params := (params p)\<lparr>synf_callback := Null_callback\<rparr>, sf_refcount := 1\<rparr>"
  define q2 where "q2 = q\<lparr>params := (params q)\<lparr>synf_callback := synf_callback sf\<rparr>\<rparr>"
  have 1: "syn_filter_del sfs ?n = Inr (set_sfi a q sfs)" using del_run[OF d g] r by (simp add: q_def)
  have g1: "syn_filter_get_locked (set_sfi a q sfs) ?n = Some (a, q)" using nm by (intro get_locked_set[OF g d]) (simp add: q_def)
  have 2: "syn_filter_add mem (set_sfi a q sfs) sf = (set_sfi a q2 sfs, None)"
    using g1 by (simp add: syn_filter_add_def q2_def set_sfi_twice) (simp add: q_def)
  have g2: "syn_filter_get_locked (set_sfi a q2 sfs) ?n = Some (a, q2)" using nm by (intro get_locked_set[OF g d]) (simp add: q2_def q_def)
  have "syn_filter_del (set_sfi a q2 sfs) ?n = Inr (filter (\<lambda>(b, _). b \<noteq> a) (set_sfi a q2 sfs))"
    using del_run[OF _ g2] d by (simp add: q2_def q_def fst_set_sfi)
  moreover have "map_of (filter (\<lambda>(b, _). b \<noteq> a) (set_sfi a q2 sfs)) a = None" by (auto simp: map_of_eq_None_iff)
  ultimately show ?thesis using 1 2 by blast
qed

subsection \<open>Properties\<close>

definition sample_filter :: syn_filter where
  "sample_filter = \<lparr>synf_name = ''f'', synf_callback = Callback 3, synf_create = None, synf_destroy = None\<rparr>"

definition sample_inp :: pinpcb where
  "sample_inp = \<lparr>inp_l2info = None, inp_promisc = True, inp_synfilter = True,
     inp_synf = Some \<lparr>inst_sfi = 1, ctor_arg = '''', instance_arg = Some 9\<rparr>\<rparr>"

lemma sample_reach:
  "synf_reach (\<lambda>_ _. None) [(1, \<lparr>params = sample_filter, sf_refcount = 2\<rparr>)] [(9, sample_inp)]"
proof -
  let ?inp = "\<lparr>inp_l2info = None, inp_promisc = True, inp_synfilter = False, inp_synf = None\<rparr>"
  have "synf_reach (\<lambda>_ _. None) [(1, \<lparr>params = sample_filter, sf_refcount = 1\<rparr>)] []"
    by (rule synf_event[OF synf_init, where sf = sample_filter and mem = "Some 1" and event = MOD_LOAD and e = None])
      (simp_all add: quiet_def sample_filter_def syn_filter_generic_mod_event_def syn_filter_add_def syn_filter_alloc_def)
  then have "synf_reach (\<lambda>_ _. None) [(1, \<lparr>params = sample_filter, sf_refcount = 1\<rparr>)] [(9, ?inp)]"
    by (rule synf_new) simp_all
  moreover have "syn_filter_setopt (\<lambda>_ _. None) \<lparr>so_promisc = True, so_l2info = None\<rparr> [(1, \<lparr>params = sample_filter, sf_refcount = 1\<rparr>)] 9 ?inp
      (Some (Inr \<lparr>sfa_name = ''f'', sfa_arg = ''''\<rparr>)) = Inr ([(1, \<lparr>params = sample_filter, sf_refcount = 2\<rparr>)], sample_inp, None)"
    by (simp add: syn_filter_setopt_def cstr_def syn_filter_attach_def sample_filter_def set_sfi_def syn_filter_run_constructor_def sample_inp_def
      SYNF_NAME_MAX_def)
  ultimately have "synf_reach (\<lambda>_ _. None) [(1, \<lparr>params = sample_filter, sf_refcount = 2\<rparr>)] (put_inp 9 sample_inp [(9, ?inp)])"
    using synf_setopt[of "\<lambda>_ _. None" _ "[(9, ?inp)]" 9 ?inp] by simp
  then show ?thesis by (simp add: put_inp_def)
qed

text \<open>C7: in every state the registry and its sockets can reach without reloading an unloaded filter that is still in use, each socket's filter
  is alive: running it, setting or removing it and destroying the socket never touch freed memory, and every reference count is the number
  of sockets that use the filter, plus one while its module is loaded.\<close>

theorem synf_no_dangling:
  assumes "synf_reach ctor sfs inps" "(n, inp) \<in> set inps"
  shows "(\<exists>v. syn_filter_run_callback call sfs inp arg = Inr v) \<and> (\<exists>r. syn_filter_setopt ctor so sfs n inp val = Inr r) \<and>
    (\<exists>r. in_promisc_inpcb_destroy sfs inp = Inr r) \<and> (\<forall>(a, p) \<in> set sfs. unat (sf_refcount p) = held p + attached inps a)"
proof -
  have ok: "ref_ok sfs (attached inps)" and len: "length inps < 2 ^ 31" using synf_reach_ok[OF assms(1)] by auto
  note le = points_attached[OF assms(2)]
  have b: "attached inps a + 1 < 2 ^ 32 - 1" for a using attached_le[of inps a] len by simp
  have "\<exists>v. syn_filter_run_callback call sfs inp arg = Inr v"
  proof (cases "inp_synf inp")
    case (Some i)
    have "0 < attached inps (inst_sfi i)" using le[of "inst_sfi i"] Some by (simp add: points_def)
    from ref_attached[OF ok this] obtain p where "map_of sfs (inst_sfi i) = Some p" by blast
    then show ?thesis using Some by (simp add: syn_filter_run_callback_def)
  qed (simp add: syn_filter_run_callback_def)
  moreover have "\<forall>(a, p) \<in> set sfs. unat (sf_refcount p) = held p + attached inps a" using ok by (auto simp: ref_ok_def)
  ultimately show ?thesis using ref_setopt[OF ok le b] ref_close[OF ok le] by blast
qed

theorem synf_no_dangling_witness:
  "\<exists>v. syn_filter_run_callback (\<lambda>_ _ x. x) [(1, \<lparr>params = sample_filter, sf_refcount = 2\<rparr>)] sample_inp 4 = Inr v"
  by (rule conjunct1[OF synf_no_dangling[OF sample_reach, where n = 9]]) simp

text \<open>C40: loading a filter again while one socket still uses it takes no new reference: unload, load and unload free the filter under that
  socket, and the next SYN that reaches the socket calls through freed memory.\<close>

theorem synf_reload_dangles:
  assumes "synf_reach ctor sfs inps" "(n, inp) \<in> set inps" "inp_synf inp = Some i" "inst_sfi i = a" "attached inps a = 1"
    "syn_filter_get_locked sfs (synf_name sf) = Some (a, p)" "synf_callback (params p) \<noteq> Null_callback"
  shows "\<exists>s1 s2 s3. syn_filter_generic_mod_event True mem sfs MOD_UNLOAD sf = Inr (s1, None) \<and>
    syn_filter_generic_mod_event True mem s1 MOD_LOAD sf = Inr (s2, None) \<and>
    syn_filter_generic_mod_event True mem s2 MOD_UNLOAD sf = Inr (s3, None) \<and>
    syn_filter_run_callback call s3 inp arg = Inl Use_after_free"
proof -
  have ok: "ref_ok sfs (attached inps)" using synf_reach_ok[OF assms(1)] by auto
  have "unat (sf_refcount p) = 2" using ok get_locked_Some[OF assms(6)] assms(5,7) by (auto simp: ref_ok_def held_def)
  then have r: "sf_refcount p = 2" by (simp add: word_unat_eq_iff)
  have "distinct (map fst sfs)" using ok by (simp add: ref_ok_def)
  from reload_frees[OF this assms(6) r, of mem] show ?thesis
    using assms(3,4) by (fastforce simp: syn_filter_generic_mod_event_def syn_filter_run_callback_def)
qed

theorem synf_reload_dangles_witness:
  "\<exists>s1 s2 s3. syn_filter_generic_mod_event True None [(1, \<lparr>params = sample_filter, sf_refcount = 2\<rparr>)] MOD_UNLOAD sample_filter = Inr (s1, None) \<and>
    syn_filter_generic_mod_event True None s1 MOD_LOAD sample_filter = Inr (s2, None) \<and>
    syn_filter_generic_mod_event True None s2 MOD_UNLOAD sample_filter = Inr (s3, None) \<and>
    syn_filter_run_callback (\<lambda>_ _ x. x) s3 sample_inp 4 = Inl Use_after_free"
  by (rule synf_reload_dangles[OF sample_reach, where n = 9 and a = 1 and i = "\<lparr>inst_sfi = 1, ctor_arg = '''', instance_arg = Some 9\<rparr>"
      and p = "\<lparr>params = sample_filter, sf_refcount = 2\<rparr>"]) (simp_all add: sample_inp_def attached_def points_def sample_filter_def)

text \<open>C16: comparing two stacks of tags is comparing the lists of masked tags without those whose mask is zero, it never reads outside the
  stacks, and stacks that compare equal have equal hashes.\<close>

definition tag_hash :: "in_l2tagstack \<Rightarrow> u32 \<Rightarrow> u32 res" where
  "tag_hash ts seed = in_promisc_hash32 (inl2t_tags ts) (inl2t_masks ts) (unat (inl2t_cnt ts)) seed"

theorem tagcmp_agrees_with_hash:
  assumes "wf_tags ts1" "wf_tags ts2"
  shows "in_promisc_tagcmp (Some ts1) (Some ts2) = Inr (if tags_of (Some ts1) = tags_of (Some ts2) then 0 else 1) \<and>
    (\<exists>h. tag_hash ts1 seed = Inr h) \<and>
    (in_promisc_tagcmp (Some ts1) (Some ts2) = Inr 0 \<longrightarrow> tag_hash ts1 seed = tag_hash ts2 seed)"
proof -
  have "in_promisc_tagcmp (Some ts1) (Some ts2) = Inr (if tags_of (Some ts1) = tags_of (Some ts2) then 0 else 1)"
    using assms by (intro in_promisc_tagcmp_spec) (simp_all add: wf_tags_opt_def)
  then show ?thesis using in_promisc_hash32_spec[OF assms(1)] in_promisc_hash32_spec[OF assms(2)] by (simp add: tag_hash_def)
qed

definition sample_tags :: "u32 list \<Rightarrow> u32 list \<Rightarrow> in_l2tagstack" where
  "sample_tags ms ts = \<lparr>inl2t_cnt = of_nat (length ms), inl2t_masks = ms @ replicate (16 - length ms) 0, inl2t_tags = ts @ replicate (16 - length ts) 0\<rparr>"

theorem tagcmp_agrees_with_hash_witness:
  "tag_hash (sample_tags [0xfff, 0] [0x1005, 7]) 1 = tag_hash (sample_tags [0, 0xfff] [9, 0x2005]) 1"
proof -
  have wf: "wf_tags (sample_tags [0xfff, 0] [0x1005, 7])" "wf_tags (sample_tags [0, 0xfff] [9, 0x2005])"
    by (simp_all add: wf_tags_def sample_tags_def IN_L2INFO_MAX_TAGS_def)
  have tags: "tags_of (Some (sample_tags [0xfff, 0] [0x1005, 7])) = [5]" "tags_of (Some (sample_tags [0, 0xfff] [9, 0x2005])) = [5]"
    by (simp_all add: tags_of_def sample_tags_def visible_def upt_conv_Cons)
  note T = tagcmp_agrees_with_hash[OF wf, of 1, unfolded tags]
  show ?thesis by (rule mp[OF conjunct2[OF conjunct2[OF T]]]) (rule trans[OF conjunct1[OF T]], simp)
qed

end
