(* ===== verification/Spec2Isabelle.thy ===== *)
theory Spec2Isabelle
  imports Mbuf_Pullup_Props Tcp_Reass_Props Tcp_Sack_Props Tcp_Opts_Props Bpf_Props Promisc_Props
begin

text \<open>
  A verification development of libuinet, the FreeBSD TCP/IP stack built as a user-space library.  File names below are relative to
  \<open>src/\<close>.  The configuration modelled is that of \<open>lib/libuinet\<close> on a 64-bit machine: passive and promiscuous reception on, no IPv6,
  no TCP signatures, no kernel assertions.

  \<^bold>\<open>Parts and how they interact.\<close>  Packets are chains of network buffers (mbufs).  A TCP segment arrives as a chain whose options
  are read by \<open>tcp_dooptions\<close>; its data enters the reassembly queue of the connection through \<open>tcp_reass\<close>, which appends what is in order to
  the receive buffer of the socket, and the application takes bytes from the front of that buffer.  Blocks received out of order are reported
  to the peer as selective acknowledgements written by \<open>tcp_addoptions\<close>; the peer's reports update the scoreboard that chooses what to
  retransmit from the send buffer.  Promiscuous sockets compare and hash stacks of layer-2 tags, and hand a new connection to a SYN filter.
  The packet filter runs programs over chains.  Passive connections mark stretches of a stream that were never captured with \<^emph>\<open>holes\<close>, mbufs
  that have a length and no bytes.

  \<^bold>\<open>Theories.\<close>
  \<^item> \<open>Prelude\<close>: machine types, the datatype of faults, the result type \<open>fault + 'a\<close> with its bind, shared lemmas on lists and words.
  \<^item> \<open>Mbuf\<close> (\<open>sys/sys/mbuf.h\<close>, \<open>sys/kern/uipc_mbuf.c\<close>): the records of \<open>struct mbuf\<close> and \<open>struct pkthdr\<close>, allocation, lengths, reading
    (\<open>m_copydata\<close>, \<open>m_apply\<close>, \<open>m_getptr\<close>).  \<open>m_buf\<close> is the storage, \<open>m_off\<close> the position of \<open>m_data\<close> in it; \<open>m_next\<close> is list order and
    \<open>m_id\<close> the address.  \<open>chain_data\<close> is the byte stream of a chain, \<open>wf_mbuf\<close> its typing.
  \<^item> \<open>Mbuf_Edit\<close>: \<open>m_adj\<close>, \<open>m_cat\<close>, \<open>m_split\<close>, \<open>m_copym2\<close>, \<open>m_append\<close>, \<open>m_dup\<close>, and what each does to \<open>chain_data\<close>.
  \<^item> \<open>Mbuf_Pullup\<close>, \<open>Mbuf_Pullup_Props\<close>: \<open>m_move_pkthdr\<close>, \<open>m_demote\<close>, \<open>m_prepend\<close>, \<open>m_pullup\<close>, \<open>m_copyup\<close>: the bytes are kept, the
    requested prefix becomes contiguous, and every mbuf stays well typed.
  \<^item> \<open>Sockbuf\<close> (\<open>sys/kern/uipc_sockbuf.c\<close>, \<open>sys/sys/sockbuf.h\<close>, \<open>chgsbsize\<close> of \<open>lib/libuinet/uinet_kern_resource.c\<close>): \<open>struct sockbuf\<close> as a
    record whose records are a list of chains, with the 32-bit counters and the cached pointers of the code; appending, dropping, flushing,
    the send pointer, control and address records, reservation of space.  \<open>Sockbuf_Inv\<close>, \<open>Sockbuf_Drop\<close> and \<open>Sockbuf_Rec\<close> show that each
    operation keeps the invariant (exact counters, consistent pointers) and what it does to the bytes.
  \<^item> \<open>Byte_Queue\<close>: the interface of a stream buffer, a locale with the laws of insertion and removal and the first-in first-out lemma over
    any trace of clients.  \<open>Sockbuf_Props\<close> interprets it on \<open>sbappendstream_locked\<close> and \<open>sbdrop_internal\<close>.
  \<^item> \<open>Tcp_Seq\<close>, \<open>Tcp_Timer\<close> (\<open>tcp_seq.h\<close>, \<open>tcp_fsm.h\<close>, \<open>tcp_timer.h\<close>, \<open>tcp_timer.c\<close> of \<open>sys/netinet\<close>): sequence numbers as 32-bit words with the
    comparison macros, connection states, starting and stopping callouts.
  \<^item> \<open>Tcp_Reass\<close> (\<open>sys/netinet/tcp_reass.c\<close>): the queue and the age queue with the addresses of their entries, the zone, the entry on the stack,
    the deadline after which a passive connection gives up on a gap.  \<open>Tcp_Reass_Inv\<close> and \<open>Tcp_Reass_Props\<close> show sorted, disjoint queues,
    exact delivery, and delivery in time.
  \<^item> \<open>Tcp_Sack\<close> (\<open>sys/netinet/tcp_sack.c\<close>): the receiver's blocks and the sender's list of holes with its hint.  \<open>Tcp_Sack_Inv\<close> reads both as sets
    of positions after a base; \<open>Tcp_Sack_Props\<close> states what one report changes and what is retransmitted.
  \<^item> \<open>Tcp_Opts\<close>, \<open>Tcp_Opts_Props\<close> (\<open>tcp_addoptions\<close> of \<open>sys/netinet/tcp_output.c\<close>, \<open>tcp_dooptions\<close> of \<open>sys/netinet/tcp_input.c\<close>): writer and
    reader of the options, their round trip, and that both stay inside their buffers.
  \<^item> \<open>Bpf\<close>, \<open>Bpf_Safe\<close>, \<open>Bpf_Props\<close> (\<open>sys/net/bpf_filter.c\<close>, \<open>sys/net/bpf.h\<close>): the interpreter and the validator, safety of valid programs, and
    agreement between buffers and chains.  The makefile of the library links the stub in \<open>bpf.c\<close> instead of this file; the model is of the file.
  \<^item> \<open>Promisc\<close>, \<open>Promisc_Props\<close> (\<open>sys/netinet/in_promisc.c\<close>, \<open>in_promisc.h\<close>): layer-2 information, tag comparison and hash, the registry of SYN
    filters with reference counts and the socket options; the registry's reachable states are an inductive predicate.
  \<^item> This theory: the receive side of a connection as one transition system, from segments to what the application reads.

  \<^bold>\<open>Conventions.\<close>  A null dereference, a use after free, an access outside a buffer, a \<open>panic\<close> and an undefined arithmetic operation are
  values \<open>Inl\<close>; failed allocations are ordinary branches, driven by a list of outcomes that each allocating function consumes.  Shared objects
  whose lifetime matters (queue entries, filters, cached pointers) are addresses.  Code outside the modelled files is an argument: the zone
  limit, the constructors and callbacks of SYN filters, \<open>max_protohdr\<close>, the clock.  Properties on a clean path come with a witness on concrete
  input; properties of kind error exhibit inputs on which the code misbehaves.

  \<^bold>\<open>Bounds and fuel.\<close>  Every loop is a structural recursion or has a termination proof, except \<open>sbflush_loop\<close>, which takes a bound on
  its rounds: one round per record is enough, as \<open>sbflush_terminates\<close> shows.  \<open>m_dup\<close>, whose loop may not make progress, ends because the list of
  allocation outcomes does.  A round of \<open>m_pullup\<close> that moves nothing is the fault \<open>Diverges\<close>; on chains without holes it does not occur.
  Counters and sequence numbers keep their 32 bits; lengths of mbufs, \<open>int\<close> in the code, are natural numbers.

  \<^bold>\<open>Not modelled.\<close>
  \<^item> Locks, sleeping and wakeups, statistics and logging: the components are sequential under the locks the code takes.
  \<^item> \<open>tcp_do_segment\<close>, \<open>tcp_output\<close>, the SYN cache, timers' handlers and protocol control blocks: they update most of the connection, the
    socket and the routing table in single functions of over a thousand lines, which no smaller state describes.
  \<^item> \<open>m_collapse\<close>, \<open>m_defrag\<close>, \<open>m_unshare\<close> and packet tags: they depend on reference counts of storage shared between chains.
  \<^item> IP, UDP, ICMP, ARP, interfaces, routing and dispatch; the device side of the packet filter.
  \<^item> The glue of \<open>lib/libuinet\<close> to threads, packet input and output and the host system; the sample programs; bundled third-party libraries; parts
    of the kernel tree that the library does not compile.
\<close>

section \<open>A connection from segment to application\<close>

text \<open>
  The receive side of a connection: segments enter through \<open>tcp_reass\<close>, which appends to the socket buffer,
  and the application takes bytes from the front of the buffer with \<open>sbdrop\<close>.  \<open>out\<close> collects what it has read.
\<close>

inductive connection :: "(u32 \<Rightarrow> byte) \<Rightarrow> u32 \<Rightarrow> reass \<Rightarrow> byte list \<Rightarrow> bool" for S b0 where
  conn_open: "data_inv S tp \<Longrightarrow> rcv_nxt tp = b0 \<Longrightarrow> sb_data (so_rcv tp) = [] \<Longrightarrow> connection S b0 tp []"
| conn_segment: "connection S b0 tp out \<Longrightarrow> arrives S tp seq tlen m \<Longrightarrow>
    (inp_passive tp \<longrightarrow> zalloc \<noteq> None \<and> \<not> reass_over_limit tp) \<Longrightarrow>
    tcp_reass ticks dl zalloc as tp (Some (seq, fin)) tlen m = Inr (fin', tlen', tp', as') \<Longrightarrow> connection S b0 tp' out"
| conn_read: "connection S b0 tp out \<Longrightarrow> n \<le> length (sb_data (so_rcv tp)) \<Longrightarrow>
    sbdrop_internal (so_rcv tp) (int n) = Inr sb' \<Longrightarrow>
    connection S b0 (tp\<lparr>so_rcv := sb'\<rparr>) (out @ take n (sb_data (so_rcv tp)))"

lemma connection_inv:
  assumes "connection S b0 tp out"
  shows "data_inv S tp \<and> (\<exists>n. rcv_nxt tp = b0 + of_nat n \<and> out @ sb_data (so_rcv tp) = stretch S b0 n)"
  using assms
proof induction
  case (conn_open tp)
  then show ?case by (auto intro: exI[of _ 0])
next
  case (conn_segment tp out seq tlen m zalloc ticks dl as fin fin' tlen' tp' as')
  then obtain n where n: "rcv_nxt tp = b0 + of_nat n" "out @ sb_data (so_rcv tp) = stretch S b0 n" and i: "data_inv S tp" by auto
  from tcp_reass_data[OF i conn_segment.hyps(2-4)] obtain k where k: "data_inv S tp'" "rcv_nxt tp' = rcv_nxt tp + of_nat k"
    "sb_data (so_rcv tp') = sb_data (so_rcv tp) @ stretch S (rcv_nxt tp) k" by (auto simp: delivers_def)
  have "out @ sb_data (so_rcv tp') = stretch S b0 (n + k)" using k(3) n by (simp add: stretch_add flip: append_assoc)
  then show ?case using k n by (intro conjI exI[of _ "n + k"]) (simp_all add: add.assoc)
next
  case (conn_read tp out n sb')
  then obtain k where k: "rcv_nxt tp = b0 + of_nat k" "out @ sb_data (so_rcv tp) = stretch S b0 k" and i: "data_inv S tp" by auto
  have "stream_inv (so_rcv tp)" using i by (simp add: data_inv_def)
  note d = sbdrop_frame[OF this conn_read.hyps(2,3)]
  have "data_inv S (tp\<lparr>so_rcv := sb'\<rparr>)" using i d unfolding data_inv_def by (auto simp del: set_concat)
  moreover have "(out @ take n (sb_data (so_rcv tp))) @ sb_data sb' = stretch S b0 k" using k(2) d by simp
  ultimately show ?case using k(1) by (intro conjI exI[of _ k]) simp_all
qed

text \<open>C1: Whatever order segments arrive in and however they overlap, and however reads are interleaved, what the application has
  read followed by what is in the receive buffer is a prefix of the peer's byte stream, as long as \<open>rcv_nxt\<close> has advanced.\<close>

theorem connection_reads_stream:
  assumes "connection S b0 tp out"
  shows "\<exists>n. out @ sb_data (so_rcv tp) = stretch S b0 n \<and> rcv_nxt tp = b0 + of_nat n"
  using connection_inv[OF assms] by blast

theorem connection_reads_stream_witness:
  "\<exists>tp n. connection sample_S 100 tp [] \<and> rcv_nxt tp = 104 \<and> sb_data (so_rcv tp) = stretch sample_S 100 n \<and> 104 = (100 + of_nat n :: u32)"
proof -
  obtain tp' where r: "tcp_reass 5 10 (Some 8) [] sample_queue (Some (100, False)) 2 [data_mb 8 {} [100, 101] 0] = Inr (False, 2, tp', [])"
    "rcv_nxt tp' = 104" using sample_run by auto
  have "connection sample_S 100 sample_queue []"
    by (rule conn_open[OF sample_inv(1)]) (simp_all add: sample_queue_def sample_tp_def sb_init_def sb_data_def chain_data_def)
  from conn_segment[OF this sample_arrives _ r(1)] sample_room have c: "connection sample_S 100 tp' []" by simp
  from connection_reads_stream[OF c] c r(2) show ?thesis by auto
qed

end
